(* ===== verification/Prelude.thy ===== *)
theory Prelude
  imports Main "HOL-Library.Word" "HOL-Library.Char_ord" "HOL-Library.List_Lexorder"
begin

text \<open>
  The shared vocabulary of the development.

  \<^item> Byte strings. A Rust \<^verbatim>\<open>&[u8]\<close>, \<^verbatim>\<open>Vec<u8>\<close>, \<^verbatim>\<open>[u8; N]\<close>, \<^verbatim>\<open>&str\<close> or \<^verbatim>\<open>String\<close> is a HOL
    \<^typ>\<open>string\<close>: a HOL \<^typ>\<open>char\<close> is exactly one byte, and a Rust string is its UTF-8 bytes.
    The orders of \<open>Char_ord\<close> and \<open>List_Lexorder\<close> are the byte-wise lexicographic order
    that Rust uses for all of these types.
  \<^item> Machine integers of a width that matters are words; sizes and counts that stay far below
    their width are \<^typ>\<open>nat\<close>.
  \<^item> \<^verbatim>\<open>Result<T, E>\<close> is the sum \<open>'e + 'a\<close> with \<^const>\<open>Inl\<close> the error.
  \<^item> A call that may panic returns \<open>'a outcome\<close>.
\<close>

section \<open>Types\<close>

type_synonym bytes = string
type_synonym u64 = "64 word"
type_synonym u32 = "32 word"

datatype 'a outcome = Return 'a | Panic

named_theorems run_simps \<open>equations that run a modelled operation on a concrete branch\<close>
named_theorems inv_intros \<open>an operation keeps its component's invariant\<close>

section \<open>Results\<close>

text \<open>The \<^verbatim>\<open>?\<close> operator.\<close>

definition and_then :: "'e + 'a \<Rightarrow> ('a \<Rightarrow> 'e + 'b) \<Rightarrow> 'e + 'b" where
  "and_then r f = (case r of Inl e \<Rightarrow> Inl e | Inr a \<Rightarrow> f a)"

text \<open>A \<^verbatim>\<open>for\<close> loop whose body returns early with the first error.\<close>

fun try_each :: "('a \<Rightarrow> 'e + unit) \<Rightarrow> 'a list \<Rightarrow> 'e + unit" where
  "try_each f [] = Inr ()"
| "try_each f (x # xs) = (case f x of Inl e \<Rightarrow> Inl e | Inr _ \<Rightarrow> try_each f xs)"

text \<open>An iterator of results collected into a result of a list.\<close>

fun collect_results :: "('e + 'a) list \<Rightarrow> 'e + 'a list" where
  "collect_results [] = Inr []"
| "collect_results (r # rs) = (case r of Inl e \<Rightarrow> Inl e
     | Inr a \<Rightarrow> (case collect_results rs of Inl e \<Rightarrow> Inl e | Inr as \<Rightarrow> Inr (a # as)))"

section \<open>Checked arithmetic\<close>

definition checked_add_u32 :: "u32 \<Rightarrow> u32 \<Rightarrow> u32 option" where
  "checked_add_u32 a b = (if unat a + unat b < 2 ^ 32 then Some (a + b) else None)"

section \<open>ASCII\<close>

definition ascii_lower :: "char \<Rightarrow> char" where
  "ascii_lower c = (let n = of_char c :: nat in if 65 \<le> n \<and> n \<le> 90 then char_of (n + 32) else c)"

definition ascii_upper :: "char \<Rightarrow> char" where
  "ascii_upper c = (let n = of_char c :: nat in if 97 \<le> n \<and> n \<le> 122 then char_of (n - 32) else c)"

definition is_ascii_digit :: "char \<Rightarrow> bool" where
  "is_ascii_digit c = (let n = of_char c :: nat in 48 \<le> n \<and> n \<le> 57)"

definition is_ascii_alphabetic :: "char \<Rightarrow> bool" where
  "is_ascii_alphabetic c =
     (let n = of_char c :: nat in 65 \<le> n \<and> n \<le> 90 \<or> 97 \<le> n \<and> n \<le> 122)"

definition is_ascii_alphanumeric :: "char \<Rightarrow> bool" where
  "is_ascii_alphanumeric c = (is_ascii_alphabetic c \<or> is_ascii_digit c)"

definition to_ascii_lowercase :: "bytes \<Rightarrow> bytes" where
  "to_ascii_lowercase = map ascii_lower"

definition to_ascii_uppercase :: "bytes \<Rightarrow> bytes" where
  "to_ascii_uppercase = map ascii_upper"

definition eq_ignore_ascii_case :: "bytes \<Rightarrow> bytes \<Rightarrow> bool" where
  "eq_ignore_ascii_case a b = (to_ascii_lowercase a = to_ascii_lowercase b)"

section \<open>Characters of a UTF-8 string\<close>

text \<open>
  \<^verbatim>\<open>str::chars\<close>: the UTF-8 encodings of the characters of a string, in order. The width of a
  character is read off its first byte, as it is for the valid UTF-8 every Rust string holds.
\<close>

definition utf8_width :: "char \<Rightarrow> nat" where
  "utf8_width c = (let n = of_char c :: nat in
     if n < 128 then 1 else if n < 224 then 2 else if n < 240 then 3 else 4)"

function str_chars :: "bytes \<Rightarrow> bytes list" where
  "str_chars [] = []"
| "str_chars (c # cs) = take (utf8_width c) (c # cs) # str_chars (drop (utf8_width c - 1) cs)"
  by pat_completeness auto
termination
  by (relation "measure length") auto

definition is_ascii :: "bytes \<Rightarrow> bool" where
  "is_ascii s = (\<forall>c \<in> set s. of_char c < (128 :: nat))"

text \<open>\<^verbatim>\<open>haystack.contains(needle)\<close> and \<^verbatim>\<open>strip_prefix\<close>, on bytes.\<close>

fun strip_prefix :: "bytes \<Rightarrow> bytes \<Rightarrow> bytes option" where
  "strip_prefix [] s = Some s"
| "strip_prefix (p # ps) [] = None"
| "strip_prefix (p # ps) (c # cs) = (if p = c then strip_prefix ps cs else None)"

definition strip_suffix :: "bytes \<Rightarrow> bytes \<Rightarrow> bytes option" where
  "strip_suffix p s = map_option rev (strip_prefix (rev p) (rev s))"

fun str_contains_sub :: "bytes \<Rightarrow> bytes \<Rightarrow> bool" where
  "str_contains_sub needle [] = (needle = [])"
| "str_contains_sub needle (c # cs) =
     (strip_prefix needle (c # cs) \<noteq> None \<or> str_contains_sub needle cs)"

section \<open>Lemmas: results\<close>

lemma and_then_simps [simp]:
  "and_then (Inl e) f = Inl e"
  "and_then (Inr a) f = f a"
  by (simp_all add: and_then_def)

lemma and_then_eq_Inr: "and_then r f = Inr b \<longleftrightarrow> (\<exists>a. r = Inr a \<and> f a = Inr b)"
  by (cases r) auto

lemma try_each_Inr_iff: "try_each f xs = Inr u \<longleftrightarrow> (\<forall>x \<in> set xs. f x = Inr ())"
  by (induction xs) (auto split: sum.splits)

lemma try_each_Inl: "try_each f xs = Inl e \<Longrightarrow> \<exists>x \<in> set xs. f x = Inl e"
  by (induction xs) (auto split: sum.splits)

lemma collect_results_map_Inr [simp]: "collect_results (map Inr as) = Inr as"
  by (induction as) simp_all

lemma collect_results_InrD: "collect_results rs = Inr as \<Longrightarrow> rs = map Inr as"
  by (induction rs arbitrary: as) (auto split: sum.splits)

lemma collect_results_Inr_iff: "collect_results rs = Inr as \<longleftrightarrow> rs = map Inr as"
  by (auto dest: collect_results_InrD)

section \<open>Lemmas: checked arithmetic and word order\<close>

lemma checked_add_u32_one:
  "checked_add_u32 l 1 = (if l = - 1 then None else Some (l + 1))"
proof (cases "l = - 1")
  case True
  have "unat (- 1 :: u32) = 2 ^ 32 - 1" by (simp add: unsigned_minus_1_eq_mask mask_eq_exp_minus_1)
  with True show ?thesis by (simp add: checked_add_u32_def)
next
  case False
  have max: "unat (- 1 :: u32) = 2 ^ 32 - 1" by (simp add: unsigned_minus_1_eq_mask mask_eq_exp_minus_1)
  from False have "unat l \<noteq> unat (- 1 :: u32)" by (auto dest: unsigned_word_eqI)
  moreover have "unat l < 2 ^ 32" using unsigned_less [of l] by simp
  ultimately have "unat l + unat (1 :: u32) < 2 ^ 32" using max by simp
  with False show ?thesis by (simp add: checked_add_u32_def)
qed

lemma unat_Suc_word:
  fixes x :: "'a::len word"
  assumes "x \<noteq> - 1"
  shows "unat (x + 1) = Suc (unat x)"
proof -
  from assms have "1 + x \<noteq> 0" by (simp add: eq_neg_iff_add_eq_0 add.commute)
  then show ?thesis using unatSuc [of x] by (simp add: add.commute)
qed

lemma word_less_Suc:
  fixes x :: "'a::len word"
  shows "x \<noteq> - 1 \<Longrightarrow> x < x + 1"
  by (simp add: word_less_nat_alt unat_Suc_word)

section \<open>Lemmas: ASCII\<close>

lemma of_char_less_256: "of_char c < (256 :: nat)"
  using of_char_mod_256 [of c, where 'a = nat] by (metis mod_less_divisor zero_less_numeral)

lemma of_char_char_of_small: "n < 256 \<Longrightarrow> of_char (char_of n) = (n :: nat)"
  by (simp add: of_char_of)

lemma ascii_lower_idem [simp]: "ascii_lower (ascii_lower c) = ascii_lower c"
proof -
  have "of_char c < (256 :: nat)" by (rule of_char_less_256)
  then show ?thesis by (auto simp: ascii_lower_def Let_def of_char_char_of_small)
qed

lemma to_ascii_lowercase_idem [simp]:
  "to_ascii_lowercase (to_ascii_lowercase s) = to_ascii_lowercase s"
  by (simp add: to_ascii_lowercase_def comp_def)

lemma length_to_ascii_lowercase [simp]: "length (to_ascii_lowercase s) = length s"
  by (simp add: to_ascii_lowercase_def)

lemma to_ascii_lowercase_Nil_iff [simp]: "to_ascii_lowercase s = [] \<longleftrightarrow> s = []"
  by (simp add: to_ascii_lowercase_def)

lemma ascii_lower_eq_iff:
  assumes "of_char c < (65 :: nat)"
  shows "ascii_lower d = c \<longleftrightarrow> d = c"
proof -
  have "of_char d < (256 :: nat)" by (rule of_char_less_256)
  then show ?thesis
    using assms by (auto simp: ascii_lower_def Let_def of_char_char_of_small)
qed

section \<open>Lemmas: strings\<close>

lemma utf8_width_pos [simp]: "0 < utf8_width c"
  by (simp add: utf8_width_def Let_def)

lemma str_chars_ascii: "is_ascii s \<Longrightarrow> str_chars s = map (\<lambda>c. [c]) s"
  by (induction s) (auto simp: is_ascii_def utf8_width_def Let_def)

lemma strip_prefix_Some_iff: "strip_prefix p s = Some r \<longleftrightarrow> s = p @ r"
  by (induction p s rule: strip_prefix.induct) auto

lemma strip_suffix_Some_iff: "strip_suffix p s = Some r \<longleftrightarrow> s = r @ p"
proof -
  have "strip_suffix p s = Some r \<longleftrightarrow> strip_prefix (rev p) (rev s) = Some (rev r)"
    by (auto simp: strip_suffix_def)
  also have "\<dots> \<longleftrightarrow> rev s = rev (r @ p)" by (simp add: strip_prefix_Some_iff)
  finally show ?thesis by (simp only: rev_is_rev_conv)
qed

lemma str_contains_sub_iff: "str_contains_sub n s \<longleftrightarrow> (\<exists>u v. s = u @ n @ v)"
proof (induction s)
  case Nil
  then show ?case by simp
next
  case (Cons c cs)
  note IH = Cons.IH
  show ?case
  proof
    assume "str_contains_sub n (c # cs)"
    then consider v where "c # cs = n @ v" | u v where "cs = u @ n @ v"
      using Cons.IH by (auto simp: strip_prefix_Some_iff)
    then show "\<exists>u v. c # cs = u @ n @ v"
      by cases (metis append_Nil, metis append_Cons)
  next
    assume "\<exists>u v. c # cs = u @ n @ v"
    then obtain u v where uv: "c # cs = u @ n @ v" by blast
    show "str_contains_sub n (c # cs)"
    proof (cases u)
      case Nil
      with uv have "strip_prefix n (c # cs) = Some v" by (simp add: strip_prefix_Some_iff)
      then show ?thesis by simp
    next
      case (Cons a w)
      with uv IH show ?thesis by auto
    qed
  qed
qed

text \<open>Facts that evaluate the string operations on literals.\<close>

lemmas ascii_eval = to_ascii_lowercase_def ascii_lower_def to_ascii_uppercase_def ascii_upper_def
  is_ascii_digit_def is_ascii_alphabetic_def is_ascii_alphanumeric_def eq_ignore_ascii_case_def
  utf8_width_def Let_def

end
