(* ===== verification/Hlc.thy ===== *)
theory Hlc
  imports Prelude
begin

text \<open>
  The hybrid logical clock (\<^verbatim>\<open>crates/core/src/hlc.rs\<close>).

  A timestamp is a wall-clock millisecond, a logical counter and a node id, compared in this
  order. A clock remembers the last timestamp it emitted. The wall clock reading that the
  Rust methods take as \<^verbatim>\<open>now_ms\<close> is an argument here too. Widths are kept: \<^verbatim>\<open>new_wall += 1\<close> is
  the wrapping addition of a release build.
\<close>

section \<open>Timestamps and clocks\<close>

datatype hlc_timestamp = HlcTimestamp (wall_ms: u64) (logical: u32) (node_id: bytes)

text \<open>The derived \<^verbatim>\<open>Ord\<close>: the fields in declaration order.\<close>

instantiation hlc_timestamp :: linorder
begin

definition less_eq_hlc_timestamp :: "hlc_timestamp \<Rightarrow> hlc_timestamp \<Rightarrow> bool" where
  "a \<le> b \<longleftrightarrow> wall_ms a < wall_ms b \<or> wall_ms a = wall_ms b \<and>
     (logical a < logical b \<or> logical a = logical b \<and> node_id a \<le> node_id b)"

definition less_hlc_timestamp :: "hlc_timestamp \<Rightarrow> hlc_timestamp \<Rightarrow> bool" where
  "a < b \<longleftrightarrow> wall_ms a < wall_ms b \<or> wall_ms a = wall_ms b \<and>
     (logical a < logical b \<or> logical a = logical b \<and> node_id a < node_id b)"

instance
  by intro_classes
    (auto simp: less_eq_hlc_timestamp_def less_hlc_timestamp_def hlc_timestamp.expand)

end

datatype hlc_error = ClockSkewExceeded u64 u64 u64

record hlc_clock =
  clk_last :: hlc_timestamp
  clk_node_id :: bytes
  max_clock_skew_ms :: u64

definition DEFAULT_MAX_CLOCK_SKEW_MS :: u64 where
  "DEFAULT_MAX_CLOCK_SKEW_MS = 5000"

section \<open>Operations\<close>

definition hlc_new :: "bytes \<Rightarrow> u64 \<Rightarrow> hlc_clock" where
  "hlc_new node initial_wall_ms =
     \<lparr>clk_last = HlcTimestamp initial_wall_ms 0 node, clk_node_id = node,
      max_clock_skew_ms = DEFAULT_MAX_CLOCK_SKEW_MS\<rparr>"

definition hlc_new_seeded :: "bytes \<Rightarrow> u64 \<Rightarrow> hlc_timestamp \<Rightarrow> hlc_clock" where
  "hlc_new_seeded node now_ms checkpoint =
     \<lparr>clk_last = (if wall_ms checkpoint \<ge> now_ms
                  then HlcTimestamp (wall_ms checkpoint) (logical checkpoint) node
                  else HlcTimestamp now_ms 0 node),
      clk_node_id = node, max_clock_skew_ms = DEFAULT_MAX_CLOCK_SKEW_MS\<rparr>"

definition last_timestamp :: "hlc_clock \<Rightarrow> hlc_timestamp" where
  "last_timestamp c = clk_last c"

text \<open>
  The \<^verbatim>\<open>match l.checked_add(1)\<close> that \<^verbatim>\<open>send\<close> and \<^verbatim>\<open>receive\<close> share: on exhaustion of the logical
  counter the wall advances by one millisecond.
\<close>

definition bump_logical :: "u64 \<Rightarrow> u32 \<Rightarrow> u64 \<times> u32" where
  "bump_logical new_wall l =
     (case checked_add_u32 l 1 of Some l' \<Rightarrow> (new_wall, l') | None \<Rightarrow> (new_wall + 1, 0))"

definition hlc_send :: "hlc_clock \<Rightarrow> u64 \<Rightarrow> hlc_clock \<times> hlc_timestamp" where
  "hlc_send c now_ms =
     (let new_wall = max (wall_ms (clk_last c)) now_ms;
          (w, l) = (if new_wall = wall_ms (clk_last c)
                    then bump_logical new_wall (logical (clk_last c))
                    else (new_wall, 0));
          ts = HlcTimestamp w l (clk_node_id c)
      in (c\<lparr>clk_last := ts\<rparr>, ts))"

definition hlc_receive ::
  "hlc_clock \<Rightarrow> u64 \<Rightarrow> hlc_timestamp \<Rightarrow> hlc_error + hlc_clock \<times> hlc_timestamp" where
  "hlc_receive c now_ms observed =
     (if wall_ms observed > now_ms \<and> wall_ms observed - now_ms > max_clock_skew_ms c
      then Inl (ClockSkewExceeded (wall_ms observed) now_ms (max_clock_skew_ms c))
      else
        (let lst = clk_last c;
             new_wall = max (max (wall_ms lst) (wall_ms observed)) now_ms;
             (w, l) =
               (if new_wall = wall_ms lst \<and> new_wall = wall_ms observed
                then bump_logical new_wall (max (logical lst) (logical observed))
                else if new_wall = wall_ms lst then bump_logical new_wall (logical lst)
                else if new_wall = wall_ms observed then bump_logical new_wall (logical observed)
                else (new_wall, 0));
             ts = HlcTimestamp w l (clk_node_id c)
         in Inr (c\<lparr>clk_last := ts\<rparr>, ts)))"

text \<open>
  A run of a clock: the calls made on it in order, and the timestamps it issued. A rejected
  \<^verbatim>\<open>receive\<close> returns before touching the clock.
\<close>

datatype hlc_call = Send u64 | Receive u64 hlc_timestamp

fun hlc_run :: "hlc_clock \<Rightarrow> hlc_call list \<Rightarrow> hlc_clock \<times> hlc_timestamp list" where
  "hlc_run c [] = (c, [])"
| "hlc_run c (Send now # es) =
     (let (c', t) = hlc_send c now; (c'', ts) = hlc_run c' es in (c'', t # ts))"
| "hlc_run c (Receive now obs # es) =
     (case hlc_receive c now obs of
        Inl _ \<Rightarrow> hlc_run c es
      | Inr (c', t) \<Rightarrow> (let (c'', ts) = hlc_run c' es in (c'', t # ts)))"

fun call_now :: "hlc_call \<Rightarrow> u64" where
  "call_now (Send now) = now"
| "call_now (Receive now obs) = now"

text \<open>The only state from which \<^verbatim>\<open>send\<close> cannot advance.\<close>

definition hlc_exhausted :: "hlc_timestamp \<Rightarrow> bool" where
  "hlc_exhausted t \<longleftrightarrow> wall_ms t = - 1 \<and> logical t = - 1"

section \<open>Lemmas\<close>

lemma bump_logical_eq:
  "bump_logical w l = (if l = - 1 then (w + 1, 0) else (w, l + 1))"
  by (simp add: bump_logical_def checked_add_u32_one)

lemma u64_max_iff: "w = - 1 \<longleftrightarrow> unat w = 2 ^ 64 - 1" for w :: u64
proof -
  have m: "unat (- 1 :: u64) = 2 ^ 64 - 1"
    by (simp add: unsigned_minus_1_eq_mask mask_eq_exp_minus_1)
  show ?thesis
  proof
    assume "unat w = 2 ^ 64 - 1"
    with m have "unat w = unat (- 1 :: u64)" by simp
    then show "w = - 1" by (rule unsigned_word_eqI)
  qed (simp add: m)
qed

text \<open>What bumping does to the pair (wall, logical).\<close>

lemma bump_logical_wall_le:
  assumes "w \<noteq> - 1 \<or> l \<noteq> - 1"
  shows "unat w \<le> unat (fst (bump_logical w l)) \<and> unat (fst (bump_logical w l)) \<le> unat w + 1"
  using assms by (auto simp: bump_logical_eq unat_Suc_word)

lemma bump_logical_greater:
  assumes "w \<noteq> - 1 \<or> l \<noteq> - 1" and "l' \<le> l"
  shows "HlcTimestamp w l' n < HlcTimestamp (fst (bump_logical w l)) (snd (bump_logical w l)) m"
proof (cases "l = - 1")
  case True
  with assms(1) have "w < w + 1" by (auto intro: word_less_Suc)
  with True show ?thesis by (simp add: bump_logical_eq less_hlc_timestamp_def)
next
  case False
  then have "l < l + 1" by (rule word_less_Suc)
  with assms(2) have "l' < l + 1" by simp
  with False show ?thesis by (simp add: bump_logical_eq less_hlc_timestamp_def)
qed

lemma hlc_send_last [simp]: "clk_last (fst (hlc_send c now)) = snd (hlc_send c now)"
  by (simp add: hlc_send_def Let_def split: prod.split)

lemma hlc_send_frame [simp]:
  "clk_node_id (fst (hlc_send c now)) = clk_node_id c"
  "max_clock_skew_ms (fst (hlc_send c now)) = max_clock_skew_ms c"
  "node_id (snd (hlc_send c now)) = clk_node_id c"
  by (simp_all add: hlc_send_def Let_def split: prod.split)

lemma hlc_receive_frame:
  assumes "hlc_receive c now obs = Inr (c', t)"
  shows "clk_last c' = t \<and> clk_node_id c' = clk_node_id c
     \<and> max_clock_skew_ms c' = max_clock_skew_ms c \<and> node_id t = clk_node_id c"
  using assms by (auto simp: hlc_receive_def Let_def split: if_splits prod.splits)

lemma word_max_unat: "unat (max a b) = max (unat a) (unat b)" for a b :: "'a::len word"
  by (simp add: max_def word_le_nat_alt)

lemma hlc_send_wall:
  assumes "\<not> hlc_exhausted (clk_last c)"
  shows "max (unat (wall_ms (clk_last c))) (unat now) \<le> unat (wall_ms (snd (hlc_send c now)))
    \<and> unat (wall_ms (snd (hlc_send c now))) \<le> max (unat (wall_ms (clk_last c))) (unat now) + 1"
proof (cases "max (wall_ms (clk_last c)) now = wall_ms (clk_last c)")
  case True
  then have m: "max (unat (wall_ms (clk_last c))) (unat now) = unat (wall_ms (clk_last c))"
    by (metis word_max_unat)
  from assms have "wall_ms (clk_last c) \<noteq> - 1 \<or> logical (clk_last c) \<noteq> - 1"
    by (simp add: hlc_exhausted_def)
  from bump_logical_wall_le [OF this] True show ?thesis
    by (simp add: hlc_send_def Let_def case_prod_beta m)
next
  case False
  then have "wall_ms (snd (hlc_send c now)) = max (wall_ms (clk_last c)) now"
    by (simp add: hlc_send_def Let_def)
  then have "unat (wall_ms (snd (hlc_send c now))) = max (unat (wall_ms (clk_last c))) (unat now)"
    by (simp only: word_max_unat)
  then show ?thesis by linarith
qed

text \<open>When the skew check passes, the observed wall is at most the allowed skew ahead.\<close>

lemma hlc_receive_skew:
  assumes "hlc_receive c now obs = Inr r"
  shows "unat (wall_ms obs) \<le> unat now + unat (max_clock_skew_ms c)"
proof (cases "wall_ms obs > now")
  case True
  with assms have "wall_ms obs - now \<le> max_clock_skew_ms c"
    by (auto simp: hlc_receive_def split: if_splits)
  moreover from True have "unat (wall_ms obs - now) = unat (wall_ms obs) - unat now"
    by (simp add: unat_sub)
  ultimately show ?thesis by (simp add: word_le_nat_alt)
next
  case False
  then show ?thesis by (simp add: word_le_nat_alt not_less)
qed

lemma hlc_receive_step:
  assumes r: "hlc_receive c now obs = Inr (c', t)"
    and w: "wall_ms (clk_last c) \<noteq> - 1" "wall_ms obs \<noteq> - 1" "now \<noteq> - 1"
  shows "clk_last c < t \<and> obs < t \<and> unat now \<le> unat (wall_ms t)
    \<and> unat (wall_ms t) \<le> max (max (unat (wall_ms (clk_last c))) (unat (wall_ms obs))) (unat now) + 1"
proof -
  let ?l = "clk_last c"
  let ?w = "max (max (wall_ms ?l) (wall_ms obs)) now"
  let ?lg = "if ?w = wall_ms ?l \<and> ?w = wall_ms obs then max (logical ?l) (logical obs)
    else if ?w = wall_ms ?l then logical ?l else logical obs"
  have wm: "?w \<noteq> - 1" using w by (simp add: max_def)
  have uw: "unat ?w = max (max (unat (wall_ms ?l)) (unat (wall_ms obs))) (unat now)"
    by (simp add: word_max_unat)
  have le: "wall_ms ?l \<le> ?w" "wall_ms obs \<le> ?w" "now \<le> ?w" by (simp_all add: le_max_iff_disj)
  have lts: "ts < t" if "wall_ms ts = ?w \<longrightarrow> logical ts \<le> ?lg" "wall_ms ts \<le> ?w"
      "t = HlcTimestamp (fst (bump_logical ?w ?lg)) (snd (bump_logical ?w ?lg)) n" for ts n
  proof (cases "wall_ms ts = ?w")
    case True
    with that(1) have "HlcTimestamp ?w (logical ts) (node_id ts)
        < HlcTimestamp (fst (bump_logical ?w ?lg)) (snd (bump_logical ?w ?lg)) n"
      by (intro bump_logical_greater) (use wm in auto)
    with True that(3) show ?thesis by (metis hlc_timestamp.collapse)
  next
    case False
    with that(2) have "wall_ms ts < ?w" by simp
    with bump_logical_wall_le [of ?w ?lg] wm have "wall_ms ts < fst (bump_logical ?w ?lg)"
      by (auto simp: word_less_nat_alt)
    with that(3) show ?thesis by (simp add: less_hlc_timestamp_def)
  qed
  show ?thesis
  proof (cases "?w = wall_ms ?l \<or> ?w = wall_ms obs")
    case True
    with r have t: "t = HlcTimestamp (fst (bump_logical ?w ?lg)) (snd (bump_logical ?w ?lg)) (clk_node_id c)"
      by (auto simp: hlc_receive_def Let_def case_prod_beta split: if_splits)
    have "unat ?w \<le> unat (wall_ms t) \<and> unat (wall_ms t) \<le> unat ?w + 1"
      using bump_logical_wall_le [of ?w ?lg] wm t by simp
    moreover have "?l < t" by (rule lts [OF _ le(1) t]) auto
    moreover have "obs < t" by (rule lts [OF _ le(2) t]) auto
    ultimately show ?thesis using uw by linarith
  next
    case False
    with r have t: "t = HlcTimestamp ?w 0 (clk_node_id c)"
      by (auto simp: hlc_receive_def Let_def split: if_splits)
    from False le have "wall_ms ?l < ?w" "wall_ms obs < ?w" by auto
    then have "?l < t" "obs < t" by (simp_all add: t less_hlc_timestamp_def)
    moreover have "unat (wall_ms t) = unat ?w" by (simp add: t)
    ultimately show ?thesis using uw by linarith
  qed
qed

lemma hlc_send_greater_iff:
  "clk_last c < snd (hlc_send c now) \<longleftrightarrow> \<not> hlc_exhausted (clk_last c)"
proof (cases "max (wall_ms (clk_last c)) now = wall_ms (clk_last c)")
  case same: True
  then have t: "snd (hlc_send c now) =
      HlcTimestamp (fst (bump_logical (wall_ms (clk_last c)) (logical (clk_last c))))
        (snd (bump_logical (wall_ms (clk_last c)) (logical (clk_last c)))) (clk_node_id c)"
    by (simp add: hlc_send_def Let_def case_prod_beta)
  show ?thesis
  proof (cases "hlc_exhausted (clk_last c)")
    case True
    then show ?thesis
      by (simp add: t less_hlc_timestamp_def hlc_exhausted_def bump_logical_eq)
  next
    case False
    then have "HlcTimestamp (wall_ms (clk_last c)) (logical (clk_last c)) (node_id (clk_last c))
        < snd (hlc_send c now)"
      unfolding t by (intro bump_logical_greater) (auto simp: hlc_exhausted_def)
    with False show ?thesis by simp
  qed
next
  case False
  then have t: "snd (hlc_send c now) = HlcTimestamp (max (wall_ms (clk_last c)) now) 0 (clk_node_id c)"
    by (simp add: hlc_send_def Let_def)
  from False have lt: "wall_ms (clk_last c) < max (wall_ms (clk_last c)) now"
    by (simp add: less_max_iff_disj max_def split: if_splits)
  then have "wall_ms (clk_last c) \<noteq> - 1"
    by (metis max_word_max not_less)
  with lt show ?thesis by (simp add: t less_hlc_timestamp_def hlc_exhausted_def)
qed

text \<open>
  One call of a run, under a bound \<open>B\<close> on the walls seen so far and on the walls the call
  may bring in.
\<close>

lemma hlc_send_bounded:
  assumes "unat (wall_ms (clk_last c)) \<le> B" "unat now \<le> B" "B < 2 ^ 64 - 1"
  shows "clk_last c < snd (hlc_send c now) \<and> unat (wall_ms (snd (hlc_send c now))) \<le> B + 1"
proof -
  from assms(1,3) have ne: "\<not> hlc_exhausted (clk_last c)"
    by (auto simp: hlc_exhausted_def u64_max_iff)
  then have "clk_last c < snd (hlc_send c now)" by (simp add: hlc_send_greater_iff)
  with hlc_send_wall [OF ne, of now] assms(1,2) show ?thesis by linarith
qed

lemma hlc_receive_bounded:
  assumes r: "hlc_receive c now obs = Inr (c', t)"
    and "unat (wall_ms (clk_last c)) \<le> B" "unat now + unat (max_clock_skew_ms c) \<le> B"
      "B < 2 ^ 64 - 1"
  shows "clk_last c < t \<and> unat (wall_ms t) \<le> B + 1"
proof -
  have "unat (wall_ms obs) \<le> B" using hlc_receive_skew [OF r] assms(3) by linarith
  with assms have "wall_ms (clk_last c) \<noteq> - 1" "wall_ms obs \<noteq> - 1" "now \<noteq> - 1"
    by (auto simp: u64_max_iff)
  from hlc_receive_step [OF r this] \<open>unat (wall_ms obs) \<le> B\<close> assms(2,3) show ?thesis
    by linarith
qed

lemma hlc_run_sorted:
  assumes "hlc_run c es = (c', ts)"
    and "\<And>e. e \<in> set es \<Longrightarrow> unat (call_now e) + unat (max_clock_skew_ms c) \<le> B"
    and "unat (wall_ms (clk_last c)) \<le> B" and "B + length es < 2 ^ 64 - 1"
  shows "sorted_wrt (<) (clk_last c # ts) \<and> (\<forall>t \<in> set ts. unat (wall_ms t) \<le> B + length es)
    \<and> clk_last c' = last (clk_last c # ts)"
  using assms
proof (induction c es arbitrary: c' ts B rule: hlc_run.induct)
  case (1 c)
  then show ?case by simp
next
  case (2 c now es)
  obtain c1 t where s: "hlc_send c now = (c1, t)" by force
  obtain ts' where ts: "hlc_run c1 es = (c', ts')" "ts = t # ts'"
    using "2.prems"(1) s by (auto split: prod.splits)
  have c1: "clk_last c1 = t" "max_clock_skew_ms c1 = max_clock_skew_ms c"
    using hlc_send_last [of c now] hlc_send_frame(2) [of c now] by (simp_all add: s)
  have step: "clk_last c < t \<and> unat (wall_ms t) \<le> B + 1"
    using hlc_send_bounded [of c B now] "2.prems"(2) [of "Send now"] "2.prems"(3,4) by (simp add: s)
  have "sorted_wrt (<) (t # ts') \<and> (\<forall>u \<in> set ts'. unat (wall_ms u) \<le> (B + 1) + length es)
      \<and> clk_last c' = last (t # ts')"
    unfolding c1(1) [symmetric]
  proof (rule "2.IH" [OF s [symmetric] refl ts(1)])
    show "unat (call_now e) + unat (max_clock_skew_ms c1) \<le> B + 1" if "e \<in> set es" for e
      using "2.prems"(2) [of e] that c1(2) by simp
  qed (use step c1 "2.prems"(4) in auto)
  with step ts(2) show ?case by (auto intro: less_trans)
next
  case (3 c now obs es)
  show ?case
  proof (cases "hlc_receive c now obs")
    case (Inl e)
    have "sorted_wrt (<) (clk_last c # ts) \<and> (\<forall>u \<in> set ts. unat (wall_ms u) \<le> B + length es)
        \<and> clk_last c' = last (clk_last c # ts)"
    proof (rule "3.IH"(1) [OF Inl])
      show "hlc_run c es = (c', ts)" using "3.prems"(1) Inl by simp
      show "unat (call_now e) + unat (max_clock_skew_ms c) \<le> B" if "e \<in> set es" for e
        using "3.prems"(2) [of e] that by simp
    qed (use "3.prems"(3,4) in auto)
    then show ?thesis by auto
  next
    case (Inr ct)
    obtain c1 t where ct: "ct = (c1, t)" by force
    obtain ts' where ts: "hlc_run c1 es = (c', ts')" "ts = t # ts'"
      using "3.prems"(1) Inr ct by (auto split: prod.splits)
    note r = Inr [unfolded ct]
    have c1: "clk_last c1 = t" "max_clock_skew_ms c1 = max_clock_skew_ms c"
      using hlc_receive_frame [OF r] by simp_all
    have step: "clk_last c < t \<and> unat (wall_ms t) \<le> B + 1"
      using hlc_receive_bounded [OF r "3.prems"(3)] "3.prems"(2) [of "Receive now obs"] "3.prems"(4)
      by simp
    have "sorted_wrt (<) (t # ts') \<and> (\<forall>u \<in> set ts'. unat (wall_ms u) \<le> (B + 1) + length es)
        \<and> clk_last c' = last (t # ts')"
      unfolding c1(1) [symmetric]
    proof (rule "3.IH"(2) [OF Inr ct [symmetric] ts(1)])
      show "unat (call_now e) + unat (max_clock_skew_ms c1) \<le> B + 1" if "e \<in> set es" for e
        using "3.prems"(2) [of e] that c1(2) by simp
    qed (use step c1 "3.prems"(4) in auto)
    with step ts(2) show ?thesis by (auto intro: less_trans)
  qed
qed

lemma hlc_send_greater_any_node:
  assumes "\<not> hlc_exhausted (clk_last c)"
  shows "HlcTimestamp (wall_ms (clk_last c)) (logical (clk_last c)) n < snd (hlc_send c now)"
proof (cases "max (wall_ms (clk_last c)) now = wall_ms (clk_last c)")
  case True
  have "HlcTimestamp (wall_ms (clk_last c)) (logical (clk_last c)) n
      < HlcTimestamp (fst (bump_logical (wall_ms (clk_last c)) (logical (clk_last c))))
          (snd (bump_logical (wall_ms (clk_last c)) (logical (clk_last c)))) (clk_node_id c)"
    using assms by (intro bump_logical_greater) (auto simp: hlc_exhausted_def)
  with True show ?thesis by (simp add: hlc_send_def Let_def case_prod_beta)
next
  case False
  moreover from False have "wall_ms (clk_last c) < max (wall_ms (clk_last c)) now"
    by (simp add: less_max_iff_disj max_def split: if_splits)
  ultimately show ?thesis by (simp add: hlc_send_def Let_def less_hlc_timestamp_def)
qed

section \<open>Properties\<close>

text \<open>C7. Over any sequence of \<^verbatim>\<open>send\<close> and \<^verbatim>\<open>receive\<close> calls, accepted or rejected, the timestamps a clock
  issues are strictly increasing and lie after the clock's previous timestamp, and no peer moves
  the clock further than the allowed skew past the wall clock (plus one tick per call).\<close>

theorem hlc_issued_strictly_increasing:
  assumes "hlc_run c es = (c', ts)"
    and "\<forall>e \<in> set es. unat (call_now e) \<le> N"
    and "max (unat (wall_ms (clk_last c))) (N + unat (max_clock_skew_ms c)) + length es < 2 ^ 64 - 1"
  shows "sorted_wrt (<) (clk_last c # ts)
    \<and> (\<forall>t \<in> set ts. unat (wall_ms t)
          \<le> max (unat (wall_ms (clk_last c))) (N + unat (max_clock_skew_ms c)) + length es)
    \<and> clk_last c' = last (clk_last c # ts)"
  by (rule hlc_run_sorted [OF assms(1)]) (use assms(2,3) in force)+

theorem hlc_issued_strictly_increasing_witness:
  "let c = hlc_new ''AAAAAAAA'' 1000;
       es = [Send 1000, Receive 1001 (HlcTimestamp 4000 7 ''BBBBBBBB''), Send 1002,
             Receive 1003 (HlcTimestamp 99999 0 ''BBBBBBBB'')]
   in snd (hlc_run c es) = [HlcTimestamp 1000 1 ''AAAAAAAA'', HlcTimestamp 4000 8 ''AAAAAAAA'',
        HlcTimestamp 4000 9 ''AAAAAAAA''] \<and> sorted_wrt (<) (clk_last c # snd (hlc_run c es))"
proof -
  let ?c = "hlc_new ''AAAAAAAA'' 1000"
  let ?es = "[Send 1000, Receive 1001 (HlcTimestamp 4000 7 ''BBBBBBBB''), Send 1002,
             Receive 1003 (HlcTimestamp 99999 0 ''BBBBBBBB'')]"
  let ?ts = "[HlcTimestamp 1000 1 ''AAAAAAAA'', HlcTimestamp 4000 8 ''AAAAAAAA'',
        HlcTimestamp 4000 9 ''AAAAAAAA'']"
  have run: "hlc_run ?c ?es = (?c\<lparr>clk_last := HlcTimestamp 4000 9 ''AAAAAAAA''\<rparr>, ?ts)"
    by (simp add: hlc_new_def hlc_send_def hlc_receive_def DEFAULT_MAX_CLOCK_SKEW_MS_def
        bump_logical_def checked_add_u32_def max_def Let_def)
  have "sorted_wrt (<) (clk_last ?c # ?ts)"
    using hlc_issued_strictly_increasing [OF run, of 1003]
    by (simp add: hlc_new_def DEFAULT_MAX_CLOCK_SKEW_MS_def)
  with run show ?thesis by (simp add: Let_def)
qed

text \<open>\<^verbatim>\<open>receive\<close> rejects exactly the peer timestamps that are more than the allowed skew ahead of
  the wall clock. Otherwise the issued timestamp is after both the local and the observed one,
  and the clock ends at most one millisecond past the larger of its old wall and the wall clock
  plus the skew.\<close>

lemma hlc_receive_contract:
  assumes "wall_ms (clk_last c) \<noteq> - 1" and "wall_ms obs \<noteq> - 1" and "now \<noteq> - 1"
  shows "case hlc_receive c now obs of
      Inl e \<Rightarrow> e = ClockSkewExceeded (wall_ms obs) now (max_clock_skew_ms c)
        \<and> unat now + unat (max_clock_skew_ms c) < unat (wall_ms obs)
    | Inr (c', t) \<Rightarrow> unat (wall_ms obs) \<le> unat now + unat (max_clock_skew_ms c)
        \<and> clk_last c' = t \<and> node_id t = clk_node_id c \<and> clk_last c < t \<and> obs < t \<and> unat now \<le> unat (wall_ms t)
        \<and> unat (wall_ms t)
            \<le> max (unat (wall_ms (clk_last c))) (unat now + unat (max_clock_skew_ms c)) + 1"
proof (cases "hlc_receive c now obs")
  case (Inl e)
  then have gt: "now < wall_ms obs" "max_clock_skew_ms c < wall_ms obs - now"
    and e: "e = ClockSkewExceeded (wall_ms obs) now (max_clock_skew_ms c)"
    by (auto simp: hlc_receive_def Let_def split: if_splits prod.splits)
  from gt(1) have "unat (wall_ms obs - now) = unat (wall_ms obs) - unat now"
    by (simp add: unat_sub)
  with gt(2) have "unat now + unat (max_clock_skew_ms c) < unat (wall_ms obs)"
    by (simp add: word_less_nat_alt)
  with Inl e show ?thesis by simp
next
  case (Inr r)
  obtain c' t where r: "r = (c', t)" by force
  note ok = Inr [unfolded r]
  from hlc_receive_step [OF ok assms] hlc_receive_skew [OF ok]
  have "clk_last c < t" "obs < t" "unat now \<le> unat (wall_ms t)"
    "unat (wall_ms t) \<le> max (unat (wall_ms (clk_last c))) (unat now + unat (max_clock_skew_ms c)) + 1"
    "unat (wall_ms obs) \<le> unat now + unat (max_clock_skew_ms c)"
    by linarith+
  then show ?thesis using hlc_receive_frame [OF ok] ok by simp
qed

text \<open>A clock seeded from a persisted checkpoint issues only timestamps after that checkpoint,
  whatever the wall clock reads at restart or at the first \<^verbatim>\<open>send\<close>, and under whatever node id the
  checkpoint was written.\<close>

lemma hlc_restart_after_checkpoint:
  assumes "\<not> hlc_exhausted checkpoint"
  shows "checkpoint < snd (hlc_send (hlc_new_seeded node now_ms checkpoint) now_ms')"
proof (cases "wall_ms checkpoint \<ge> now_ms")
  case True
  let ?c = "hlc_new_seeded node now_ms checkpoint"
  from True have l: "clk_last ?c = HlcTimestamp (wall_ms checkpoint) (logical checkpoint) node"
    by (simp add: hlc_new_seeded_def)
  with assms have "\<not> hlc_exhausted (clk_last ?c)" by (simp add: hlc_exhausted_def)
  from hlc_send_greater_any_node [OF this, of "node_id checkpoint" now_ms'] l show ?thesis
    by simp
next
  case False
  let ?c = "hlc_new_seeded node now_ms checkpoint"
  from False have l: "clk_last ?c = HlcTimestamp now_ms 0 node" by (simp add: hlc_new_seeded_def)
  have "\<not> hlc_exhausted (clk_last ?c)" unfolding l by (simp add: hlc_exhausted_def)
  then have "clk_last ?c < snd (hlc_send ?c now_ms')" using hlc_send_greater_iff by blast
  moreover from False l have "checkpoint < clk_last ?c"
    by (simp add: less_hlc_timestamp_def not_le)
  ultimately show ?thesis by (rule less_trans [rotated])
qed

end
