(* ===== verification/Wildmat.thy ===== *)
theory Wildmat
  imports Prelude
begin

text \<open>
  Newsgroup patterns and filters (\<^verbatim>\<open>crates/core/src/wildmat.rs\<close>): the two-row dynamic programme
  for \<^verbatim>\<open>*\<close> and \<^verbatim>\<open>?\<close>, the pattern parser, and the ordered accept/reject filter. The matcher is
  proved equal to a declarative meaning of patterns.
\<close>

section \<open>The matcher\<close>

text \<open>The first row: a leading run of stars matches the empty text.\<close>

function wm_first_row :: "bytes \<Rightarrow> bool list \<Rightarrow> nat \<Rightarrow> bool list" where
  "wm_first_row pattern prev j =
     (if j \<le> length pattern
      then if pattern ! (j - 1) = CHR ''*''
           then wm_first_row pattern (prev[j := prev ! (j - 1)]) (j + 1)
           else prev
      else prev)"
  by pat_completeness auto
termination
  by (relation "measure (\<lambda>(pattern, prev, j). length pattern + 1 - j)") auto

declare wm_first_row.simps [simp del]

definition wm_cell :: "char \<Rightarrow> bytes \<Rightarrow> bool list \<Rightarrow> bool list \<Rightarrow> nat \<Rightarrow> bool" where
  "wm_cell t pattern prev cur j =
     (let pc = pattern ! (j - 1) in
      if pc = CHR ''*'' then cur ! (j - 1) \<or> prev ! j
      else if pc = CHR ''?'' then prev ! (j - 1)
      else prev ! (j - 1) \<and> t = pc)"

definition wm_row :: "char \<Rightarrow> bytes \<Rightarrow> bool list \<Rightarrow> bool list \<Rightarrow> bool list" where
  "wm_row t pattern prev cur =
     foldl (\<lambda>c j. c[j := wm_cell t pattern prev c j]) (cur[0 := False]) [1..<length pattern + 1]"

definition wildmat_match :: "bytes \<Rightarrow> bytes \<Rightarrow> bool" where
  "wildmat_match text pattern =
     (let n = length pattern;
          prev = wm_first_row pattern ((replicate (n + 1) False)[0 := True]) 1;
          cur = replicate (n + 1) False;
          (prev, cur) = foldl (\<lambda>(prev, cur) i. (wm_row (text ! (i - 1)) pattern prev cur, prev))
                           (prev, cur) [1..<length text + 1]
      in prev ! n)"

definition matches_wildmat :: "bytes \<Rightarrow> bytes \<Rightarrow> bool" where
  "matches_wildmat name pattern =
     (if pattern = ''*'' then True
      else if \<not> (CHR ''*'' \<in> set pattern \<or> CHR ''?'' \<in> set pattern)
           then eq_ignore_ascii_case name pattern
      else wildmat_match (to_ascii_lowercase name) (to_ascii_lowercase pattern))"

definition matches_wildmat_prefolded :: "bytes \<Rightarrow> bytes \<Rightarrow> bool" where
  "matches_wildmat_prefolded name pattern =
     (if CHR ''*'' \<notin> set pattern \<and> CHR ''?'' \<notin> set pattern
      then length name = length pattern \<and> list_all (\<lambda>(a, b). ascii_lower a = b) (zip name pattern)
      else wildmat_match (to_ascii_lowercase name) pattern)"

section \<open>Patterns and filters\<close>

datatype wildmat_error = EmptyFilter | AllNegation | EmptyPattern | InvalidCharacter bytes | ConsecutiveDots

record wildmat_pattern =
  is_negated :: bool
  bare_pattern :: bytes

definition is_pattern_char :: "bytes \<Rightarrow> bool" where
  "is_pattern_char ch =
     (case ch of
        [c] \<Rightarrow> (97 \<le> (of_char c :: nat) \<and> (of_char c :: nat) \<le> 122) \<or> is_ascii_digit c
               \<or> c \<in> {CHR ''+'', CHR ''-'', CHR ''_'', CHR ''.'', CHR ''*'', CHR ''?''}
      | _ \<Rightarrow> False)"

definition wildmat_parse :: "bytes \<Rightarrow> wildmat_error + wildmat_pattern" where
  "wildmat_parse s =
     (if s = [] then Inl EmptyPattern
      else
        (let (neg, bare) = (case strip_prefix ''!'' s of
                Some stripped \<Rightarrow> (True, to_ascii_lowercase stripped)
              | None \<Rightarrow> (False, to_ascii_lowercase s))
         in if bare = [] then Inl EmptyPattern
            else case find (\<lambda>ch. \<not> is_pattern_char ch) (str_chars bare) of
                   Some ch \<Rightarrow> Inl (InvalidCharacter ch)
                 | None \<Rightarrow> if str_contains_sub ''..'' bare then Inl ConsecutiveDots
                           else Inr \<lparr>is_negated = neg, bare_pattern = bare\<rparr>))"

record group_filter =
  gf_patterns :: "wildmat_pattern list"

definition group_filter_new :: "bytes list \<Rightarrow> wildmat_error + group_filter" where
  "group_filter_new raw_patterns =
     (case collect_results (map wildmat_parse raw_patterns) of
        Inl e \<Rightarrow> Inl e
      | Inr patterns \<Rightarrow>
          if patterns = [] then Inl EmptyFilter
          else if list_all is_negated patterns then Inl AllNegation
          else Inr \<lparr>gf_patterns = patterns\<rparr>)"

fun first_match :: "wildmat_pattern list \<Rightarrow> bytes \<Rightarrow> bool" where
  "first_match [] name = False"
| "first_match (p # ps) name =
     (if matches_wildmat_prefolded name (bare_pattern p) then \<not> is_negated p
      else first_match ps name)"

definition group_filter_accepts :: "group_filter \<Rightarrow> bytes \<Rightarrow> bool" where
  "group_filter_accepts f name = (if name = [] then False else first_match (gf_patterns f) name)"

type_synonym group_policy = "group_filter option"

section \<open>The meaning of a pattern\<close>

text \<open>
  A pattern matches a text when the text can be cut into one segment per pattern character:
  any segment for a star, one character for a question mark, the character itself otherwise.
\<close>

definition glob_atom :: "char \<Rightarrow> bytes \<Rightarrow> bool" where
  "glob_atom p u \<longleftrightarrow> p = CHR ''*'' \<or> (\<exists>c. u = [c] \<and> (p = CHR ''?'' \<or> p = c))"

definition glob :: "bytes \<Rightarrow> bytes \<Rightarrow> bool" where
  "glob pattern text \<longleftrightarrow> (\<exists>us. list_all2 glob_atom pattern us \<and> text = concat us)"

section \<open>Lemmas: the meaning\<close>

lemma glob_Nil [simp]: "glob [] t \<longleftrightarrow> t = []"
  by (simp add: glob_def)

lemma glob_snoc: "glob (ps @ [p]) t \<longleftrightarrow> (\<exists>u v. t = u @ v \<and> glob ps u \<and> glob_atom p v)"
proof
  assume "glob (ps @ [p]) t"
  then obtain us where us: "list_all2 glob_atom (ps @ [p]) us" "t = concat us"
    by (auto simp: glob_def)
  from us(1) obtain vs v where "us = vs @ [v]" "list_all2 glob_atom ps vs" "glob_atom p v"
    by (auto simp: list_all2_append1 list_all2_Cons1)
  with us(2) show "\<exists>u v. t = u @ v \<and> glob ps u \<and> glob_atom p v"
    by (auto simp: glob_def)
next
  assume "\<exists>u v. t = u @ v \<and> glob ps u \<and> glob_atom p v"
  then obtain us v where "t = concat us @ v" "list_all2 glob_atom ps us" "glob_atom p v"
    by (auto simp: glob_def)
  then show "glob (ps @ [p]) t"
    by (auto simp: glob_def intro!: exI [of _ "us @ [v]"] list_all2_appendI)
qed

lemma glob_star_Nil: "glob (ps @ ''*'') [] \<longleftrightarrow> glob ps []"
  by (simp add: glob_snoc glob_atom_def)

lemma glob_other_Nil: "p \<noteq> CHR ''*'' \<Longrightarrow> \<not> glob (ps @ [p]) []"
  by (simp add: glob_snoc glob_atom_def)

lemma glob_star_snoc:
  "glob (ps @ ''*'') (t @ [c]) \<longleftrightarrow> glob ps (t @ [c]) \<or> glob (ps @ ''*'') t"
proof -
  have "(\<exists>u v. t @ [c] = u @ v \<and> glob ps u)
      \<longleftrightarrow> glob ps (t @ [c]) \<or> (\<exists>u v. t = u @ v \<and> glob ps u)"
  proof
    assume "\<exists>u v. t @ [c] = u @ v \<and> glob ps u"
    then obtain u v where "t @ [c] = u @ v" "glob ps u" by blast
    then show "glob ps (t @ [c]) \<or> (\<exists>u v. t = u @ v \<and> glob ps u)"
      by (cases v rule: rev_cases) auto
  next
    assume "glob ps (t @ [c]) \<or> (\<exists>u v. t = u @ v \<and> glob ps u)"
    then show "\<exists>u v. t @ [c] = u @ v \<and> glob ps u"
      by (metis append.right_neutral append_assoc)
  qed
  then show ?thesis by (simp add: glob_snoc glob_atom_def)
qed

lemma glob_char_snoc:
  "p \<noteq> CHR ''*'' \<Longrightarrow> glob (ps @ [p]) (t @ [c]) \<longleftrightarrow> glob ps t \<and> (p = CHR ''?'' \<or> p = c)"
  by (auto simp: glob_snoc glob_atom_def)

lemma glob_literal:
  "CHR ''*'' \<notin> set ps \<Longrightarrow> CHR ''?'' \<notin> set ps \<Longrightarrow> glob ps t \<longleftrightarrow> t = ps"
proof (induction ps arbitrary: t rule: rev_induct)
  case (snoc p ps)
  then show ?case by (auto simp: glob_snoc glob_atom_def)
qed simp

lemma glob_single_star [simp]: "glob ''*'' t"
  using glob_snoc [of "[]" "CHR ''*''" t] by (simp add: glob_atom_def)

lemma glob_empty_text: "glob ps [] \<longleftrightarrow> set ps \<subseteq> {CHR ''*''}"
proof (induction ps rule: rev_induct)
  case (snoc p ps)
  then show ?case
    by (cases "p = CHR ''*''") (auto simp: glob_star_Nil glob_other_Nil)
qed simp

section \<open>Lemmas: the dynamic programme\<close>

definition row_ok :: "bytes \<Rightarrow> bytes \<Rightarrow> bool list \<Rightarrow> bool" where
  "row_ok pattern t row \<longleftrightarrow> length row = length pattern + 1
     \<and> (\<forall>j \<le> length pattern. row ! j = glob (take j pattern) t)"

lemma wm_first_row_ok:
  assumes "1 \<le> j" "j \<le> length pattern + 1" "length prev = length pattern + 1"
    and "\<forall>i < j. prev ! i = glob (take i pattern) []"
    and "\<forall>i. j \<le> i \<and> i \<le> length pattern \<longrightarrow> \<not> prev ! i"
  shows "row_ok pattern [] (wm_first_row pattern prev j)"
  using assms
proof (induction pattern prev j rule: wm_first_row.induct)
  case (1 pattern prev j)
  show ?case
  proof (cases "j \<le> length pattern")
    case False
    with "1.prems" show ?thesis by (subst wm_first_row.simps) (auto simp: row_ok_def)
  next
    case le: True
    then have tk: "take j pattern = take (j - 1) pattern @ [pattern ! (j - 1)]"
      using "1.prems"(1) take_Suc_conv_app_nth [of "j - 1" pattern] by simp
    show ?thesis
    proof (cases "pattern ! (j - 1) = CHR ''*''")
      case star: True
      let ?p = "prev[j := prev ! (j - 1)]"
      have jl: "j < length prev" using "1.prems"(3) le by simp
      have "row_ok pattern [] (wm_first_row pattern ?p (j + 1))"
      proof (rule "1.IH" [OF le star])
        show "\<forall>i < j + 1. ?p ! i = glob (take i pattern) []"
          using "1.prems"(1,4) jl tk star by (auto simp: nth_list_update less_Suc_eq glob_star_Nil)
        show "\<forall>i. j + 1 \<le> i \<and> i \<le> length pattern \<longrightarrow> \<not> ?p ! i"
          using "1.prems"(5) by (auto simp: nth_list_update)
      qed (use "1.prems"(3) le in auto)
      with le star show ?thesis by (subst wm_first_row.simps) simp
    next
      case False
      have "\<not> glob (take i pattern) []" if "j \<le> i" "i \<le> length pattern" for i
      proof -
        have "j - 1 < i" using that(1) "1.prems"(1) by simp
        then have "take i pattern ! (j - 1) \<in> set (take i pattern)"
          using that(2) by (intro nth_mem) simp
        with \<open>j - 1 < i\<close> have "pattern ! (j - 1) \<in> set (take i pattern)" by simp
        with False show ?thesis by (auto simp: glob_empty_text)
      qed
      then have "prev ! i = glob (take i pattern) []" if "i \<le> length pattern" for i
        using "1.prems"(4,5) that by (cases "i < j") (auto simp: not_less)
      with "1.prems"(3) le False show ?thesis
        by (subst wm_first_row.simps) (auto simp: row_ok_def)
    qed
  qed
qed

lemma wm_cell_ok:
  assumes "row_ok pattern t prev" "j < length pattern" "cur ! j = glob (take j pattern) (t @ [c])"
  shows "wm_cell c pattern prev cur (Suc j) = glob (take (Suc j) pattern) (t @ [c])"
  using assms
  by (auto simp: wm_cell_def Let_def row_ok_def take_Suc_conv_app_nth glob_star_snoc glob_char_snoc)

lemma wm_row_prefix:
  assumes "row_ok pattern t prev" "length cur = length pattern + 1" "k \<le> length pattern"
  shows "let r = foldl (\<lambda>q j. q[j := wm_cell c pattern prev q j]) (cur[0 := False]) [1..<k + 1]
    in length r = length pattern + 1 \<and> (\<forall>j \<le> k. r ! j = glob (take j pattern) (t @ [c]))"
  using assms(3)
proof (induction k)
  case 0
  then show ?case using assms(2) by simp
next
  case (Suc k)
  let ?r = "foldl (\<lambda>q j. q[j := wm_cell c pattern prev q j]) (cur[0 := False]) [1..<k + 1]"
  from Suc have r: "length ?r = length pattern + 1" "\<forall>j \<le> k. ?r ! j = glob (take j pattern) (t @ [c])"
    by (simp_all add: Let_def)
  have "wm_cell c pattern prev ?r (Suc k) = glob (take (Suc k) pattern) (t @ [c])"
    using Suc.prems r by (intro wm_cell_ok [OF assms(1)]) auto
  with Suc.prems r show ?case by (auto simp: Let_def nth_list_update le_Suc_eq)
qed

lemma wm_row_ok:
  assumes "row_ok pattern t prev" "length cur = length pattern + 1"
  shows "row_ok pattern (t @ [c]) (wm_row c pattern prev cur)"
  using wm_row_prefix [OF assms order_refl, of c] by (simp add: wm_row_def row_ok_def Let_def)

lemma wm_rows_ok:
  assumes "row_ok pattern [] prev" "length cur = length pattern + 1" "k \<le> length text"
  shows "let (p, q) = foldl (\<lambda>(prev, cur) i. (wm_row (text ! (i - 1)) pattern prev cur, prev))
      (prev, cur) [1..<k + 1]
    in row_ok pattern (take k text) p \<and> length q = length pattern + 1"
  using assms(3)
proof (induction k)
  case 0
  then show ?case using assms(1,2) by simp
next
  case (Suc k)
  obtain p q where pq: "foldl (\<lambda>(prev, cur) i. (wm_row (text ! (i - 1)) pattern prev cur, prev))
      (prev, cur) [1..<k + 1] = (p, q)" by force
  with Suc have "row_ok pattern (take k text) p" "length q = length pattern + 1" by simp_all
  then have "row_ok pattern (take (Suc k) text) (wm_row (text ! k) pattern p q)"
    using wm_row_ok [of pattern "take k text" p q "text ! k"] Suc.prems
    by (simp add: take_Suc_conv_app_nth)
  with pq \<open>row_ok pattern (take k text) p\<close> show ?case by (simp add: row_ok_def)
qed

lemma wildmat_match_glob: "wildmat_match text pattern = glob pattern text"
proof -
  let ?n = "length pattern"
  let ?f = "wm_first_row pattern ((replicate (?n + 1) False)[0 := True]) 1"
  have "row_ok pattern [] ?f"
    by (rule wm_first_row_ok) (auto simp: nth_list_update)
  then have rows: "let (p, q) = foldl (\<lambda>(prev, cur) i. (wm_row (text ! (i - 1)) pattern prev cur, prev))
      (?f, replicate (?n + 1) False) [1..<length text + 1]
    in row_ok pattern (take (length text) text) p \<and> length q = length pattern + 1"
    by (rule wm_rows_ok) simp_all
  obtain p q where pq: "foldl (\<lambda>(prev, cur) i. (wm_row (text ! (i - 1)) pattern prev cur, prev))
      (?f, replicate (?n + 1) False) [1..<length text + 1] = (p, q)" by force
  with rows have "row_ok pattern text p" by simp
  then have "p ! ?n = glob pattern text" by (simp add: row_ok_def)
  moreover have "wildmat_match text pattern = p ! ?n"
    unfolding wildmat_match_def Let_def pq by simp
  ultimately show ?thesis by simp
qed

lemma matches_wildmat_prefolded_glob:
  "matches_wildmat_prefolded name pattern = glob pattern (to_ascii_lowercase name)"
proof (cases "CHR ''*'' \<notin> set pattern \<and> CHR ''?'' \<notin> set pattern")
  case True
  have "length name = length pattern \<and> list_all (\<lambda>(a, b). ascii_lower a = b) (zip name pattern)
      \<longleftrightarrow> to_ascii_lowercase name = pattern"
    by (auto simp: to_ascii_lowercase_def list_all_length list_eq_iff_nth_eq)
  with True show ?thesis by (simp add: matches_wildmat_prefolded_def glob_literal)
next
  case False
  then show ?thesis by (auto simp: matches_wildmat_prefolded_def wildmat_match_glob)
qed

lemma wildcard_lower_iff:
  "CHR ''*'' \<in> set (to_ascii_lowercase p) \<longleftrightarrow> CHR ''*'' \<in> set p"
  "CHR ''?'' \<in> set (to_ascii_lowercase p) \<longleftrightarrow> CHR ''?'' \<in> set p"
  by (auto simp: to_ascii_lowercase_def ascii_lower_eq_iff image_iff eq_commute [of _ "ascii_lower _"])

lemma first_match_iff:
  "first_match ps name \<longleftrightarrow>
     (\<exists>pre p post. ps = pre @ p # post \<and> \<not> is_negated p \<and> glob (bare_pattern p) (to_ascii_lowercase name)
        \<and> (\<forall>q \<in> set pre. \<not> glob (bare_pattern q) (to_ascii_lowercase name)))"
  (is "_ \<longleftrightarrow> ?R ps")
proof (induction ps)
  case Nil
  then show ?case by simp
next
  case (Cons r rs)
  show ?case
  proof (cases "glob (bare_pattern r) (to_ascii_lowercase name)")
    case True
    then have "?R (r # rs) \<Longrightarrow> \<not> is_negated r"
      by (auto simp: Cons_eq_append_conv)
    moreover have "\<not> is_negated r \<Longrightarrow> ?R (r # rs)"
      by (rule exI [of _ "[]"], rule exI [of _ r]) (simp add: True)
    moreover have "first_match (r # rs) name \<longleftrightarrow> \<not> is_negated r"
      by (simp add: matches_wildmat_prefolded_glob True)
    ultimately show ?thesis by blast
  next
    case False
    have "?R rs \<Longrightarrow> ?R (r # rs)"
    proof -
      assume "?R rs"
      then obtain pre p post where "rs = pre @ p # post" "\<not> is_negated p"
        "glob (bare_pattern p) (to_ascii_lowercase name)"
        "\<forall>q \<in> set pre. \<not> glob (bare_pattern q) (to_ascii_lowercase name)" by blast
      with False show "?R (r # rs)"
        by (intro exI [of _ "r # pre"] exI [of _ p] exI [of _ post]) simp
    qed
    moreover have "?R (r # rs) \<Longrightarrow> ?R rs"
    proof -
      assume "?R (r # rs)"
      then obtain pre p post where R: "r # rs = pre @ p # post" "\<not> is_negated p"
        "glob (bare_pattern p) (to_ascii_lowercase name)"
        "\<forall>q \<in> set pre. \<not> glob (bare_pattern q) (to_ascii_lowercase name)" by blast
      with False obtain pre' where "pre = r # pre'" by (cases pre) auto
      with R show "?R rs" by (intro exI [of _ pre'] exI [of _ p] exI [of _ post]) simp
    qed
    moreover have "first_match (r # rs) name \<longleftrightarrow> first_match rs name"
      by (simp add: matches_wildmat_prefolded_glob False)
    ultimately show ?thesis using Cons.IH by blast
  qed
qed

lemma wildmat_parse_lower:
  "wildmat_parse s = Inr p \<Longrightarrow> to_ascii_lowercase (bare_pattern p) = bare_pattern p"
  by (auto simp: wildmat_parse_def Let_def split: if_splits option.splits prod.splits)

lemma matches_wildmat_glob:
  "matches_wildmat name pattern \<longleftrightarrow> glob (to_ascii_lowercase pattern) (to_ascii_lowercase name)"
proof (cases "pattern = ''*''")
  case True
  then show ?thesis by (simp add: matches_wildmat_def to_ascii_lowercase_def ascii_lower_def)
next
  case False
  then show ?thesis
    by (auto simp: matches_wildmat_def wildmat_match_glob eq_ignore_ascii_case_def glob_literal
        wildcard_lower_iff)
qed

lemmas wildmat_match_eval = wildmat_match_def wm_first_row.simps wm_row_def wm_cell_def upt_rec

section \<open>Properties\<close>


text \<open>A filter that \<^verbatim>\<open>GroupFilter::new\<close> accepts has at least one positive pattern; it accepts a name
  exactly when the name is not empty and the first of its patterns that matches the name is
  positive. Names that no pattern matches are denied.\<close>

lemma group_filter_first_match_wins:
  assumes "group_filter_new raws = Inr f"
  shows "(\<exists>p \<in> set (gf_patterns f). \<not> is_negated p) \<and> length (gf_patterns f) = length raws
    \<and> (group_filter_accepts f name \<longleftrightarrow> name \<noteq> [] \<and>
        (\<exists>pre p post. gf_patterns f = pre @ p # post \<and> \<not> is_negated p
           \<and> matches_wildmat name (bare_pattern p)
           \<and> (\<forall>q \<in> set pre. \<not> matches_wildmat name (bare_pattern q))))"
proof -
  from assms have rs: "map wildmat_parse raws = map Inr (gf_patterns f)"
    and pos: "\<not> list_all is_negated (gf_patterns f)"
    by (auto simp: group_filter_new_def collect_results_Inr_iff split: sum.splits if_splits)
  have low: "to_ascii_lowercase (bare_pattern p) = bare_pattern p" if p: "p \<in> set (gf_patterns f)" for p
  proof -
    from p have "Inr p \<in> set (map wildmat_parse raws)" by (simp add: rs)
    then obtain r where "wildmat_parse r = Inr p" by auto
    then show ?thesis by (rule wildmat_parse_lower)
  qed
  have m: "matches_wildmat name (bare_pattern p) \<longleftrightarrow> glob (bare_pattern p) (to_ascii_lowercase name)"
    if "p \<in> set (gf_patterns f)" for p
    using matches_wildmat_glob [of name "bare_pattern p"] low [OF that] by simp
  have "group_filter_accepts f name \<longleftrightarrow> name \<noteq> [] \<and>
        (\<exists>pre p post. gf_patterns f = pre @ p # post \<and> \<not> is_negated p
           \<and> glob (bare_pattern p) (to_ascii_lowercase name)
           \<and> (\<forall>q \<in> set pre. \<not> glob (bare_pattern q) (to_ascii_lowercase name)))"
    by (simp add: group_filter_accepts_def first_match_iff)
  also have "\<dots> \<longleftrightarrow> name \<noteq> [] \<and>
        (\<exists>pre p post. gf_patterns f = pre @ p # post \<and> \<not> is_negated p
           \<and> matches_wildmat name (bare_pattern p)
           \<and> (\<forall>q \<in> set pre. \<not> matches_wildmat name (bare_pattern q)))"
    by (metis (no_types, lifting) Un_iff insertI1 list.simps(15) m set_append)
  finally show ?thesis using pos rs map_eq_imp_length_eq [OF rs] by (auto simp: list_all_iff)
qed

text \<open>Because the first match wins, an exception has to come before the pattern it restricts. The
  order that the comment on \<^verbatim>\<open>GroupFilter::accepts\<close> recommends, \<^verbatim>\<open>["comp.*", "!comp.binaries"]\<close>, accepts
  \<^verbatim>\<open>comp.binaries\<close>; the reverse order rejects it.\<close>

lemma exception_after_pattern_has_no_effect:
  "(\<exists>f. group_filter_new [''comp.*'', ''!comp.binaries''] = Inr f
      \<and> group_filter_accepts f ''comp.binaries'')
   \<and> (\<exists>f. group_filter_new [''!comp.binaries'', ''comp.*''] = Inr f
      \<and> \<not> group_filter_accepts f ''comp.binaries'')"
proof -
  let ?c = "\<lparr>is_negated = False, bare_pattern = ''comp.*''\<rparr>"
  let ?b = "\<lparr>is_negated = True, bare_pattern = ''comp.binaries''\<rparr>"
  have n: "group_filter_new [''comp.*'', ''!comp.binaries''] = Inr \<lparr>gf_patterns = [?c, ?b]\<rparr>"
    "group_filter_new [''!comp.binaries'', ''comp.*''] = Inr \<lparr>gf_patterns = [?b, ?c]\<rparr>"
    by (simp_all add: group_filter_new_def wildmat_parse_def is_pattern_char_def ascii_eval)
  have "glob ''comp.*'' ''comp.binaries''"
    unfolding glob_def
    by (rule exI [of _ "[''c'', ''o'', ''m'', ''p'', ''.'', ''binaries'']"]) (simp add: glob_atom_def)
  then have "matches_wildmat_prefolded ''comp.binaries'' ''comp.*''"
    by (simp add: matches_wildmat_prefolded_glob ascii_eval)
  then have a: "group_filter_accepts \<lparr>gf_patterns = [?c, ?b]\<rparr> ''comp.binaries''"
    by (simp add: group_filter_accepts_def)
  have "matches_wildmat_prefolded ''comp.binaries'' ''comp.binaries''"
    by (simp add: matches_wildmat_prefolded_def ascii_eval)
  then have b: "\<not> group_filter_accepts \<lparr>gf_patterns = [?b, ?c]\<rparr> ''comp.binaries''"
    by (simp add: group_filter_accepts_def)
  show ?thesis
    by (intro conjI exI [of _ "\<lparr>gf_patterns = [?c, ?b]\<rparr>"] exI [of _ "\<lparr>gf_patterns = [?b, ?c]\<rparr>"])
      (rule n a b)+
qed

end
