(* ===== verification/RustStr.thy ===== *)
theory RustStr
  imports Prelude
begin

text \<open>
  The parts of Rust's string library that the modelled code calls, on byte strings: splitting
  and joining, trimming, UTF-8 validation with the replacement of malformed sequences, and
  slicing at character boundaries.
\<close>

section \<open>Splitting and joining\<close>

text \<open>\<^verbatim>\<open>s.split(c)\<close>: never empty, and a separator at an end yields an empty piece.\<close>

fun split_on :: "char \<Rightarrow> bytes \<Rightarrow> bytes list" where
  "split_on c [] = [[]]"
| "split_on c (x # xs) =
     (if x = c then [] # split_on c xs
      else case split_on c xs of [] \<Rightarrow> [[x]] | p # ps \<Rightarrow> (x # p) # ps)"

fun join :: "bytes \<Rightarrow> bytes list \<Rightarrow> bytes" where
  "join sep [] = []"
| "join sep [p] = p"
| "join sep (p # q # qs) = p @ sep @ join sep (q # qs)"

fun split_once :: "char \<Rightarrow> bytes \<Rightarrow> (bytes \<times> bytes) option" where
  "split_once c [] = None"
| "split_once c (x # xs) =
     (if x = c then Some ([], xs) else map_option (\<lambda>(a, b). (x # a, b)) (split_once c xs))"

section \<open>Trimming\<close>

definition is_ascii_whitespace :: "char \<Rightarrow> bool" where
  "is_ascii_whitespace c = ((of_char c :: nat) \<in> {9, 10, 12, 13, 32})"

definition trim_ascii_start :: "bytes \<Rightarrow> bytes" where
  "trim_ascii_start = dropWhile is_ascii_whitespace"

definition trim_ascii_end :: "bytes \<Rightarrow> bytes" where
  "trim_ascii_end s = rev (dropWhile is_ascii_whitespace (rev s))"

definition trim_ascii :: "bytes \<Rightarrow> bytes" where
  "trim_ascii s = trim_ascii_end (trim_ascii_start s)"

text \<open>
  \<^verbatim>\<open>str::trim\<close> strips the characters with the Unicode property White_Space; here are their UTF-8
  encodings.
\<close>

definition byte :: "nat \<Rightarrow> char" where
  "byte n = char_of n"

definition white_space :: "bytes list" where
  "white_space = map (map byte)
     ([[9], [10], [11], [12], [13], [32], [194, 133], [194, 160], [225, 154, 128]]
      @ map (\<lambda>n. [226, 128, n]) [128, 129, 130, 131, 132, 133, 134, 135, 136, 137, 138, 168, 169, 175]
      @ [[226, 129, 159], [227, 128, 128]])"

fun strip_any :: "bytes list \<Rightarrow> bytes \<Rightarrow> bytes option" where
  "strip_any [] s = None"
| "strip_any (w # ws) s = (case strip_prefix w s of Some r \<Rightarrow> Some r | None \<Rightarrow> strip_any ws s)"

function trim_start_of :: "bytes list \<Rightarrow> bytes \<Rightarrow> bytes" where
  "trim_start_of ws s =
     (case strip_any ws s of
        Some r \<Rightarrow> if length r < length s then trim_start_of ws r else s
      | None \<Rightarrow> s)"
  by pat_completeness auto
termination
  by (relation "measure (\<lambda>(ws, s). length s)") auto

declare trim_start_of.simps [simp del]

definition str_trim_start :: "bytes \<Rightarrow> bytes" where
  "str_trim_start s = trim_start_of white_space s"

definition str_trim_end :: "bytes \<Rightarrow> bytes" where
  "str_trim_end s = rev (trim_start_of (map rev white_space) (rev s))"

definition str_trim :: "bytes \<Rightarrow> bytes" where
  "str_trim s = str_trim_end (str_trim_start s)"

section \<open>UTF-8\<close>

definition between :: "nat \<Rightarrow> nat \<Rightarrow> char \<Rightarrow> bool" where
  "between lo hi c = (lo \<le> (of_char c :: nat) \<and> (of_char c :: nat) \<le> hi)"

abbreviation continuation :: "char \<Rightarrow> bool" where
  "continuation \<equiv> between 128 191"

text \<open>The second bytes that may follow a lead byte of a three- or four-byte sequence.\<close>

definition second_ok :: "char \<Rightarrow> char \<Rightarrow> bool" where
  "second_ok lead c =
     (let n = of_char lead :: nat in
      if n = 224 then between 160 191 c
      else if n = 237 then between 128 159 c
      else if n = 240 then between 144 191 c
      else if n = 244 then between 128 143 c
      else continuation c)"

definition nth_ok :: "(char \<Rightarrow> bool) \<Rightarrow> nat \<Rightarrow> bytes \<Rightarrow> bool" where
  "nth_ok P i s = (i < length s \<and> P (s ! i))"

text \<open>
  One decoding step at a lead byte: whether a character is encoded there, and how many bytes
  the character, or the malformed prefix that is replaced as a unit, takes.
\<close>

definition utf8_next :: "char \<Rightarrow> bytes \<Rightarrow> bool \<times> nat" where
  "utf8_next c rest =
     (if between 0 127 c then (True, 1)
      else if between 194 223 c then
        (if nth_ok continuation 0 rest then (True, 2) else (False, 1))
      else if between 224 239 c then
        (if \<not> nth_ok (second_ok c) 0 rest then (False, 1)
         else if \<not> nth_ok continuation 1 rest then (False, 2)
         else (True, 3))
      else if between 240 244 c then
        (if \<not> nth_ok (second_ok c) 0 rest then (False, 1)
         else if \<not> nth_ok continuation 1 rest then (False, 2)
         else if \<not> nth_ok continuation 2 rest then (False, 3)
         else (True, 4))
      else (False, 1))"

lemma utf8_next_pos: "0 < snd (utf8_next c rest)"
  by (simp add: utf8_next_def)

function valid_utf8 :: "bytes \<Rightarrow> bool" where
  "valid_utf8 [] = True"
| "valid_utf8 (c # cs) =
     (let (v, n) = utf8_next c cs in v \<and> valid_utf8 (drop (n - 1) cs))"
  by pat_completeness auto
termination
  by (relation "measure length") auto

definition replacement_char :: bytes where
  "replacement_char = [byte 239, byte 191, byte 189]"

function from_utf8_lossy :: "bytes \<Rightarrow> bytes" where
  "from_utf8_lossy [] = []"
| "from_utf8_lossy (c # cs) =
     (let (v, n) = utf8_next c cs
      in (if v then take n (c # cs) else replacement_char) @ from_utf8_lossy (drop (n - 1) cs))"
  by pat_completeness auto
termination
  by (relation "measure length") auto

text \<open>\<^verbatim>\<open>&s[..i]\<close> on a string panics when \<^verbatim>\<open>i\<close> is past the end or inside a character.\<close>

definition is_char_boundary :: "bytes \<Rightarrow> nat \<Rightarrow> bool" where
  "is_char_boundary s i =
     (i = 0 \<or> i = length s \<or> (i < length s \<and> \<not> continuation (s ! i)))"

section \<open>Formatting\<close>

text \<open>\<^verbatim>\<open>format!("{n}")\<close> of an unsigned integer.\<close>

fun show_nat :: "nat \<Rightarrow> bytes" where
  "show_nat n = (if n < 10 then [byte (48 + n)] else show_nat (n div 10) @ [byte (48 + n mod 10)])"

declare show_nat.simps [simp del]

section \<open>Lemmas: splitting\<close>

lemma split_on_nonempty [simp]: "split_on c s \<noteq> []"
  by (induction s) (auto split: list.split)

lemma join_Cons: "join sep (p # ps) = (if ps = [] then p else p @ sep @ join sep ps)"
  by (cases ps) auto

lemma join_split_on: "join [c] (split_on c s) = s"
proof (induction s)
  case (Cons x xs)
  then show ?case
    by (cases "split_on c xs") (auto simp: join_Cons split: if_splits)
qed simp

lemma split_on_pieces: "p \<in> set (split_on c s) \<Longrightarrow> c \<notin> set p"
proof (induction s arbitrary: p)
  case (Cons x xs)
  then show ?case by (cases "split_on c xs") (auto split: if_splits)
qed simp

lemma set_split_on: "p \<in> set (split_on c s) \<Longrightarrow> set p \<subseteq> set s"
proof (induction s arbitrary: p)
  case (Cons x xs)
  then show ?case by (cases "split_on c xs") (fastforce split: if_splits)+
qed simp

lemma split_on_cover: "x \<in> set s \<Longrightarrow> x \<noteq> c \<Longrightarrow> \<exists>p \<in> set (split_on c s). x \<in> set p"
proof (induction s)
  case (Cons y ys)
  then show ?case by (cases "split_on c ys") auto
qed simp

lemma split_on_no_sep: "c \<notin> set s \<Longrightarrow> split_on c s = [s]"
  by (induction s) auto

lemma split_on_append: "c \<notin> set a \<Longrightarrow> split_on c (a @ c # b) = a # split_on c b"
  by (induction a) auto

lemma split_on_join:
  "ps \<noteq> [] \<Longrightarrow> \<forall>p \<in> set ps. c \<notin> set p \<Longrightarrow> split_on c (join [c] ps) = ps"
proof (induction ps)
  case (Cons p ps)
  then show ?case by (cases ps) (auto simp: split_on_no_sep split_on_append)
qed simp

lemma split_once_Some_iff:
  "split_once c s = Some (a, b) \<longleftrightarrow> s = a @ c # b \<and> c \<notin> set a"
proof (induction s arbitrary: a)
  case (Cons x xs)
  show ?case
  proof (cases a)
    case Nil
    then show ?thesis by (auto split: prod.splits)
  next
    case (Cons y ys)
    then show ?thesis using Cons.IH [of ys] by (auto split: prod.splits)
  qed
qed simp

lemma split_once_None_iff: "split_once c s = None \<longleftrightarrow> c \<notin> set s"
  by (induction s) auto

section \<open>Lemmas: UTF-8\<close>

lemma valid_utf8_lossy: "valid_utf8 s \<Longrightarrow> from_utf8_lossy s = s"
proof (induction s rule: valid_utf8.induct)
  case (2 c cs)
  obtain v n where u: "utf8_next c cs = (v, n)" by force
  then have n: "0 < n" using utf8_next_pos [of c cs] by simp
  from "2.prems" u have "v" "valid_utf8 (drop (n - 1) cs)" by simp_all
  with "2.IH" [OF u [symmetric] refl] have "from_utf8_lossy (drop (n - 1) cs) = drop (n - 1) cs"
    by simp
  with u n \<open>v\<close> show ?case by (cases n) simp_all
qed simp

lemma is_ascii_Nil [simp]: "is_ascii []"
  by (simp add: is_ascii_def)

lemma is_ascii_Cons [simp]: "is_ascii (c # s) \<longleftrightarrow> of_char c < (128 :: nat) \<and> is_ascii s"
  by (simp add: is_ascii_def)

lemma is_ascii_append [simp]: "is_ascii (s @ t) \<longleftrightarrow> is_ascii s \<and> is_ascii t"
  by (auto simp: is_ascii_def)

lemma is_ascii_subset: "is_ascii s \<Longrightarrow> set t \<subseteq> set s \<Longrightarrow> is_ascii t"
  by (auto simp: is_ascii_def)

lemma nth_ok_append: "nth_ok P i s \<Longrightarrow> nth_ok P i (s @ t)"
  by (simp add: nth_ok_def nth_append)

lemma nth_ok_length: "nth_ok P i s \<Longrightarrow> Suc i \<le> length s"
  by (simp add: nth_ok_def)

lemma utf8_next_append:
  assumes "utf8_next c cs = (True, n)"
  shows "utf8_next c (cs @ t) = (True, n)" "n - 1 \<le> length cs"
proof -
  show "utf8_next c (cs @ t) = (True, n)"
    using assms by (simp add: utf8_next_def nth_ok_append split: if_split_asm)
  show "n - 1 \<le> length cs"
    using assms unfolding utf8_next_def
    by (simp split: if_split_asm) (drule nth_ok_length, linarith)+
qed

lemma valid_utf8_append: "valid_utf8 s \<Longrightarrow> valid_utf8 t \<Longrightarrow> valid_utf8 (s @ t)"
proof (induction s rule: valid_utf8.induct)
  case (2 c cs)
  obtain v n where u: "utf8_next c cs = (v, n)" by fastforce
  with "2.prems"(1) have v: "utf8_next c cs = (True, n)" "valid_utf8 (drop (n - 1) cs)" by simp_all
  have "valid_utf8 (drop (n - 1) cs @ t)"
    using "2.IH" [OF v(1) [symmetric] refl _ "2.prems"(2)] v by auto
  with utf8_next_append(1) [OF v(1), of t] utf8_next_append(2) [OF v(1)] show ?case by simp
qed simp

lemma ascii_valid_utf8: "is_ascii s \<Longrightarrow> valid_utf8 s"
  by (induction s) (auto simp: utf8_next_def between_def)

lemma ascii_char_boundary:
  assumes "is_ascii s" "i \<le> length s"
  shows "is_char_boundary s i"
proof (cases "i < length s")
  case True
  then have "s ! i \<in> set s" by simp
  with assms(1) have "of_char (s ! i) < (128 :: nat)" by (simp add: is_ascii_def)
  with True show ?thesis by (simp add: is_char_boundary_def between_def)
next
  case False
  with assms(2) show ?thesis by (simp add: is_char_boundary_def)
qed

lemma byte_eq_iff: "n < 256 \<Longrightarrow> byte n = c \<longleftrightarrow> n = of_char c"
  by (auto simp: byte_def of_char_char_of_small)

lemma eq_byte_iff: "n < 256 \<Longrightarrow> c = byte n \<longleftrightarrow> of_char c = n"
  using byte_eq_iff [of n c] by auto

lemma of_char_byte: "n < 256 \<Longrightarrow> of_char (byte n) = n"
  by (simp add: byte_def of_char_char_of_small)

lemmas byte_eval = byte_eq_iff eq_byte_iff of_char_byte

end
