(* ===== verification/Article.thy ===== *)
theory Article
  imports RustStr Wildmat
begin

text \<open>
  Articles, group names and ingress validation (\<^verbatim>\<open>crates/core/src/article.rs\<close>,
  \<^verbatim>\<open>crates/core/src/validation.rs\<close>, and the error types of \<^verbatim>\<open>crates/core/src/error.rs\<close>).
\<close>

section \<open>Errors\<close>

datatype validation_error =
    InvalidGroupName bytes
  | InvalidMessageId bytes
  | MissingMandatoryHeader bytes
  | HeaderFieldTooLong bytes nat nat
  | VArticleTooBig nat nat
  | DateOutOfRange bytes
  | InvalidGroupInNewsgroups bytes
  | EmptyNewsgroups
  | TooManyNewsgroups nat nat
  | InvalidHeaderValue bytes bytes

datatype protocol_error =
    UnknownCommand bytes
  | InvalidSyntax bytes
  | NoGroupSelected
  | NoSuchGroup bytes
  | NoSuchArticle
  | NotAuthenticated
  | DuplicateMessageId bytes
  | PostingNotPermitted
  | TransferNotPossible bytes
  | ArticleTooBig nat nat
  | ValidationFailed validation_error
  | ServiceUnavailable bytes

fun response_code :: "protocol_error \<Rightarrow> nat" where
  "response_code (UnknownCommand _) = 500"
| "response_code (InvalidSyntax _) = 501"
| "response_code NoGroupSelected = 412"
| "response_code (NoSuchGroup _) = 411"
| "response_code NoSuchArticle = 430"
| "response_code NotAuthenticated = 480"
| "response_code (DuplicateMessageId _) = 435"
| "response_code PostingNotPermitted = 440"
| "response_code (TransferNotPossible _) = 436"
| "response_code (ArticleTooBig _ _) = 441"
| "response_code (ValidationFailed _) = 441"
| "response_code (ServiceUnavailable _) = 400"

section \<open>Group names\<close>

type_synonym group_name = bytes

definition is_group_char :: "char \<Rightarrow> bool" where
  "is_group_char c = (is_ascii_alphanumeric c \<or> c = CHR ''-'' \<or> c = CHR ''+'' \<or> c = CHR ''_'')"

fun is_group_component :: "bytes \<Rightarrow> bool" where
  "is_group_component [] = False"
| "is_group_component (c # cs) = (is_ascii_alphabetic c \<and> list_all is_group_char cs)"

definition is_valid_group_name :: "bytes \<Rightarrow> bool" where
  "is_valid_group_name name = (name \<noteq> [] \<and> list_all is_group_component (split_on CHR ''.'' name))"

definition group_name_new :: "bytes \<Rightarrow> validation_error + group_name" where
  "group_name_new name = (if is_valid_group_name name then Inr name else Inl (InvalidGroupName name))"

section \<open>Articles\<close>

record article_header =
  hdr_from :: bytes
  hdr_date :: bytes
  hdr_message_id :: bytes
  hdr_newsgroups :: "group_name list"
  hdr_subject :: bytes
  hdr_path :: bytes
  extra_headers :: "(bytes \<times> bytes) list"

record article =
  art_header :: article_header
  art_body :: bytes

text \<open>What the type \<^verbatim>\<open>GroupName\<close> guarantees of every article.\<close>

definition article_wf :: "article \<Rightarrow> bool" where
  "article_wf a = list_all is_valid_group_name (hdr_newsgroups (art_header a))"

section \<open>Message-IDs\<close>

definition msgid_forbidden :: "char \<Rightarrow> bool" where
  "msgid_forbidden c = ((of_char c :: nat) \<le> 32 \<or> c = CHR ''<'' \<or> c = CHR ''>'' \<or> (of_char c :: nat) = 127)"

definition is_valid_message_id :: "bytes \<Rightarrow> bool" where
  "is_valid_message_id mid =
     (case Option.bind (strip_prefix ''<'' mid) (strip_suffix ''>'') of
        None \<Rightarrow> False
      | Some inner \<Rightarrow>
          if count_list inner CHR ''@'' \<noteq> 1 then False
          else case split_once CHR ''@'' inner of
                 None \<Rightarrow> False
               | Some (loc, dmn) \<Rightarrow>
                   if loc = [] \<or> dmn = [] then False
                   else \<not> (list_ex msgid_forbidden loc \<or> list_ex msgid_forbidden dmn))"

definition MAX_MSGID_BYTES :: nat where
  "MAX_MSGID_BYTES = 998"

definition validate_message_id :: "bytes \<Rightarrow> validation_error + unit" where
  "validate_message_id mid =
     (if length mid > MAX_MSGID_BYTES then Inl (InvalidMessageId mid)
      else if \<not> is_valid_message_id mid then Inl (InvalidMessageId mid)
      else Inr ())"

section \<open>Ingress validation\<close>

definition MAX_NEWSGROUPS :: nat where
  "MAX_NEWSGROUPS = 100"

definition MAX_HEADER_VALUE :: nat where
  "MAX_HEADER_VALUE = 998"

definition MAX_HEADER_NAME :: nat where
  "MAX_HEADER_NAME = 76"

record validation_config =
  max_article_bytes :: nat
  allowed_groups :: group_policy

definition validation_config_default :: validation_config where
  "validation_config_default = \<lparr>max_article_bytes = 1024 * 1024, allowed_groups = None\<rparr>"

definition NUL :: char where "NUL = byte 0"
definition CR :: char where "CR = byte 13"
definition LF :: char where "LF = byte 10"

definition has_ctl :: "bytes \<Rightarrow> bool" where
  "has_ctl v = (NUL \<in> set v \<or> CR \<in> set v \<or> LF \<in> set v)"

definition section_2_2 :: bytes where
  "section_2_2 = ''(RFC 5322 '' @ [byte 194, byte 167] @ ''2.2)''"

definition check_mandatory :: "bytes \<times> bytes \<Rightarrow> validation_error + unit" where
  "check_mandatory = (\<lambda>(name, value).
     if value = [] then Inl (MissingMandatoryHeader name)
     else if length value > MAX_HEADER_VALUE
       then Inl (HeaderFieldTooLong name (length value) MAX_HEADER_VALUE)
     else if has_ctl value
       then Inl (InvalidHeaderValue name (''NUL byte or bare CR/LF forbidden in header values '' @ section_2_2))
     else Inr ())"

definition check_extra :: "bytes \<times> bytes \<Rightarrow> validation_error + unit" where
  "check_extra = (\<lambda>(name, value).
     if name = [] then Inl (InvalidHeaderValue ''(empty)''
         (''header field name must not be empty '' @ section_2_2))
     else if length name > MAX_HEADER_NAME
       then Inl (HeaderFieldTooLong name (length name) MAX_HEADER_NAME)
     else if has_ctl name \<or> CHR '':'' \<in> set name
       then Inl (InvalidHeaderValue name (''header field name contains NUL, CR, LF, or colon '' @ section_2_2))
     else if length value > MAX_HEADER_VALUE
       then Inl (HeaderFieldTooLong name (length value) MAX_HEADER_VALUE)
     else if has_ctl value
       then Inl (InvalidHeaderValue name (''NUL byte or bare CR/LF forbidden in header values '' @ section_2_2))
     else Inr ())"

definition mandatory_fields :: "article_header \<Rightarrow> (bytes \<times> bytes) list" where
  "mandatory_fields h =
     [(''From'', hdr_from h), (''Date'', hdr_date h), (''Message-ID'', hdr_message_id h),
      (''Subject'', hdr_subject h), (''Path'', hdr_path h)]"

definition check_newsgroups :: "group_name list \<Rightarrow> group_policy \<Rightarrow> validation_error + unit" where
  "check_newsgroups groups policy =
     (if groups = [] then Inl EmptyNewsgroups
      else if length groups > MAX_NEWSGROUPS then Inl (TooManyNewsgroups (length groups) MAX_NEWSGROUPS)
      else case policy of
             None \<Rightarrow> Inr ()
           | Some flt \<Rightarrow>
               if list_ex (group_filter_accepts flt) groups then Inr ()
               else Inl (InvalidGroupInNewsgroups
                      ''none of the article's groups match the configured filter''))"

definition validate_article_ingress :: "article \<Rightarrow> validation_config \<Rightarrow> protocol_error + unit" where
  "validate_article_ingress article config =
     (let h = art_header article;
          lift = (\<lambda>r. case r of Inl e \<Rightarrow> Inl (ValidationFailed e) | Inr u \<Rightarrow> Inr u)
      in and_then (lift (try_each check_mandatory (mandatory_fields h))) (\<lambda>_.
         and_then (case validate_message_id (hdr_message_id h) of
                     Inl _ \<Rightarrow> Inl (ValidationFailed (InvalidMessageId (hdr_message_id h)))
                   | Inr u \<Rightarrow> Inr u) (\<lambda>_.
         and_then (lift (check_newsgroups (hdr_newsgroups h) (allowed_groups config))) (\<lambda>_.
         and_then (lift (try_each check_extra (extra_headers h))) (\<lambda>_.
         if length (art_body article) > max_article_bytes config
         then Inl (ValidationFailed (VArticleTooBig (length (art_body article)) (max_article_bytes config)))
         else Inr ())))))"

text \<open>\<^verbatim>\<open>MsgIdStorage\<close> has one operation; the storage is that operation.\<close>

definition check_duplicate :: "bytes \<Rightarrow> (bytes \<Rightarrow> bool) \<Rightarrow> protocol_error + unit" where
  "check_duplicate message_id contains =
     (if contains message_id then Inl (DuplicateMessageId message_id) else Inr ())"

section \<open>What valid means\<close>

definition good_value :: "bytes \<Rightarrow> bool" where
  "good_value v \<longleftrightarrow> length v \<le> 998 \<and> \<not> has_ctl v"

definition good_name :: "bytes \<Rightarrow> bool" where
  "good_name n \<longleftrightarrow> n \<noteq> [] \<and> length n \<le> 76 \<and> \<not> has_ctl n \<and> CHR '':'' \<notin> set n"

definition good_message_id :: "bytes \<Rightarrow> bool" where
  "good_message_id mid \<longleftrightarrow> length mid \<le> 998 \<and>
     (\<exists>loc dmn. mid = ''<'' @ loc @ ''@'' @ dmn @ ''>'' \<and> loc \<noteq> [] \<and> dmn \<noteq> []
        \<and> (\<forall>c \<in> set loc \<union> set dmn. \<not> msgid_forbidden c \<and> c \<noteq> CHR ''@''))"

definition good_header :: "article_header \<Rightarrow> bool" where
  "good_header h \<longleftrightarrow>
     (\<forall>v \<in> {hdr_from h, hdr_date h, hdr_subject h, hdr_path h}. v \<noteq> [] \<and> good_value v)
     \<and> good_message_id (hdr_message_id h)
     \<and> (\<forall>(n, v) \<in> set (extra_headers h). good_name n \<and> good_value v)"

definition good_article :: "article \<Rightarrow> validation_config \<Rightarrow> bool" where
  "good_article a config \<longleftrightarrow>
     good_header (art_header a)
     \<and> 1 \<le> length (hdr_newsgroups (art_header a)) \<and> length (hdr_newsgroups (art_header a)) \<le> 100
     \<and> (\<forall>f. allowed_groups config = Some f \<longrightarrow>
           (\<exists>g \<in> set (hdr_newsgroups (art_header a)). group_filter_accepts f g))
     \<and> length (art_body a) \<le> max_article_bytes config"

section \<open>Lemmas\<close>

lemmas validation_limits = MAX_NEWSGROUPS_def MAX_HEADER_VALUE_def MAX_HEADER_NAME_def MAX_MSGID_BYTES_def

lemma check_mandatory_iff: "check_mandatory (n, v) = Inr () \<longleftrightarrow> v \<noteq> [] \<and> good_value v"
  by (auto simp: check_mandatory_def good_value_def validation_limits)

lemma check_extra_iff: "check_extra (n, v) = Inr () \<longleftrightarrow> good_name n \<and> good_value v"
  by (auto simp: check_extra_def good_name_def good_value_def validation_limits)

lemma check_newsgroups_iff:
  "check_newsgroups gs policy = Inr () \<longleftrightarrow> 1 \<le> length gs \<and> length gs \<le> 100
     \<and> (\<forall>f. policy = Some f \<longrightarrow> (\<exists>g \<in> set gs. group_filter_accepts f g))"
  by (cases gs) (auto simp: check_newsgroups_def validation_limits list_ex_iff split: option.splits)

lemma validate_message_id_iff: "validate_message_id mid = Inr () \<longleftrightarrow> good_message_id mid"
proof -
  have "is_valid_message_id mid \<longleftrightarrow>
      (\<exists>loc dmn. mid = ''<'' @ loc @ ''@'' @ dmn @ ''>'' \<and> loc \<noteq> [] \<and> dmn \<noteq> []
        \<and> (\<forall>c \<in> set loc \<union> set dmn. \<not> msgid_forbidden c \<and> c \<noteq> CHR ''@''))" (is "?L \<longleftrightarrow> ?R")
  proof
    assume ?L
    then obtain inner loc dmn where i: "Option.bind (strip_prefix ''<'' mid) (strip_suffix ''>'') = Some inner"
      and c: "count_list inner CHR ''@'' = 1" and s: "split_once CHR ''@'' inner = Some (loc, dmn)"
      and n: "loc \<noteq> []" "dmn \<noteq> []" "\<not> list_ex msgid_forbidden loc" "\<not> list_ex msgid_forbidden dmn"
      by (auto simp: is_valid_message_id_def split: option.splits if_splits)
    from i have "mid = ''<'' @ inner @ ''>''"
      by (auto simp: bind_eq_Some_conv strip_prefix_Some_iff strip_suffix_Some_iff)
    moreover from s have inner: "inner = loc @ CHR ''@'' # dmn" "CHR ''@'' \<notin> set loc"
      by (simp_all add: split_once_Some_iff)
    moreover from inner c have "CHR ''@'' \<notin> set dmn" by (simp add: count_list_0_iff)
    ultimately show ?R using n by (intro exI [of _ loc] exI [of _ dmn]) (auto simp: list_ex_iff)
  next
    assume ?R
    then obtain loc dmn where mid: "mid = ''<'' @ loc @ ''@'' @ dmn @ ''>''" "loc \<noteq> []" "dmn \<noteq> []"
      and ok: "\<forall>c \<in> set loc \<union> set dmn. \<not> msgid_forbidden c \<and> c \<noteq> CHR ''@''" by blast
    have "strip_prefix ''<'' mid = Some (loc @ ''@'' @ dmn @ ''>'')"
      by (simp add: mid(1) strip_prefix_Some_iff)
    moreover have "strip_suffix ''>'' (loc @ ''@'' @ dmn @ ''>'') = Some (loc @ ''@'' @ dmn)"
      by (simp add: strip_suffix_Some_iff)
    moreover have "split_once CHR ''@'' (loc @ ''@'' @ dmn) = Some (loc, dmn)"
      using ok by (auto simp: split_once_Some_iff)
    moreover have "count_list (loc @ ''@'' @ dmn) CHR ''@'' = 1"
      using ok by (auto simp: count_list_0_iff)
    ultimately show ?L using mid(2,3) ok by (auto simp: is_valid_message_id_def list_ex_iff)
  qed
  then show ?thesis by (auto simp: validate_message_id_def good_message_id_def validation_limits)
qed

lemma group_char_plain:
  assumes "is_valid_group_name g" "c \<in> set g"
  shows "is_group_char c \<or> c = CHR ''.''"
proof (rule disjCI)
  assume "c \<noteq> CHR ''.''"
  with assms(2) obtain piece where "piece \<in> set (split_on CHR ''.'' g)" "c \<in> set piece"
    using split_on_cover by blast
  with assms(1) have "is_group_component piece" "c \<in> set piece"
    by (auto simp: is_valid_group_name_def list_all_iff)
  then show "is_group_char c"
    by (cases piece) (auto simp: list_all_iff is_group_char_def is_ascii_alphanumeric_def)
qed

lemma valid_group_name_plain:
  assumes "is_valid_group_name g"
  shows "CHR '','' \<notin> set g" "NUL \<notin> set g" "CR \<notin> set g" "LF \<notin> set g"
proof -
  have "of_char c \<notin> {0, 10, 13, 44 :: nat}" if "c \<in> set g" for c
    using group_char_plain [OF assms that] by (auto simp: is_group_char_def ascii_eval)
  from this [of "CHR '',''"] this [of NUL] this [of CR] this [of LF]
  show "CHR '','' \<notin> set g" "NUL \<notin> set g" "CR \<notin> set g" "LF \<notin> set g"
    by (auto simp: NUL_def CR_def LF_def byte_def of_char_char_of_small ascii_eval)
qed

lemma good_message_id_plain:
  assumes "good_message_id mid"
  shows "mid \<noteq> [] \<and> good_value mid"
proof -
  obtain loc dmn where mid: "mid = ''<'' @ loc @ ''@'' @ dmn @ ''>''" and len: "length mid \<le> 998"
    and ok: "\<forall>c \<in> set loc \<union> set dmn. \<not> msgid_forbidden c"
    using assms by (auto simp: good_message_id_def)
  have "\<not> msgid_forbidden c \<Longrightarrow> c \<noteq> NUL \<and> c \<noteq> CR \<and> c \<noteq> LF" for c
    by (auto simp: msgid_forbidden_def NUL_def CR_def LF_def byte_def)
  with ok have "\<forall>c \<in> set loc \<union> set dmn. c \<noteq> NUL \<and> c \<noteq> CR \<and> c \<noteq> LF" by blast
  then have "\<not> has_ctl mid"
    by (auto simp: mid has_ctl_def NUL_def CR_def LF_def byte_def char_of_def ascii_eval)
  with mid len show ?thesis by (simp add: good_value_def)
qed

lemma mandatory_iff:
  "try_each check_mandatory (mandatory_fields h) = Inr () \<longleftrightarrow>
     (\<forall>v \<in> {hdr_from h, hdr_date h, hdr_message_id h, hdr_subject h, hdr_path h}. v \<noteq> [] \<and> good_value v)"
  by (simp only: try_each_Inr_iff) (auto simp: mandatory_fields_def check_mandatory_iff)

lemma extra_iff:
  "try_each check_extra es = Inr () \<longleftrightarrow> (\<forall>(n, v) \<in> set es. good_name n \<and> good_value v)"
  by (auto simp: try_each_Inr_iff check_extra_iff)

lemma case_lift_eq_Inr:
  "(case r of Inl e \<Rightarrow> Inl (f e) | Inr u \<Rightarrow> Inr u) = Inr x \<longleftrightarrow> r = Inr x"
  by (cases r) auto

lemma ex_unit: "(\<exists>u :: unit. P u) \<longleftrightarrow> P ()"
  by (metis old.unit.exhaust)

lemma if_Inl_eq_Inr: "(if c then Inl e else r) = Inr x \<longleftrightarrow> \<not> c \<and> r = Inr x"
  by simp

lemma validate_ok_iff: "validate_article_ingress a config = Inr () \<longleftrightarrow> good_article a config"
proof -
  let ?h = "art_header a"
  have "validate_article_ingress a config = Inr () \<longleftrightarrow>
      try_each check_mandatory (mandatory_fields ?h) = Inr ()
      \<and> validate_message_id (hdr_message_id ?h) = Inr ()
      \<and> check_newsgroups (hdr_newsgroups ?h) (allowed_groups config) = Inr ()
      \<and> try_each check_extra (extra_headers ?h) = Inr ()
      \<and> length (art_body a) \<le> max_article_bytes config"
    by (simp only: validate_article_ingress_def Let_def and_then_eq_Inr case_lift_eq_Inr ex_unit
        if_Inl_eq_Inr not_less simp_thms)
  also have "\<dots> \<longleftrightarrow> good_article a config"
    using good_message_id_plain [of "hdr_message_id ?h"]
    by (simp only: mandatory_iff validate_message_id_iff check_newsgroups_iff extra_iff
        good_article_def good_header_def ball_simps simp_thms) blast
  finally show ?thesis .
qed

lemma validate_error_code:
  "validate_article_ingress a config = Inl e \<Longrightarrow> response_code e = 441"
  by (simp only: validate_article_ingress_def Let_def and_then_def)
    (simp split: sum.splits if_splits, auto)

lemma validated_article:
  assumes "validate_article_ingress a config = Inr ()"
  shows "good_header (art_header a)" "hdr_newsgroups (art_header a) \<noteq> []"
  using assms by (auto simp: validate_ok_iff good_article_def)

section \<open>Properties\<close>


text \<open>
  The Message-ID check accepts exactly the strings \<^verbatim>\<open><local@domain>\<close> of at most 998 bytes
  whose two parts are non-empty and hold no at-sign, angle bracket, space, control character
  or DEL; every other string is reported back in the error.
\<close>

lemma validate_message_id_spec:
  "validate_message_id mid = (if good_message_id mid then Inr () else Inl (InvalidMessageId mid))"
  using validate_message_id_iff [of mid]
  by (auto simp: validate_message_id_def split: if_splits)

end
