(* ===== verification/Canonical.thy ===== *)
theory Canonical
  imports Article "HOL-Library.Product_Lexorder" "HOL-Library.Multiset"
begin

text \<open>
  Canonical serialisation (\<^verbatim>\<open>crates/core/src/canonical.rs\<close>): the byte strings that are hashed
  and signed. What the code takes from the \<^verbatim>\<open>cid\<close>, \<^verbatim>\<open>multihash-codetable\<close>,
  \<^verbatim>\<open>hex\<close> and \<^verbatim>\<open>ed25519-dalek\<close> crates is a record of functions, an argument of the definitions; the laws
  the code relies on are predicates on that record.
\<close>

section \<open>The hashing and signing crates\<close>

record 'cid lib =
  cid_to_bytes :: "'cid \<Rightarrow> bytes"
  cid_digest :: "'cid \<Rightarrow> bytes"
  cid_codec :: "'cid \<Rightarrow> u64"
  cid_to_string :: "'cid \<Rightarrow> bytes"
  cid_try_from :: "bytes \<Rightarrow> bytes + 'cid"
  cid_new_v1 :: "u64 \<Rightarrow> u64 \<Rightarrow> bytes \<Rightarrow> 'cid"
  sha256 :: "bytes \<Rightarrow> bytes"
  hex_encode :: "bytes \<Rightarrow> bytes"
  ed25519_verify :: "bytes \<Rightarrow> bytes \<Rightarrow> bytes \<Rightarrow> bool"

text \<open>A CID's binary form is self-delimiting: version, codec, hash code and length come first.\<close>

definition cid_self_delimiting :: "'cid lib \<Rightarrow> bool" where
  "cid_self_delimiting L \<longleftrightarrow> (\<forall>c. cid_to_bytes L c \<noteq> []) \<and>
     (\<forall>c d r s. cid_to_bytes L c @ r = cid_to_bytes L d @ s \<longrightarrow> c = d)"

definition sha256_32 :: "'cid lib \<Rightarrow> bool" where
  "sha256_32 L \<longleftrightarrow> (\<forall>x. length (sha256 L x) = 32)"

definition cid_parses :: "'cid lib \<Rightarrow> bool" where
  "cid_parses L \<longleftrightarrow> (\<forall>c. cid_try_from L (cid_to_bytes L c) = Inr c)"

definition cid_wraps_digest :: "'cid lib \<Rightarrow> bool" where
  "cid_wraps_digest L \<longleftrightarrow> (\<forall>codec code d. length d = 32 \<longrightarrow> cid_digest L (cid_new_v1 L codec code d) = d)"

section \<open>Integers as big-endian bytes\<close>

definition to_be_bytes :: "u64 \<Rightarrow> bytes" where
  "to_be_bytes w = map (\<lambda>k. byte (unat w div 256 ^ k mod 256)) [7, 6, 5, 4, 3, 2, 1, 0]"

section \<open>Serialisation\<close>

definition push_header :: "bytes \<Rightarrow> bytes \<Rightarrow> bytes \<Rightarrow> bytes" where
  "push_header out name value = out @ name @ '': '' @ value @ [CR, LF]"

definition canonical_bytes :: "article \<Rightarrow> bytes" where
  "canonical_bytes article =
     (let h = art_header article;
          out = push_header [] ''From'' (hdr_from h);
          out = push_header out ''Date'' (hdr_date h);
          out = push_header out ''Message-ID'' (hdr_message_id h);
          groups = sort (hdr_newsgroups h);
          out = push_header out ''Newsgroups'' (join '','' groups);
          out = push_header out ''Subject'' (hdr_subject h);
          out = push_header out ''Path'' (hdr_path h);
          extra = sort (extra_headers h);
          out = foldl (\<lambda>out (k, v). push_header out k v) out extra;
          out = out @ [NUL, LF]
      in out @ art_body article)"

definition log_entry_canonical_bytes :: "'cid lib \<Rightarrow> u64 \<Rightarrow> 'cid \<Rightarrow> 'cid list \<Rightarrow> bytes" where
  "log_entry_canonical_bytes L hlc_timestamp article_cid parent_cids =
     to_be_bytes hlc_timestamp @ cid_to_bytes L article_cid
     @ concat (sort (map (cid_to_bytes L) parent_cids))"

definition entry_id_bytes :: "'cid lib \<Rightarrow> u64 \<Rightarrow> 'cid \<Rightarrow> bytes \<Rightarrow> 'cid list \<Rightarrow> bytes" where
  "entry_id_bytes L hlc_timestamp article_cid operator_signature parent_cids =
     to_be_bytes hlc_timestamp @ cid_to_bytes L article_cid @ operator_signature
     @ concat (sort (map (cid_to_bytes L) parent_cids))"

section \<open>Lemmas\<close>

lemma length_to_be_bytes [simp]: "length (to_be_bytes w) = 8"
  by (simp add: to_be_bytes_def)

lemma be_digits:
  fixes n :: nat
  assumes "n < 256 ^ 8"
  shows "n = foldl (\<lambda>a d. a * 256 + d) 0 (map (\<lambda>k. n div 256 ^ k mod 256) [7, 6, 5, 4, 3, 2, 1, 0])"
proof -
  have step: "(n div 256 ^ Suc k) * 256 + n div 256 ^ k mod 256 = n div 256 ^ k" for k
    by (metis div_mult2_eq div_mult_mod_eq power_Suc2)
  have top: "n div 256 ^ 7 mod 256 = n div 256 ^ 7"
    using assms by (simp add: less_mult_imp_div_less)
  have eqs: "(n div 256 ^ 7) * 256 + n div 256 ^ 6 mod 256 = n div 256 ^ 6"
    "(n div 256 ^ 6) * 256 + n div 256 ^ 5 mod 256 = n div 256 ^ 5"
    "(n div 256 ^ 5) * 256 + n div 256 ^ 4 mod 256 = n div 256 ^ 4"
    "(n div 256 ^ 4) * 256 + n div 256 ^ 3 mod 256 = n div 256 ^ 3"
    "(n div 256 ^ 3) * 256 + n div 256 ^ 2 mod 256 = n div 256 ^ 2"
    "(n div 256 ^ 2) * 256 + n div 256 ^ 1 mod 256 = n div 256 ^ 1"
    using step [of 6] step [of 5] step [of 4] step [of 3] step [of 2] step [of 1]
    by (simp_all only: numeral_nat One_nat_def)
  have low: "(n div 256 ^ 1) * 256 + n mod 256 = n" by simp
  show ?thesis
    by (simp only: list.map foldl.simps top eqs low mult_0 add_0 power_0 div_by_1)
qed

lemma to_be_bytes_inj: "to_be_bytes v = to_be_bytes w \<longleftrightarrow> v = w"
proof
  assume "to_be_bytes v = to_be_bytes w"
  then have "map of_char (to_be_bytes v) = (map of_char (to_be_bytes w) :: nat list)" by simp
  then have digits: "map (\<lambda>k. unat v div 256 ^ k mod 256) [7, 6, 5, 4, 3, 2, 1, 0]
      = map (\<lambda>k. unat w div 256 ^ k mod 256) [7, 6, 5, 4, 3, 2, 1, 0]"
    by (simp add: to_be_bytes_def byte_def of_char_char_of_small)
  have "unat v < 256 ^ 8" "unat w < 256 ^ 8"
    using unsigned_less [of v] unsigned_less [of w] by simp_all
  then have "unat v = unat w"
    using digits be_digits [of "unat v"] be_digits [of "unat w"] by metis
  then show "v = w" by (rule unsigned_word_eqI)
qed simp

lemma split_at_first:
  "c \<notin> set a \<Longrightarrow> c \<notin> set b \<Longrightarrow> a @ c # r = b @ c # s \<longleftrightarrow> a = b \<and> r = s"
proof (induction a arbitrary: b)
  case Nil
  then show ?case by (cases b) auto
next
  case (Cons x xs)
  then show ?case by (cases b) auto
qed

lemma good_value_CR: "good_value v \<Longrightarrow> CR \<notin> set v"
  by (simp add: good_value_def has_ctl_def)

definition header_line :: "bytes \<times> bytes \<Rightarrow> bytes" where
  "header_line nv = fst nv @ '': '' @ snd nv @ [CR, LF]"

lemma push_header_line: "push_header out n v = out @ header_line (n, v)"
  by (simp add: push_header_def header_line_def)

lemma foldl_push_header:
  "foldl (\<lambda>out (k, v). push_header out k v) out es = out @ concat (map header_line es)"
  by (induction es arbitrary: out) (auto simp: push_header_line)

lemma header_line_value_cancel:
  assumes "CR \<notin> set v" "CR \<notin> set w"
  shows "header_line (n, v) @ r = header_line (n, w) @ s \<longleftrightarrow> v = w \<and> r = s"
  using split_at_first [OF assms, of "LF # r" "LF # s"] by (simp add: header_line_def)

lemma header_line_cancel:
  assumes "good_name n" "good_name m" "CR \<notin> set v" "CR \<notin> set w"
  shows "header_line (n, v) @ r = header_line (m, w) @ s \<longleftrightarrow> n = m \<and> v = w \<and> r = s"
proof -
  have c: "CHR '':'' \<notin> set n" "CHR '':'' \<notin> set m" using assms(1,2) by (simp_all add: good_name_def)
  show ?thesis
    using split_at_first [OF c, of "CHR '' '' # v @ CR # LF # r" "CHR '' '' # w @ CR # LF # s"]
      split_at_first [OF assms(3,4), of "LF # r" "LF # s"]
    by (auto simp: header_line_def)
qed

lemma extra_block_inj:
  assumes "\<forall>(n, v) \<in> set es. good_name n \<and> good_value v" "\<forall>(n, v) \<in> set fs. good_name n \<and> good_value v"
    "concat (map header_line es) @ NUL # r = concat (map header_line fs) @ NUL # s"
  shows "es = fs \<and> r = s"
  using assms
proof (induction es arbitrary: fs)
  case Nil
  show ?case
  proof (cases fs)
    case (Cons f fs')
    obtain n v where f: "f = (n, v)" by fastforce
    from Nil.prems(2) Cons f have "n \<noteq> []" "NUL \<notin> set n" by (auto simp: good_name_def has_ctl_def)
    with Nil.prems(3) Cons f show ?thesis by (cases n) (auto simp: header_line_def)
  qed (use Nil in simp)
next
  case (Cons e es')
  obtain m w where e: "e = (m, w)" by fastforce
  with Cons.prems(1) have m: "good_name m" "good_value w" by auto
  show ?case
  proof (cases fs)
    case Nil
    from m have "m \<noteq> []" "NUL \<notin> set m" by (auto simp: good_name_def has_ctl_def)
    with Cons.prems(3) Nil e show ?thesis by (cases m) (auto simp: header_line_def)
  next
    case (Cons f fs')
    obtain n v where f: "f = (n, v)" by fastforce
    with Cons.prems(2) Cons have n: "good_name n" "good_value v" by auto
    from Cons.prems(3) have "header_line (m, w) @ concat (map header_line es') @ NUL # r
        = header_line (n, v) @ concat (map header_line fs') @ NUL # s" by (simp add: e f Cons)
    with m n have "m = n \<and> w = v \<and> concat (map header_line es') @ NUL # r = concat (map header_line fs') @ NUL # s"
      by (simp add: header_line_cancel good_value_CR)
    with Cons.IH [of fs'] Cons.prems(1,2) show ?thesis by (simp add: e f Cons)
  qed
qed

lemma canonical_bytes_lines:
  "canonical_bytes a = (let h = art_header a in
     header_line (''From'', hdr_from h) @ header_line (''Date'', hdr_date h)
     @ header_line (''Message-ID'', hdr_message_id h)
     @ header_line (''Newsgroups'', join '','' (sort (hdr_newsgroups h)))
     @ header_line (''Subject'', hdr_subject h) @ header_line (''Path'', hdr_path h)
     @ concat (map header_line (sort (extra_headers h))) @ NUL # LF # art_body a)"
  unfolding canonical_bytes_def Let_def foldl_push_header by (simp add: push_header_line)

lemma sorted_newsgroups_inj:
  assumes "list_all is_valid_group_name gs" "list_all is_valid_group_name hs" "gs \<noteq> []" "hs \<noteq> []"
  shows "join '','' (sort gs) = join '','' (sort hs) \<longleftrightarrow> mset gs = mset hs"
proof
  assume eq: "join '','' (sort gs) = join '','' (sort hs)"
  have split: "split_on CHR '','' (join '','' (sort xs)) = sort xs"
    if "list_all is_valid_group_name xs" "xs \<noteq> []" for xs
  proof (rule split_on_join)
    from that(2) show "sort xs \<noteq> []" by (metis mset_sort mset_zero_iff)
    from that(1) show "\<forall>g \<in> set (sort xs). CHR '','' \<notin> set g"
      by (simp add: list_all_iff valid_group_name_plain(1))
  qed
  from eq split [OF assms(1,3)] split [OF assms(2,4)] have "sort gs = sort hs" by metis
  then show "mset gs = mset hs" by (metis mset_sort)
next
  assume "mset gs = mset hs"
  then have "sort gs = sort hs" by (simp add: properties_for_sort)
  then show "join '','' (sort gs) = join '','' (sort hs)" by simp
qed

lemma CR_not_in_join:
  assumes "list_all is_valid_group_name gs"
  shows "CR \<notin> set (join '','' gs)"
proof -
  have "CR \<noteq> CHR '',''" by (simp add: CR_def byte_def char_of_def)
  with assms show ?thesis
    by (induction gs) (auto simp: join_Cons valid_group_name_plain)
qed

definition same_article :: "article \<Rightarrow> article \<Rightarrow> bool" where
  "same_article a b \<longleftrightarrow> (let h = art_header a; k = art_header b in
     hdr_from h = hdr_from k \<and> hdr_date h = hdr_date k \<and> hdr_message_id h = hdr_message_id k
     \<and> hdr_subject h = hdr_subject k \<and> hdr_path h = hdr_path k
     \<and> mset (hdr_newsgroups h) = mset (hdr_newsgroups k)
     \<and> mset (extra_headers h) = mset (extra_headers k)
     \<and> art_body a = art_body b)"

lemma good_header_values:
  assumes "good_header h"
  shows "CR \<notin> set (hdr_from h)" "CR \<notin> set (hdr_date h)" "CR \<notin> set (hdr_message_id h)"
    "CR \<notin> set (hdr_subject h)" "CR \<notin> set (hdr_path h)"
  using assms good_message_id_plain [of "hdr_message_id h"]
  by (simp_all add: good_header_def good_value_CR)

lemma extra_block_iff:
  assumes "\<forall>(n, v) \<in> set es. good_name n \<and> good_value v" "\<forall>(n, v) \<in> set fs. good_name n \<and> good_value v"
  shows "concat (map header_line (sort es)) @ NUL # r = concat (map header_line (sort fs)) @ NUL # s
    \<longleftrightarrow> mset es = mset fs \<and> r = s"
proof
  assume "concat (map header_line (sort es)) @ NUL # r = concat (map header_line (sort fs)) @ NUL # s"
  with assms have "sort es = sort fs \<and> r = s" by (intro extra_block_inj) auto
  then show "mset es = mset fs \<and> r = s" by (metis mset_sort)
next
  assume eq: "mset es = mset fs \<and> r = s"
  then have "sort es = sort fs" by (simp add: properties_for_sort)
  with eq show "concat (map header_line (sort es)) @ NUL # r = concat (map header_line (sort fs)) @ NUL # s"
    by simp
qed

lemma canonical_bytes_eq_iff:
  assumes "good_header (art_header a)" "good_header (art_header b)" "article_wf a" "article_wf b"
    "hdr_newsgroups (art_header a) \<noteq> []" "hdr_newsgroups (art_header b) \<noteq> []"
  shows "canonical_bytes a = canonical_bytes b \<longleftrightarrow> same_article a b"
proof -
  have wf: "list_all is_valid_group_name (hdr_newsgroups (art_header a))"
    "list_all is_valid_group_name (hdr_newsgroups (art_header b))"
    using assms(3,4) by (simp_all add: article_wf_def)
  have CRs: "CR \<notin> set (join '','' (sort (hdr_newsgroups (art_header a))))"
    "CR \<notin> set (join '','' (sort (hdr_newsgroups (art_header b))))"
    using wf by (auto intro!: CR_not_in_join simp: list_all_iff)
  have extra: "\<forall>(n, v) \<in> set (extra_headers (art_header a)). good_name n \<and> good_value v"
    "\<forall>(n, v) \<in> set (extra_headers (art_header b)). good_name n \<and> good_value v"
    using assms(1,2) by (auto simp: good_header_def)
  show ?thesis
    using sorted_newsgroups_inj [OF wf assms(5,6)] extra_block_iff [OF extra]
    by (simp add: canonical_bytes_lines same_article_def Let_def header_line_value_cancel CRs
        good_header_values [OF assms(1)] good_header_values [OF assms(2)]) blast
qed

lemma self_delimiting_cancel:
  assumes "cid_self_delimiting L"
  shows "cid_to_bytes L c @ r = cid_to_bytes L d @ s \<longleftrightarrow> c = d \<and> r = s"
  using assms unfolding cid_self_delimiting_def by (metis same_append_eq)

lemma concat_cids_inj:
  assumes "cid_self_delimiting L"
  shows "concat (map (cid_to_bytes L) cs) = concat (map (cid_to_bytes L) ds) \<Longrightarrow> cs = ds"
proof (induction cs arbitrary: ds)
  case Nil
  then show ?case using assms by (cases ds) (auto simp: cid_self_delimiting_def)
next
  case (Cons c cs)
  show ?case
  proof (cases ds)
    case Nil
    with Cons.prems assms show ?thesis by (auto simp: cid_self_delimiting_def)
  next
    case (Cons d ds')
    with Cons.prems have "cid_to_bytes L c @ concat (map (cid_to_bytes L) cs)
        = cid_to_bytes L d @ concat (map (cid_to_bytes L) ds')" by simp
    then have "c = d" "concat (map (cid_to_bytes L) cs) = concat (map (cid_to_bytes L) ds')"
      by (simp_all add: self_delimiting_cancel [OF assms])
    with Cons.IH Cons show ?thesis by blast
  qed
qed

lemma sorted_parents_range: "\<exists>ds. sort (map f cs) = map f ds \<and> mset ds = mset cs"
proof -
  have "mset (sort (map f cs)) = image_mset f (mset cs)" by simp
  moreover have "\<exists>ds. xs = map f ds \<and> mset ds = M" if "mset xs = image_mset f M" for xs M
    using that
  proof (induction xs arbitrary: M)
    case (Cons x xs)
    then have "x \<in># image_mset f M" by (metis list.set_intros(1) set_mset_mset)
    then obtain y where y: "y \<in># M" "x = f y" by auto
    with Cons.prems have "mset xs = image_mset f (M - {#y#})"
      by (metis add_mset_remove_trivial image_mset_add_mset insert_DiffM mset.simps(2))
    with Cons.IH obtain ds where "xs = map f ds" "mset ds = M - {#y#}" by blast
    with y show ?case by (intro exI [of _ "y # ds"]) simp
  qed simp
  ultimately show ?thesis by blast
qed

lemma sorted_parents_inj:
  assumes "cid_self_delimiting L"
  shows "concat (sort (map (cid_to_bytes L) ps)) = concat (sort (map (cid_to_bytes L) qs))
    \<longleftrightarrow> mset ps = mset qs"
proof
  assume eq: "concat (sort (map (cid_to_bytes L) ps)) = concat (sort (map (cid_to_bytes L) qs))"
  obtain ps' qs' where "sort (map (cid_to_bytes L) ps) = map (cid_to_bytes L) ps'" "mset ps' = mset ps"
    "sort (map (cid_to_bytes L) qs) = map (cid_to_bytes L) qs'" "mset qs' = mset qs"
    using sorted_parents_range by metis
  with eq concat_cids_inj [OF assms] show "mset ps = mset qs" by metis
next
  assume "mset ps = mset qs"
  then have "mset (map (cid_to_bytes L) ps) = mset (map (cid_to_bytes L) qs)" by simp
  then have "sort (map (cid_to_bytes L) ps) = sort (map (cid_to_bytes L) qs)"
    by (metis mset_sort properties_for_sort sorted_sort)
  then show "concat (sort (map (cid_to_bytes L) ps)) = concat (sort (map (cid_to_bytes L) qs))" by simp
qed

lemma signed_bytes_eq_iff:
  assumes "cid_self_delimiting L"
  shows "log_entry_canonical_bytes L t a ps = log_entry_canonical_bytes L u b qs
    \<longleftrightarrow> t = u \<and> a = b \<and> mset ps = mset qs"
  using sorted_parents_inj [OF assms, of ps qs]
  by (simp add: log_entry_canonical_bytes_def to_be_bytes_inj self_delimiting_cancel [OF assms])

lemma entry_id_bytes_eq_iff:
  assumes "cid_self_delimiting L" "length s = length z"
  shows "entry_id_bytes L t a s ps = entry_id_bytes L u b z qs
    \<longleftrightarrow> t = u \<and> a = b \<and> s = z \<and> mset ps = mset qs"
  using sorted_parents_inj [OF assms(1), of ps qs] assms(2)
  by (simp add: entry_id_bytes_def to_be_bytes_inj self_delimiting_cancel [OF assms(1)])

section \<open>A concrete instance of the crates' functions\<close>

text \<open>
  CIDs are their digests, written with a marker before each byte and an end marker. It meets the
  laws above, so the theorems that assume them are not vacuous.
\<close>

fun demo_cid_parse :: "bytes \<Rightarrow> bytes + bytes" where
  "demo_cid_parse (m # c # r) = (case demo_cid_parse r of Inl e \<Rightarrow> Inl e | Inr d \<Rightarrow> Inr (c # d))"
| "demo_cid_parse [m] = Inr []"
| "demo_cid_parse [] = Inl ''empty''"

definition demo_lib :: "bytes lib" where
  "demo_lib = \<lparr>
     cid_to_bytes = (\<lambda>d. concat (map (\<lambda>c. [byte 1, c]) d) @ [byte 0]),
     cid_digest = (\<lambda>d. d),
     cid_codec = (\<lambda>_. 0x71),
     cid_to_string = (\<lambda>d. d),
     cid_try_from = demo_cid_parse,
     cid_new_v1 = (\<lambda>_ _ d. d),
     sha256 = (\<lambda>x. take 32 (x @ replicate 32 (byte 0))),
     hex_encode = (\<lambda>x. x),
     ed25519_verify = (\<lambda>key msg sig. sig = take 64 (key @ msg @ replicate 64 (byte 0)))\<rparr>"

lemma demo_self_delimiting: "cid_self_delimiting demo_lib"
proof -
  have ne: "byte 0 \<noteq> byte 1" by (simp add: byte_eval)
  have enc: "concat (map (\<lambda>c. [byte 1, c]) c) @ byte 0 # r = concat (map (\<lambda>c. [byte 1, c]) d) @ byte 0 # s
      \<Longrightarrow> c = d" for c d r s
  proof (induction c arbitrary: d)
    case Nil
    then show ?case using ne by (cases d) auto
  next
    case (Cons x xs)
    then show ?case using ne by (cases d) auto
  qed
  have "c = d" if "cid_to_bytes demo_lib c @ r = cid_to_bytes demo_lib d @ s" for c d r s
    by (rule enc [of c r d s]) (use that in \<open>simp add: demo_lib_def\<close>)
  moreover have "cid_to_bytes demo_lib c \<noteq> []" for c by (simp add: demo_lib_def)
  ultimately show ?thesis unfolding cid_self_delimiting_def by blast
qed

lemma demo_sha256_32: "sha256_32 demo_lib"
  by (auto simp: sha256_32_def demo_lib_def min_def)

lemma demo_cid_parses: "cid_parses demo_lib"
proof -
  have "demo_cid_parse (concat (map (\<lambda>c. [byte 1, c]) d) @ [byte 0]) = Inr d" for d
    by (induction d) auto
  then show ?thesis by (simp add: cid_parses_def demo_lib_def)
qed

lemma demo_wraps_digest: "cid_wraps_digest demo_lib"
  by (simp add: cid_wraps_digest_def demo_lib_def)

definition demo_article :: "group_name list \<Rightarrow> (bytes \<times> bytes) list \<Rightarrow> bytes \<Rightarrow> article" where
  "demo_article gs es body =
     \<lparr>art_header = \<lparr>hdr_from = ''a@b'', hdr_date = ''now'', hdr_message_id = ''<1@x>'', hdr_newsgroups = gs,
        hdr_subject = ''s'', hdr_path = ''p'', extra_headers = es\<rparr>, art_body = body\<rparr>"

lemma demo_message_id: "good_message_id ''<1@x>''"
  unfolding good_message_id_def
  by (intro conjI exI [of _ "''1''"] exI [of _ "''x''"]) (simp_all add: msgid_forbidden_def)

lemma demo_article_validates:
  assumes "gs = [''a'', ''b''] \<or> gs = [''b'', ''a'']" "es = [(''X'', ''1''), (''Y'', ''2'')] \<or> es = [(''Y'', ''2''), (''X'', ''1'')]"
    "length body \<le> 10"
  shows "validate_article_ingress (demo_article gs es body) validation_config_default = Inr ()"
    "article_wf (demo_article gs es body)"
  using assms
  by (auto simp: validate_ok_iff good_article_def good_header_def demo_article_def demo_message_id
      validation_config_default_def good_value_def good_name_def has_ctl_def NUL_def CR_def LF_def
      byte_eval article_wf_def is_valid_group_name_def ascii_eval)

section \<open>Properties\<close>

text \<open>
  C3. Canonical serialisation is injective on validated articles up to order: two articles that
  passed ingress validation have the same canonical bytes exactly when they agree on every
  mandatory header and the body, and have the same groups and the same extra headers as
  multisets. No header can be crafted so that one article serialises as another, and the order
  in which groups and extra headers were inserted does not matter.
\<close>

theorem canonical_bytes_injective:
  assumes "validate_article_ingress a ca = Inr ()" "validate_article_ingress b cb = Inr ()"
    "article_wf a" "article_wf b"
  shows "canonical_bytes a = canonical_bytes b \<longleftrightarrow> same_article a b"
  using validated_article [OF assms(1)] validated_article [OF assms(2)] assms(3,4)
  by (intro canonical_bytes_eq_iff)

theorem canonical_bytes_injective_witness:
  "canonical_bytes (demo_article [''a'', ''b''] [(''X'', ''1''), (''Y'', ''2'')] ''m'')
     = canonical_bytes (demo_article [''b'', ''a''] [(''Y'', ''2''), (''X'', ''1'')] ''m'')
   \<and> canonical_bytes (demo_article [''a'', ''b''] [(''X'', ''1''), (''Y'', ''2'')] ''m'')
     \<noteq> canonical_bytes (demo_article [''a'', ''b''] [(''X'', ''1''), (''Y'', ''2'')] ''n'')"
proof -
  note ok = demo_article_validates
  have "canonical_bytes (demo_article [''a'', ''b''] [(''X'', ''1''), (''Y'', ''2'')] ''m'')
      = canonical_bytes (demo_article [''b'', ''a''] [(''Y'', ''2''), (''X'', ''1'')] ''m'')"
    by (subst canonical_bytes_injective [OF ok(1) ok(1) ok(2) ok(2)])
      (simp_all add: same_article_def demo_article_def)
  moreover have "canonical_bytes (demo_article [''a'', ''b''] [(''X'', ''1''), (''Y'', ''2'')] ''m'')
      \<noteq> canonical_bytes (demo_article [''a'', ''b''] [(''X'', ''1''), (''Y'', ''2'')] ''n'')"
    by (subst canonical_bytes_injective [OF ok(1) ok(1) ok(2) ok(2)])
      (simp_all add: same_article_def demo_article_def)
  ultimately show ?thesis by blast
qed



end
