(* ===== verification/GroupLog.thy ===== *)
theory GroupLog
  imports Canonical Hlc
begin

text \<open>
  The per-group Merkle-CRDT log (\<^verbatim>\<open>crates/core/src/group_log/\<close>): entries and their identifiers
  (\<^verbatim>\<open>types.rs\<close>), the storage trait (\<^verbatim>\<open>storage.rs\<close>), verification (\<^verbatim>\<open>verify.rs\<close>) and appending
  (\<^verbatim>\<open>append.rs\<close>). The trait is a record of operations passed to the generic functions; the
  contract its documentation states is the locale \<^verbatim>\<open>log_storage\<close>, and what appending
  guarantees is proved once, inside it.
\<close>

section \<open>Entries\<close>

type_synonym log_entry_id = bytes

datatype storage_error =
    Database bytes
  | MigrationFailed bytes
  | EntryNotFound log_entry_id
  | DuplicateEntry log_entry_id
  | IpfsWriteFailed bytes
  | IpfsPinFailed bytes
  | IpfsNotReachable

fun is_transient :: "storage_error \<Rightarrow> bool" where
  "is_transient IpfsNotReachable = True"
| "is_transient (IpfsWriteFailed _) = True"
| "is_transient (IpfsPinFailed _) = True"
| "is_transient _ = False"

datatype signing_error =
    InvalidKeyMaterial bytes
  | SignatureLengthInvalid nat nat
  | VerificationFailed
  | KeyNotLoaded
  | SigningIo bytes
  | InvalidKey bytes

record 'cid log_entry =
  le_hlc_timestamp :: hlc_timestamp
  article_cid :: 'cid
  operator_signature :: bytes
  parent_cids :: "'cid list"

definition to_cid :: "'cid lib \<Rightarrow> log_entry_id \<Rightarrow> 'cid" where
  "to_cid L i = cid_new_v1 L 0x71 0x12 i"

definition from_entry :: "'cid lib \<Rightarrow> 'cid log_entry \<Rightarrow> log_entry_id" where
  "from_entry L entry = sha256 L (entry_id_bytes L (wall_ms (le_hlc_timestamp entry)) (article_cid entry)
     (operator_signature entry) (parent_cids entry))"

text \<open>\<^verbatim>\<open>cid.hash().digest().try_into()\<close> as 32 bytes.\<close>

definition digest32 :: "'cid lib \<Rightarrow> 'cid \<Rightarrow> log_entry_id option" where
  "digest32 L c = (if length (cid_digest L c) = 32 then Some (cid_digest L c) else None)"

section \<open>The storage trait\<close>

record ('s, 'cid) log_storage_ops =
  insert_entry :: "'s \<Rightarrow> log_entry_id \<Rightarrow> 'cid log_entry \<Rightarrow> (storage_error + unit) \<times> 's"
  get_entry :: "'s \<Rightarrow> log_entry_id \<Rightarrow> storage_error + 'cid log_entry option"
  has_entry :: "'s \<Rightarrow> log_entry_id \<Rightarrow> storage_error + bool"
  get_parent_cids :: "'s \<Rightarrow> log_entry_id \<Rightarrow> storage_error + 'cid list option"
  list_tips :: "'s \<Rightarrow> group_name \<Rightarrow> storage_error + log_entry_id list"
  set_tips :: "'s \<Rightarrow> group_name \<Rightarrow> log_entry_id list \<Rightarrow> (storage_error + unit) \<times> 's"
  advance_tips :: "'s \<Rightarrow> group_name \<Rightarrow> log_entry_id list \<Rightarrow> log_entry_id \<Rightarrow> (storage_error + unit) \<times> 's"
  insert_entry_and_advance_tips ::
    "'s \<Rightarrow> log_entry_id \<Rightarrow> 'cid log_entry \<Rightarrow> group_name \<Rightarrow> log_entry_id list \<Rightarrow> log_entry_id
       \<Rightarrow> (storage_error + unit) \<times> 's"
  tip_count :: "'s \<Rightarrow> group_name \<Rightarrow> storage_error + nat"

section \<open>Verification\<close>

datatype verify_error =
    VerifyStorage storage_error
  | InvalidSignature signing_error
  | VerifyMissingParent bytes
  | HlcNotMonotonic hlc_timestamp hlc_timestamp
  | EntryIdMismatch
  | TooManyParents nat
  | InvalidArticleCidCodec u64

definition MAX_PARENT_CIDS :: nat where
  "MAX_PARENT_CIDS = 100"

definition tip_hash :: "'cid lib \<Rightarrow> 'cid list \<Rightarrow> bytes" where
  "tip_hash L tips = sha256 L (concat (sort (map (cid_to_bytes L) tips)))"

definition sig_verify :: "'cid lib \<Rightarrow> bytes \<Rightarrow> bytes \<Rightarrow> bytes \<Rightarrow> signing_error + unit" where
  "sig_verify L pubkey msg sig = (if ed25519_verify L pubkey msg sig then Inr () else Inl VerificationFailed)"

definition check_signature :: "'cid lib \<Rightarrow> 'cid log_entry \<Rightarrow> bytes \<Rightarrow> verify_error + unit" where
  "check_signature L entry pubkey =
     (let canonical = log_entry_canonical_bytes L (wall_ms (le_hlc_timestamp entry)) (article_cid entry) (parent_cids entry)
      in if length (operator_signature entry) \<noteq> 64
         then Inl (InvalidSignature (SignatureLengthInvalid (length (operator_signature entry)) 64))
         else case sig_verify L pubkey canonical (operator_signature entry) of
                Inl e \<Rightarrow> Inl (InvalidSignature e)
              | Inr u \<Rightarrow> Inr u)"

text \<open>The type \<^verbatim>\<open>VerifiedEntry\<close> is an entry that came out of this function.\<close>

definition verify_signature :: "'cid lib \<Rightarrow> 'cid log_entry \<Rightarrow> bytes \<Rightarrow> verify_error + 'cid log_entry" where
  "verify_signature L entry pubkey = and_then (check_signature L entry pubkey) (\<lambda>_. Inr entry)"

definition bad_digest_text :: "'cid lib \<Rightarrow> 'cid \<Rightarrow> bytes" where
  "bad_digest_text L c = ''parent CID '' @ cid_to_string L c @ '' has a non-32-byte digest (length ''
     @ show_nat (length (cid_digest L c)) @ '')''"

definition verify_parent ::
  "'cid lib \<Rightarrow> ('s, 'cid) log_storage_ops \<Rightarrow> 's \<Rightarrow> 'cid log_entry \<Rightarrow> 'cid \<Rightarrow> verify_error + unit" where
  "verify_parent L S s entry c =
     (case digest32 L c of
        None \<Rightarrow> Inl (VerifyMissingParent (bad_digest_text L c))
      | Some parent_id \<Rightarrow>
          (case get_entry S s parent_id of
             Inl e \<Rightarrow> Inl (VerifyStorage e)
           | Inr None \<Rightarrow> Inl (VerifyMissingParent (cid_to_string L c))
           | Inr (Some parent) \<Rightarrow>
               if le_hlc_timestamp entry \<le> le_hlc_timestamp parent
               then Inl (HlcNotMonotonic (le_hlc_timestamp entry) (le_hlc_timestamp parent))
               else Inr ()))"

definition verify_entry ::
  "'cid lib \<Rightarrow> ('s, 'cid) log_storage_ops \<Rightarrow> 'cid log_entry \<Rightarrow> log_entry_id \<Rightarrow> 's \<Rightarrow> bytes \<Rightarrow> verify_error + unit" where
  "verify_entry L S entry entry_id s pubkey =
     (if length (parent_cids entry) > MAX_PARENT_CIDS then Inl (TooManyParents (length (parent_cids entry)))
      else if cid_codec L (article_cid entry) \<noteq> 0x71
        then Inl (InvalidArticleCidCodec (cid_codec L (article_cid entry)))
      else and_then (check_signature L entry pubkey) (\<lambda>_.
           and_then (try_each (verify_parent L S s entry) (parent_cids entry)) (\<lambda>_.
           if from_entry L entry \<noteq> entry_id then Inl EntryIdMismatch else Inr ())))"

section \<open>Appending\<close>

datatype append_error =
    AppendStorage storage_error
  | AppendMissingParent bytes

definition compute_entry_id :: "'cid lib \<Rightarrow> 'cid log_entry \<Rightarrow> log_entry_id" where
  "compute_entry_id L entry = sha256 L (entry_id_bytes L (wall_ms (le_hlc_timestamp entry)) (article_cid entry)
     (operator_signature entry) (parent_cids entry))"

definition append_parent ::
  "'cid lib \<Rightarrow> ('s, 'cid) log_storage_ops \<Rightarrow> 's \<Rightarrow> 'cid \<Rightarrow> append_error + log_entry_id" where
  "append_parent L S s c =
     (case digest32 L c of
        None \<Rightarrow> Inl (AppendMissingParent (bad_digest_text L c))
      | Some parent_id \<Rightarrow>
          (case has_entry S s parent_id of
             Inl e \<Rightarrow> Inl (AppendStorage e)
           | Inr found \<Rightarrow> if found then Inr parent_id else Inl (AppendMissingParent (cid_to_string L c))))"

text \<open>
  \<^verbatim>\<open>append\<close> reads (is the entry there, are its parents) and then commits in one storage
  operation; between the two other tasks may run. \<^verbatim>\<open>None\<close> is the early return for an entry
  that is already stored.
\<close>

definition append_check ::
  "'cid lib \<Rightarrow> ('s, 'cid) log_storage_ops \<Rightarrow> 's \<Rightarrow> 'cid log_entry \<Rightarrow> append_error + log_entry_id list option" where
  "append_check L S s entry =
     (case has_entry S s (compute_entry_id L entry) of
        Inl e \<Rightarrow> Inl (AppendStorage e)
      | Inr found \<Rightarrow>
          if found then Inr None
          else case collect_results (map (append_parent L S s) (parent_cids entry)) of
                 Inl e \<Rightarrow> Inl e
               | Inr parent_ids \<Rightarrow> Inr (Some parent_ids))"

definition append_commit ::
  "'cid lib \<Rightarrow> ('s, 'cid) log_storage_ops \<Rightarrow> 's \<Rightarrow> group_name \<Rightarrow> 'cid log_entry \<Rightarrow> log_entry_id list
     \<Rightarrow> (append_error + log_entry_id) \<times> 's" where
  "append_commit L S s grp entry parent_ids =
     (let entry_id = compute_entry_id L entry
      in case insert_entry_and_advance_tips S s entry_id entry grp parent_ids entry_id of
           (Inr _, s') \<Rightarrow> (Inr entry_id, s')
         | (Inl (DuplicateEntry _), s') \<Rightarrow> (Inr entry_id, s')
         | (Inl e, s') \<Rightarrow> (Inl (AppendStorage e), s'))"

definition log_append ::
  "'cid lib \<Rightarrow> ('s, 'cid) log_storage_ops \<Rightarrow> 's \<Rightarrow> group_name \<Rightarrow> 'cid log_entry \<Rightarrow> (append_error + log_entry_id) \<times> 's" where
  "log_append L S s grp entry =
     (case append_check L S s entry of
        Inl e \<Rightarrow> (Inl e, s)
      | Inr None \<Rightarrow> (Inr (compute_entry_id L entry), s)
      | Inr (Some parent_ids) \<Rightarrow> append_commit L S s grp entry parent_ids)"

section \<open>The DAG\<close>

definition parents_of :: "'cid lib \<Rightarrow> 'cid log_entry \<Rightarrow> log_entry_id set" where
  "parents_of L e = {p. \<exists>c \<in> set (parent_cids e). digest32 L c = Some p}"

definition edges :: "'cid lib \<Rightarrow> (log_entry_id \<rightharpoonup> 'cid log_entry) \<Rightarrow> (log_entry_id \<times> log_entry_id) set" where
  "edges L M = {(i, p). \<exists>e. M i = Some e \<and> p \<in> parents_of L e}"

text \<open>Every parent of a stored entry is named by a 32-byte digest and is stored.\<close>

definition parent_closed :: "'cid lib \<Rightarrow> (log_entry_id \<rightharpoonup> 'cid log_entry) \<Rightarrow> bool" where
  "parent_closed L M \<longleftrightarrow> (\<forall>i e c. M i = Some e \<longrightarrow> c \<in> set (parent_cids e) \<longrightarrow>
     (\<exists>p. digest32 L c = Some p \<and> p \<in> dom M))"

definition log_ok ::
  "'cid lib \<Rightarrow> (log_entry_id \<rightharpoonup> 'cid log_entry) \<Rightarrow> (group_name \<Rightarrow> log_entry_id set) \<Rightarrow> bool" where
  "log_ok L M T \<longleftrightarrow> parent_closed L M \<and> (\<forall>g. T g \<subseteq> dom M)
     \<and> (\<forall>g. \<forall>t \<in> T g. \<forall>u \<in> T g. (t, u) \<notin> edges L M)"

text \<open>An entry belongs to a group's log when it is reachable from a tip of the group.\<close>

definition in_log ::
  "'cid lib \<Rightarrow> (log_entry_id \<rightharpoonup> 'cid log_entry) \<Rightarrow> (group_name \<Rightarrow> log_entry_id set) \<Rightarrow> group_name \<Rightarrow> log_entry_id \<Rightarrow> bool" where
  "in_log L M T g i \<longleftrightarrow> (\<exists>t \<in> T g. (t, i) \<in> (edges L M)\<^sup>*)"

definition parents_stored :: "'cid lib \<Rightarrow> (log_entry_id \<rightharpoonup> 'cid log_entry) \<Rightarrow> 'cid log_entry \<Rightarrow> bool" where
  "parents_stored L M e \<longleftrightarrow> (\<forall>c \<in> set (parent_cids e). \<exists>p. digest32 L c = Some p \<and> p \<in> dom M)"

text \<open>What a storage may change of an entry: it keeps all that the identifier and the DAG need.\<close>

definition same_entry :: "'cid log_entry \<Rightarrow> 'cid log_entry \<Rightarrow> bool" where
  "same_entry e f \<longleftrightarrow> wall_ms (le_hlc_timestamp e) = wall_ms (le_hlc_timestamp f)
     \<and> article_cid e = article_cid f \<and> operator_signature e = operator_signature f
     \<and> set (parent_cids e) = set (parent_cids f)"

section \<open>Lemmas on the DAG\<close>

lemma compute_entry_id_is_from_entry: "compute_entry_id L e = from_entry L e"
  by (simp add: compute_entry_id_def from_entry_def)

lemma digest32_length: "digest32 L c = Some p \<Longrightarrow> length p = 32"
  by (auto simp: digest32_def split: if_splits)

lemma parents_of_same: "same_entry e f \<Longrightarrow> parents_of L e = parents_of L f"
  by (simp add: parents_of_def same_entry_def)

lemma edges_insert:
  "M i = None \<Longrightarrow> edges L (M(i \<mapsto> e)) = edges L M \<union> {i} \<times> parents_of L e"
  by (auto simp: edges_def split: if_splits)

lemma parent_closedD: "parent_closed L M \<Longrightarrow> (i, p) \<in> edges L M \<Longrightarrow> p \<in> dom M"
  unfolding parent_closed_def edges_def parents_of_def by fastforce

lemma parent_closed_insert:
  assumes "parent_closed L M" "M i = None"
    and "parents_stored L M e"
  shows "parent_closed L (M(i \<mapsto> e))"
  unfolding parent_closed_def
proof (intro allI impI)
  fix j f c assume j: "(M(i \<mapsto> e)) j = Some f" and c: "c \<in> set (parent_cids f)"
  have "\<exists>p. digest32 L c = Some p \<and> p \<in> dom M"
  proof (cases "j = i")
    case True
    with j c assms(3) show ?thesis by (simp add: parents_stored_def)
  next
    case False
    with j c assms(1) show ?thesis unfolding parent_closed_def by (metis fun_upd_other)
  qed
  then show "\<exists>p. digest32 L c = Some p \<and> p \<in> dom (M(i \<mapsto> e))" by auto
qed

text \<open>A new entry on stored parents keeps the log well-formed and every member of it a member.\<close>

lemma log_ok_insert:
  assumes ok: "log_ok L M T" and new: "M i = None"
    and pars: "parents_stored L M e"
    and T': "T' = T(g := T g - parents_of L e \<union> {i})"
  shows "log_ok L (M(i \<mapsto> e)) T'"
proof -
  have closed: "parent_closed L M" using ok by (simp add: log_ok_def)
  have i_no_parent: "(j, i) \<notin> edges L M" for j
    using parent_closedD [OF closed, of j i] new by auto
  have i_no_child: "(i, j) \<notin> edges L M" for j using new by (simp add: edges_def)
  have par_dom: "p \<in> dom M" if "p \<in> parents_of L e" for p
    using that pars unfolding parents_of_def parents_stored_def by fastforce
  have i_not_par: "i \<notin> parents_of L e" using par_dom new by auto
  have T_dom: "T h \<subseteq> dom M" for h using ok by (simp add: log_ok_def)
  then have i_not_tip: "i \<notin> T h" for h using new by blast
  have anti: "(t, u) \<notin> edges L M" if "t \<in> T h" "u \<in> T h" for t u h
    using ok that by (simp add: log_ok_def)
  have "parent_closed L (M(i \<mapsto> e))" by (rule parent_closed_insert [OF closed new pars])
  moreover have "T' h \<subseteq> dom (M(i \<mapsto> e))" for h
    using T_dom [of h] T_dom [of g] by (auto simp: T')
  moreover have "(t, u) \<notin> edges L (M(i \<mapsto> e))" if "t \<in> T' h" "u \<in> T' h" for t u h
    using that anti i_no_parent i_no_child i_not_par i_not_tip
    by (auto simp: T' edges_insert [of M i, OF new] split: if_splits)
  ultimately show ?thesis by (simp add: log_ok_def)
qed

lemma in_log_insert:
  assumes "in_log L M T h j" and new: "M i = None" and T': "T' = T(g := T g - parents_of L e \<union> {i})"
  shows "in_log L (M(i \<mapsto> e)) T' h j"
proof -
  from assms(1) obtain t where t: "t \<in> T h" and reach: "(t, j) \<in> (edges L M)\<^sup>*"
    by (auto simp: in_log_def)
  have "edges L M \<subseteq> edges L (M(i \<mapsto> e))" by (auto simp: edges_insert [of M i, OF new])
  with reach have reach': "(t, j) \<in> (edges L (M(i \<mapsto> e)))\<^sup>*" using rtrancl_mono by blast
  show ?thesis
  proof (cases "h = g \<and> t \<in> parents_of L e")
    case True
    then have "(i, t) \<in> edges L (M(i \<mapsto> e))" by (simp add: edges_def)
    with reach' have "(i, j) \<in> (edges L (M(i \<mapsto> e)))\<^sup>*" by (meson converse_rtrancl_into_rtrancl)
    with True T' show ?thesis by (auto simp: in_log_def)
  next
    case False
    with t T' have "t \<in> T' h" by auto
    with reach' show ?thesis by (auto simp: in_log_def)
  qed
qed

lemma in_log_new: "T' g = X \<union> {i} \<Longrightarrow> in_log L M T' g i"
  by (auto simp: in_log_def)

section \<open>Lemmas on verification\<close>

definition signed_by :: "'cid lib \<Rightarrow> bytes \<Rightarrow> 'cid log_entry \<Rightarrow> bool" where
  "signed_by L key e \<longleftrightarrow> length (operator_signature e) = 64 \<and>
     ed25519_verify L key
       (log_entry_canonical_bytes L (wall_ms (le_hlc_timestamp e)) (article_cid e) (parent_cids e))
       (operator_signature e)"

lemma check_signature_iff: "check_signature L e key = Inr u \<longleftrightarrow> signed_by L key e"
  by (simp add: check_signature_def signed_by_def sig_verify_def Let_def)

text \<open>Timestamps that decrease from every entry to its parents leave no room for a cycle.\<close>

definition hlc_decreasing :: "'cid lib \<Rightarrow> (log_entry_id \<rightharpoonup> 'cid log_entry) \<Rightarrow> bool" where
  "hlc_decreasing L M \<longleftrightarrow> (\<forall>i e p f. M i = Some e \<longrightarrow> p \<in> parents_of L e \<longrightarrow> M p = Some f \<longrightarrow>
     le_hlc_timestamp f < le_hlc_timestamp e)"

lemma hlc_decreasing_acyclic:
  assumes "hlc_decreasing L M" "parent_closed L M"
  shows "acyclic (edges L M)"
proof -
  have step: "le_hlc_timestamp (the (M p)) < le_hlc_timestamp (the (M i))" if ip: "(i, p) \<in> edges L M" for i p
  proof -
    from ip obtain e where e: "M i = Some e" "p \<in> parents_of L e" by (auto simp: edges_def)
    from parent_closedD [OF assms(2) ip] obtain f where "M p = Some f" by auto
    with e assms(1) show ?thesis unfolding hlc_decreasing_def by fastforce
  qed
  have "le_hlc_timestamp (the (M j)) < le_hlc_timestamp (the (M i))" if "(i, j) \<in> (edges L M)\<^sup>+" for i j
    using that
  proof (induction rule: trancl_induct)
    case (base y)
    then show ?case by (rule step)
  next
    case (step y z)
    with \<open>\<And>p i. (i, p) \<in> edges L M \<Longrightarrow> le_hlc_timestamp (the (M p)) < le_hlc_timestamp (the (M i))\<close>
    show ?case by (meson less_trans)
  qed
  then show ?thesis unfolding acyclic_def by blast
qed

section \<open>Concurrent appends\<close>

text \<open>
  Tasks appending at the same time over one storage: each first checks and later commits, and
  the steps of different tasks interleave freely.
\<close>

datatype 'cid append_task =
    Waiting group_name "'cid log_entry"
  | Checked group_name "'cid log_entry" "log_entry_id list"
  | Finished group_name "'cid log_entry" "append_error + log_entry_id"

inductive append_step ::
  "'cid lib \<Rightarrow> ('s, 'cid) log_storage_ops \<Rightarrow> 's \<times> 'cid append_task list \<Rightarrow> 's \<times> 'cid append_task list \<Rightarrow> bool"
  for L S where
  check_fails: "k < length ts \<Longrightarrow> ts ! k = Waiting g e \<Longrightarrow> append_check L S s e = Inl err \<Longrightarrow>
     append_step L S (s, ts) (s, ts[k := Finished g e (Inl err)])"
| check_found: "k < length ts \<Longrightarrow> ts ! k = Waiting g e \<Longrightarrow> append_check L S s e = Inr None \<Longrightarrow>
     append_step L S (s, ts) (s, ts[k := Finished g e (Inr (compute_entry_id L e))])"
| check_ready: "k < length ts \<Longrightarrow> ts ! k = Waiting g e \<Longrightarrow> append_check L S s e = Inr (Some ps) \<Longrightarrow>
     append_step L S (s, ts) (s, ts[k := Checked g e ps])"
| commit: "k < length ts \<Longrightarrow> ts ! k = Checked g e ps \<Longrightarrow> append_commit L S s g e ps = (r, s') \<Longrightarrow>
     append_step L S (s, ts) (s', ts[k := Finished g e r])"

inductive_cases append_stepE: "append_step L S (s, ts) (s', ts')"

definition no_orphans ::
  "'cid lib \<Rightarrow> (log_entry_id \<rightharpoonup> 'cid log_entry) \<Rightarrow> (group_name \<Rightarrow> log_entry_id set) \<Rightarrow> bool" where
  "no_orphans L M T \<longleftrightarrow> (\<forall>i \<in> dom M. \<exists>g. in_log L M T g i)"

definition task_ok :: "'cid lib \<Rightarrow> (log_entry_id \<rightharpoonup> 'cid log_entry) \<Rightarrow> 'cid append_task \<Rightarrow> bool" where
  "task_ok L M t = (case t of
       Waiting _ _ \<Rightarrow> True
     | Checked _ e ps \<Rightarrow> set ps = parents_of L e \<and> parents_stored L M e
     | Finished _ e (Inr i) \<Rightarrow> i = compute_entry_id L e \<and> i \<in> dom M
     | Finished _ e (Inl _) \<Rightarrow> True)"

fun task_entry :: "'cid append_task \<Rightarrow> 'cid log_entry" where
  "task_entry (Waiting _ e) = e"
| "task_entry (Checked _ e _) = e"
| "task_entry (Finished _ e _) = e"

lemma task_ok_mono: "task_ok L M t \<Longrightarrow> dom M \<subseteq> dom N \<Longrightarrow> task_ok L N t"
  unfolding task_ok_def parents_stored_def
  by (auto split: append_task.splits sum.splits; fastforce)

section \<open>The storage contract\<close>

text \<open>
  \<^verbatim>\<open>ents\<close> and \<^verbatim>\<open>tipset\<close> are what a storage state represents; \<^verbatim>\<open>ok\<close> is the backend's own
  invariant; \<^verbatim>\<open>storable\<close> says which entries the backend can represent.
\<close>

locale log_storage =
  fixes S :: "('s, 'cid) log_storage_ops"
    and ents :: "'s \<Rightarrow> log_entry_id \<Rightarrow> 'cid log_entry option"
    and tipset :: "'s \<Rightarrow> group_name \<Rightarrow> log_entry_id set"
    and ok :: "'s \<Rightarrow> bool"
    and storable :: "'cid log_entry \<Rightarrow> bool"
  assumes has: "ok s \<Longrightarrow> has_entry S s i = Inr (ents s i \<noteq> None)"
    and get: "ok s \<Longrightarrow> get_entry S s i = Inr (ents s i)"
    and get_parents: "ok s \<Longrightarrow> get_parent_cids S s i = Inr (map_option parent_cids (ents s i))"
    and tips: "ok s \<Longrightarrow> \<exists>ts. list_tips S s g = Inr ts \<and> set ts = tipset s g \<and> distinct ts"
    and insert_new: "ok s \<Longrightarrow> length i = 32 \<Longrightarrow> storable e \<Longrightarrow> ents s i = None \<Longrightarrow>
      \<exists>s' e'. insert_entry S s i e = (Inr (), s') \<and> ok s' \<and> same_entry e e'
        \<and> ents s' = (ents s)(i \<mapsto> e') \<and> tipset s' = tipset s"
    and insert_dup: "ok s \<Longrightarrow> storable e \<Longrightarrow> ents s i \<noteq> None \<Longrightarrow>
      insert_entry S s i e = (Inl (DuplicateEntry i), s)"
    and insert_refused: "ok s \<Longrightarrow> \<not> storable e \<Longrightarrow> \<exists>m. insert_entry S s i e = (Inl (Database m), s)"
    and advance: "ok s \<Longrightarrow> length t = 32 \<Longrightarrow>
      \<exists>s'. advance_tips S s g ps t = (Inr (), s') \<and> ok s' \<and> ents s' = ents s
        \<and> tipset s' = (tipset s)(g := tipset s g - set ps \<union> {t})"
    and commit_new: "ok s \<Longrightarrow> length i = 32 \<Longrightarrow> storable e \<Longrightarrow> ents s i = None \<Longrightarrow>
      \<exists>s' e'. insert_entry_and_advance_tips S s i e g ps i = (Inr (), s') \<and> ok s' \<and> same_entry e e'
        \<and> ents s' = (ents s)(i \<mapsto> e') \<and> tipset s' = (tipset s)(g := tipset s g - set ps \<union> {i})"
    and commit_dup: "ok s \<Longrightarrow> storable e \<Longrightarrow> ents s i \<noteq> None \<Longrightarrow>
      insert_entry_and_advance_tips S s i e g ps t = (Inl (DuplicateEntry i), s)"
    and commit_refused: "ok s \<Longrightarrow> \<not> storable e \<Longrightarrow>
      \<exists>m. insert_entry_and_advance_tips S s i e g ps t = (Inl (Database m), s)"
begin

lemma append_parent_iff:
  "ok s \<Longrightarrow> append_parent L S s c = Inr p \<longleftrightarrow> digest32 L c = Some p \<and> ents s p \<noteq> None"
  by (auto simp: append_parent_def has split: option.splits)

lemma append_parents_iff:
  assumes "ok s"
  shows "collect_results (map (append_parent L S s) cs) = Inr ps
    \<longleftrightarrow> map (digest32 L) cs = map Some ps \<and> (\<forall>p \<in> set ps. ents s p \<noteq> None)"
  unfolding collect_results_Inr_iff
proof (induction cs arbitrary: ps)
  case (Cons c cs)
  then show ?case by (cases ps) (auto simp: append_parent_iff [OF assms])
qed auto

lemma parents_set:
  assumes "map (digest32 L) (parent_cids e) = map Some ps"
  shows "set ps = parents_of L e"
proof -
  from assms have "Some ` set ps = digest32 L ` set (parent_cids e)" by (metis list.set_map)
  then have "p \<in> set ps \<longleftrightarrow> Some p \<in> digest32 L ` set (parent_cids e)" for p by (metis image_iff option.inject)
  then show ?thesis unfolding parents_of_def image_iff set_eq_iff mem_Collect_eq by metis
qed

lemma append_check_cases:
  assumes "ok s" "append_check L S s e = Inr (Some ps)"
  shows "ents s (compute_entry_id L e) = None" "set ps = parents_of L e" "parents_stored L (ents s) e"
proof -
  have none: "ents s (compute_entry_id L e) = None"
    and r: "collect_results (map (append_parent L S s) (parent_cids e)) = Inr ps"
    using assms by (auto simp: append_check_def has split: sum.splits if_splits)
  from r have m: "map (digest32 L) (parent_cids e) = map Some ps" and st: "\<forall>p \<in> set ps. ents s p \<noteq> None"
    by (simp_all add: append_parents_iff [OF assms(1)])
  show "ents s (compute_entry_id L e) = None" by (rule none)
  show "set ps = parents_of L e" by (rule parents_set [OF m])
  have "\<exists>p. digest32 L c = Some p \<and> p \<in> dom (ents s)" if "c \<in> set (parent_cids e)" for c
  proof -
    from that m obtain p where "p \<in> set ps" "digest32 L c = Some p"
      by (metis (no_types, lifting) image_iff list.set_map)
    with st show ?thesis by blast
  qed
  then show "parents_stored L (ents s) e" by (simp add: parents_stored_def)
qed

lemma append_check_ready:
  assumes "ok s" "ents s (compute_entry_id L e) = None" "parents_stored L (ents s) e"
  shows "\<exists>ps. append_check L S s e = Inr (Some ps)"
proof -
  have "\<exists>ps. map (digest32 L) cs = map Some ps \<and> (\<forall>p \<in> set ps. ents s p \<noteq> None)"
    if "\<forall>c \<in> set cs. \<exists>p. digest32 L c = Some p \<and> p \<in> dom (ents s)" for cs
    using that
  proof (induction cs)
    case (Cons c cs)
    then obtain ps p where "map (digest32 L) cs = map Some ps" "\<forall>p \<in> set ps. ents s p \<noteq> None"
      "digest32 L c = Some p" "p \<in> dom (ents s)" by auto
    then show ?case by (intro exI [of _ "p # ps"]) auto
  qed simp
  from this [of "parent_cids e"] assms(3) obtain ps where
    "collect_results (map (append_parent L S s) (parent_cids e)) = Inr ps"
    unfolding parents_stored_def append_parents_iff [OF assms(1)] by blast
  with assms(1,2) show ?thesis by (simp add: append_check_def has)
qed

text \<open>The commit, from any state in which the parents are stored.\<close>

lemma append_commit_keeps:
  assumes "sha256_32 L" "ok s" "storable e" "log_ok L (ents s) (tipset s)"
    and ps: "set ps = parents_of L e" and st: "parents_stored L (ents s) e"
    and run: "append_commit L S s g e ps = (r, s')"
  defines "i \<equiv> compute_entry_id L e"
  shows "r = Inr i" "ok s'" "log_ok L (ents s') (tipset s')" "dom (ents s') = insert i (dom (ents s))"
    "in_log L (ents s) (tipset s) h j \<Longrightarrow> in_log L (ents s') (tipset s') h j"
    "ents s i = None \<Longrightarrow> tipset s' = (tipset s)(g := tipset s g - parents_of L e \<union> {i})"
    "ents s i \<noteq> None \<Longrightarrow> s' = s"
proof -
  have len: "length i = 32" using assms(1) by (simp add: i_def compute_entry_id_def sha256_32_def)
  have *: "r = Inr i \<and> ok s' \<and> log_ok L (ents s') (tipset s') \<and> dom (ents s') = insert i (dom (ents s))
      \<and> (in_log L (ents s) (tipset s) h j \<longrightarrow> in_log L (ents s') (tipset s') h j)
      \<and> (ents s i = None \<longrightarrow> tipset s' = (tipset s)(g := tipset s g - parents_of L e \<union> {i}))
      \<and> (ents s i \<noteq> None \<longrightarrow> s' = s)"
  proof (cases "ents s i")
    case None
    obtain t e' where t: "insert_entry_and_advance_tips S s i e g ps i = (Inr (), t)" "ok t" "same_entry e e'"
      "ents t = (ents s)(i \<mapsto> e')" "tipset t = (tipset s)(g := tipset s g - set ps \<union> {i})"
      using commit_new [OF assms(2) len assms(3) None] by blast
    have rs: "r = Inr i" "s' = t" using run t(1) by (simp_all add: append_commit_def Let_def i_def)
    have eq: "parents_of L e' = parents_of L e" using parents_of_same [OF t(3)] by simp
    have st': "parents_stored L (ents s) e'" using st t(3) by (simp add: parents_stored_def same_entry_def)
    have tip: "tipset t = (tipset s)(g := tipset s g - parents_of L e' \<union> {i})" by (simp add: t(5) ps eq)
    have "log_ok L (ents t) (tipset t)"
      unfolding t(4) by (rule log_ok_insert [where M = "ents s" and i = i, OF assms(4) None st' tip])
    moreover have "in_log L (ents s) (tipset s) h j \<longrightarrow> in_log L (ents t) (tipset t) h j"
      unfolding t(4) using in_log_insert [where M = "ents s" and i = i, OF _ None tip] by blast
    ultimately show ?thesis using None t(2,4) tip eq by (simp add: rs)
  next
    case (Some f)
    then have "insert_entry_and_advance_tips S s i e g ps i = (Inl (DuplicateEntry i), s)"
      by (intro commit_dup assms) simp
    then have "r = Inr i" "s' = s" using run by (simp_all add: append_commit_def Let_def i_def)
    with Some assms(2,4) show ?thesis by (auto simp: insert_absorb)
  qed
  from * show "r = Inr i" "ok s'" "log_ok L (ents s') (tipset s')" "dom (ents s') = insert i (dom (ents s))"
    "in_log L (ents s) (tipset s) h j \<Longrightarrow> in_log L (ents s') (tipset s') h j"
    "ents s i = None \<Longrightarrow> tipset s' = (tipset s)(g := tipset s g - parents_of L e \<union> {i})"
    "ents s i \<noteq> None \<Longrightarrow> s' = s" by simp_all
qed

lemma verify_parent_iff:
  assumes "ok s"
  shows "verify_parent L S s e c = Inr () \<longleftrightarrow>
    (\<exists>p f. digest32 L c = Some p \<and> ents s p = Some f \<and> le_hlc_timestamp f < le_hlc_timestamp e)"
  by (auto simp: verify_parent_def get [OF assms] not_le split: option.splits if_splits)

lemma verify_entry_iff:
  assumes "ok s"
  shows "verify_entry L S e i s key = Inr () \<longleftrightarrow>
    length (parent_cids e) \<le> 100 \<and> cid_codec L (article_cid e) = 0x71 \<and> signed_by L key e
    \<and> (\<forall>c \<in> set (parent_cids e).
         \<exists>p f. digest32 L c = Some p \<and> ents s p = Some f \<and> le_hlc_timestamp f < le_hlc_timestamp e)
    \<and> from_entry L e = i"
  unfolding verify_entry_def
  by (auto simp: and_then_eq_Inr check_signature_iff try_each_Inr_iff verify_parent_iff [OF assms]
      MAX_PARENT_CIDS_def not_less)

lemma append_keeps:
  assumes "sha256_32 L" "ok s" "storable e" "log_ok L (ents s) (tipset s)"
    and run: "log_append L S s g e = (r, s')"
  defines "i \<equiv> compute_entry_id L e"
  shows "ok s'" "log_ok L (ents s') (tipset s')"
    "in_log L (ents s) (tipset s) h j \<Longrightarrow> in_log L (ents s') (tipset s') h j"
    "i \<in> dom (ents s) \<or> parents_stored L (ents s) e \<Longrightarrow> r = Inr i"
    "i \<notin> dom (ents s) \<and> \<not> parents_stored L (ents s) e \<Longrightarrow> \<exists>err. r = Inl err"
    "i \<notin> dom (ents s) \<and> parents_stored L (ents s) e \<Longrightarrow>
       tipset s' = (tipset s)(g := tipset s g - parents_of L e \<union> {i}) \<and> dom (ents s') = insert i (dom (ents s))"
    "i \<in> dom (ents s) \<or> \<not> parents_stored L (ents s) e \<Longrightarrow> s' = s"
proof -
  consider (found) "i \<in> dom (ents s)" | (ready) "i \<notin> dom (ents s)" "parents_stored L (ents s) e"
    | (missing) "i \<notin> dom (ents s)" "\<not> parents_stored L (ents s) e" by blast
  then have *: "ok s' \<and> log_ok L (ents s') (tipset s')
      \<and> (in_log L (ents s) (tipset s) h j \<longrightarrow> in_log L (ents s') (tipset s') h j)
      \<and> (i \<in> dom (ents s) \<or> parents_stored L (ents s) e \<longrightarrow> r = Inr i)
      \<and> (i \<notin> dom (ents s) \<and> \<not> parents_stored L (ents s) e \<longrightarrow> (\<exists>err. r = Inl err))
      \<and> (i \<notin> dom (ents s) \<and> parents_stored L (ents s) e \<longrightarrow>
         tipset s' = (tipset s)(g := tipset s g - parents_of L e \<union> {i}) \<and> dom (ents s') = insert i (dom (ents s)))
      \<and> (i \<in> dom (ents s) \<or> \<not> parents_stored L (ents s) e \<longrightarrow> s' = s)"
  proof cases
    case found
    then have "append_check L S s e = Inr None"
      by (auto simp: append_check_def has [OF assms(2)] i_def)
    with run have "r = Inr i" "s' = s" by (simp_all add: log_append_def i_def)
    with found assms(2,4) show ?thesis by simp
  next
    case ready
    then have none: "ents s (compute_entry_id L e) = None" by (auto simp: i_def)
    obtain ps where ps: "append_check L S s e = Inr (Some ps)"
      using append_check_ready [OF assms(2) none ready(2)] by blast
    with run have c: "append_commit L S s g e ps = (r, s')" by (simp add: log_append_def)
    note keeps = append_commit_keeps [OF assms(1-4) append_check_cases(2) [OF assms(2) ps] ready(2) c]
    show ?thesis using keeps ready none by (simp add: i_def)
  next
    case missing
    have "append_check L S s e \<noteq> Inr (Some ps)" for ps
      using append_check_cases(3) [OF assms(2)] missing(2) by blast
    moreover have "append_check L S s e \<noteq> Inr None"
      using missing(1) by (auto simp: append_check_def has [OF assms(2)] i_def split: sum.splits)
    ultimately obtain err where "append_check L S s e = Inl err" by (metis not_None_eq sum.exhaust)
    with run have "r = Inl err" "s' = s" by (simp_all add: log_append_def)
    with missing assms(2,4) show ?thesis by simp
  qed
  from * show "ok s'" "log_ok L (ents s') (tipset s')"
    "in_log L (ents s) (tipset s) h j \<Longrightarrow> in_log L (ents s') (tipset s') h j"
    "i \<in> dom (ents s) \<or> parents_stored L (ents s) e \<Longrightarrow> r = Inr i"
    "i \<notin> dom (ents s) \<and> \<not> parents_stored L (ents s) e \<Longrightarrow> \<exists>err. r = Inl err"
    "i \<notin> dom (ents s) \<and> parents_stored L (ents s) e \<Longrightarrow>
       tipset s' = (tipset s)(g := tipset s g - parents_of L e \<union> {i}) \<and> dom (ents s') = insert i (dom (ents s))"
    "i \<in> dom (ents s) \<or> \<not> parents_stored L (ents s) e \<Longrightarrow> s' = s" by simp_all
qed

definition tasks_inv :: "'cid lib \<Rightarrow> 's \<times> 'cid append_task list \<Rightarrow> bool" where
  "tasks_inv L = (\<lambda>(s, ts). ok s \<and> log_ok L (ents s) (tipset s) \<and> no_orphans L (ents s) (tipset s)
     \<and> (\<forall>t \<in> set ts. storable (task_entry t) \<and> task_ok L (ents s) t))"

lemma tasks_inv_step:
  assumes "sha256_32 L" "tasks_inv L x" "append_step L S x y"
  shows "tasks_inv L y"
  using assms(3,2)
proof (induction rule: append_step.induct)
  case (check_fails k ts g e s err)
  then have "storable e" by (auto simp: tasks_inv_def dest!: nth_mem)
  with check_fails show ?case by (auto simp: tasks_inv_def task_ok_def dest!: set_update_subset_insert [THEN subsetD])
next
  case (check_found k ts g e s)
  then have "storable e" "ok s" by (auto simp: tasks_inv_def dest!: nth_mem)
  moreover from check_found(3) have "compute_entry_id L e \<in> dom (ents s)"
    by (auto simp: append_check_def has [OF \<open>ok s\<close>] split: if_splits sum.splits)
  ultimately show ?case using check_found
    by (auto simp: tasks_inv_def task_ok_def dest!: set_update_subset_insert [THEN subsetD])
next
  case (check_ready k ts g e s ps)
  then have "storable e" "ok s" by (auto simp: tasks_inv_def dest!: nth_mem)
  with check_ready append_check_cases(2,3) [OF \<open>ok s\<close> check_ready(3)] show ?case
    by (auto simp: tasks_inv_def task_ok_def dest!: set_update_subset_insert [THEN subsetD])
next
  case (commit k ts g e ps s r s')
  have "Checked g e ps \<in> set ts" using commit(1,2) by (metis nth_mem)
  with commit(4) have e: "storable e" "set ps = parents_of L e" "parents_stored L (ents s) e"
    and s: "ok s" "log_ok L (ents s) (tipset s)" "no_orphans L (ents s) (tipset s)"
    and ts: "\<forall>t \<in> set ts. storable (task_entry t) \<and> task_ok L (ents s) t"
    by (auto simp: tasks_inv_def task_ok_def)
  note keeps = append_commit_keeps [OF assms(1) s(1) e(1) s(2) e(2,3) commit(3)]
  have sub: "dom (ents s) \<subseteq> dom (ents s')" using keeps(4) by blast
  have "no_orphans L (ents s') (tipset s')"
    unfolding no_orphans_def
  proof
    fix j assume "j \<in> dom (ents s')"
    then consider "j \<in> dom (ents s)" | "j = compute_entry_id L e" "ents s j = None" using keeps(4) by auto
    then show "\<exists>g. in_log L (ents s') (tipset s') g j"
    proof cases
      case 1
      with s(3) keeps(5) show ?thesis unfolding no_orphans_def by blast
    next
      case 2
      then have "tipset s' g = (tipset s g - parents_of L e) \<union> {j}" using keeps(6) by simp
      then show ?thesis by (intro exI in_log_new)
    qed
  qed
  moreover have "storable (task_entry t) \<and> task_ok L (ents s') t" if "t \<in> set (ts[k := Finished g e r])" for t
  proof -
    from that consider "t = Finished g e r" | "t \<in> set ts" by (metis insertE set_update_subset_insert subsetD)
    then show ?thesis
    proof cases
      case 1
      then show ?thesis using keeps(1,4) e(1) by (simp add: task_ok_def)
    next
      case 2
      with ts show ?thesis using task_ok_mono [OF _ sub] by blast
    qed
  qed
  ultimately show ?case using keeps(2,3) by (simp add: tasks_inv_def)
qed

lemma tasks_inv_run:
  assumes "(append_step L S)\<^sup>*\<^sup>* x y" "sha256_32 L" "tasks_inv L x"
  shows "tasks_inv L y"
  using assms(1,3) by (induction rule: rtranclp_induct) (auto intro: tasks_inv_step [OF assms(2)])

end

end
