(* ===== verification/MemLog.thy ===== *)
theory MemLog
  imports GroupLog
begin

text \<open>
  The in-memory log storage (\<^verbatim>\<open>crates/core/src/group_log/mem_storage.rs\<close>) and that it meets the
  storage contract.
\<close>

record 'cid mem_log_storage =
  mem_entries :: "log_entry_id \<rightharpoonup> 'cid log_entry"
  mem_tips :: "bytes \<rightharpoonup> log_entry_id list"

definition mem_new :: "'cid mem_log_storage" where
  "mem_new = \<lparr>mem_entries = Map.empty, mem_tips = Map.empty\<rparr>"

definition mem_insert_entry ::
  "'cid mem_log_storage \<Rightarrow> log_entry_id \<Rightarrow> 'cid log_entry \<Rightarrow> (storage_error + unit) \<times> 'cid mem_log_storage" where
  "mem_insert_entry s i entry =
     (if mem_entries s i \<noteq> None then (Inl (DuplicateEntry i), s)
      else (Inr (), s\<lparr>mem_entries := (mem_entries s)(i \<mapsto> entry)\<rparr>))"

definition mem_get_entry :: "'cid mem_log_storage \<Rightarrow> log_entry_id \<Rightarrow> storage_error + 'cid log_entry option" where
  "mem_get_entry s i = Inr (mem_entries s i)"

definition mem_has_entry :: "'cid mem_log_storage \<Rightarrow> log_entry_id \<Rightarrow> storage_error + bool" where
  "mem_has_entry s i = Inr (mem_entries s i \<noteq> None)"

definition mem_get_parent_cids :: "'cid mem_log_storage \<Rightarrow> log_entry_id \<Rightarrow> storage_error + 'cid list option" where
  "mem_get_parent_cids s i = Inr (map_option parent_cids (mem_entries s i))"

definition mem_current :: "'cid mem_log_storage \<Rightarrow> group_name \<Rightarrow> log_entry_id list" where
  "mem_current s g = (case mem_tips s g of None \<Rightarrow> [] | Some ids \<Rightarrow> ids)"

definition mem_list_tips :: "'cid mem_log_storage \<Rightarrow> group_name \<Rightarrow> storage_error + log_entry_id list" where
  "mem_list_tips s g = Inr (mem_current s g)"

definition mem_set_tips ::
  "'cid mem_log_storage \<Rightarrow> group_name \<Rightarrow> log_entry_id list \<Rightarrow> (storage_error + unit) \<times> 'cid mem_log_storage" where
  "mem_set_tips s g ts = (Inr (), s\<lparr>mem_tips := (mem_tips s)(g \<mapsto> ts)\<rparr>)"

definition mem_advance_tips ::
  "'cid mem_log_storage \<Rightarrow> group_name \<Rightarrow> log_entry_id list \<Rightarrow> log_entry_id \<Rightarrow> (storage_error + unit) \<times> 'cid mem_log_storage" where
  "mem_advance_tips s g parents_to_remove new_tip =
     (let parent_set = set parents_to_remove;
          current = filter (\<lambda>i. i \<notin> parent_set) (mem_current s g);
          current = (if new_tip \<notin> set current then current @ [new_tip] else current)
      in (Inr (), s\<lparr>mem_tips := (mem_tips s)(g \<mapsto> current)\<rparr>))"

definition mem_insert_entry_and_advance_tips ::
  "'cid mem_log_storage \<Rightarrow> log_entry_id \<Rightarrow> 'cid log_entry \<Rightarrow> group_name \<Rightarrow> log_entry_id list \<Rightarrow> log_entry_id
     \<Rightarrow> (storage_error + unit) \<times> 'cid mem_log_storage" where
  "mem_insert_entry_and_advance_tips s i entry g parents_to_remove new_tip =
     (case mem_insert_entry s i entry of
        (Inl e, s') \<Rightarrow> (Inl e, s')
      | (Inr _, s') \<Rightarrow> mem_advance_tips s' g parents_to_remove new_tip)"

definition mem_tip_count :: "'cid mem_log_storage \<Rightarrow> group_name \<Rightarrow> storage_error + nat" where
  "mem_tip_count s g = Inr (case mem_tips s g of None \<Rightarrow> 0 | Some v \<Rightarrow> length v)"

definition mem_ops :: "('cid mem_log_storage, 'cid) log_storage_ops" where
  "mem_ops = \<lparr>insert_entry = mem_insert_entry, get_entry = mem_get_entry, has_entry = mem_has_entry,
     get_parent_cids = mem_get_parent_cids, list_tips = mem_list_tips, set_tips = mem_set_tips,
     advance_tips = mem_advance_tips, insert_entry_and_advance_tips = mem_insert_entry_and_advance_tips,
     tip_count = mem_tip_count\<rparr>"

section \<open>The contract\<close>

definition mem_tipset :: "'cid mem_log_storage \<Rightarrow> group_name \<Rightarrow> log_entry_id set" where
  "mem_tipset s g = set (mem_current s g)"

definition mem_ok :: "'cid mem_log_storage \<Rightarrow> bool" where
  "mem_ok s \<longleftrightarrow> (\<forall>g. distinct (mem_current s g))"

lemmas mem_defs = mem_ops_def mem_insert_entry_def mem_get_entry_def mem_has_entry_def
  mem_get_parent_cids_def mem_list_tips_def mem_insert_entry_and_advance_tips_def

lemma same_entry_refl [simp]: "same_entry e e"
  by (simp add: same_entry_def)

lemma mem_advance:
  assumes "mem_ok s"
  shows "\<exists>s'. mem_advance_tips s g ps t = (Inr (), s') \<and> mem_ok s' \<and> mem_entries s' = mem_entries s
    \<and> mem_tipset s' = (mem_tipset s)(g := mem_tipset s g - set ps \<union> {t})"
proof -
  let ?cur = "filter (\<lambda>i. i \<notin> set ps) (mem_current s g)"
  define new where "new = (if t \<notin> set ?cur then ?cur @ [t] else ?cur)"
  let ?s' = "s\<lparr>mem_tips := (mem_tips s)(g \<mapsto> new)\<rparr>"
  have cur: "mem_current ?s' h = (if h = g then new else mem_current s h)" for h
    by (simp add: mem_current_def)
  have new: "distinct new" "set new = set (mem_current s g) - set ps \<union> {t}"
    using assms by (auto simp: mem_ok_def new_def)
  then have "mem_ok ?s'" using assms by (simp add: mem_ok_def cur)
  moreover have "mem_tipset ?s' = (mem_tipset s)(g := mem_tipset s g - set ps \<union> {t})"
    using new by (simp add: mem_tipset_def cur fun_eq_iff)
  moreover have "mem_advance_tips s g ps t = (Inr (), ?s')"
    by (simp add: mem_advance_tips_def Let_def new_def)
  ultimately show ?thesis by (intro exI [of _ ?s']) simp
qed

interpretation mem: log_storage mem_ops mem_entries mem_tipset mem_ok "\<lambda>_. True"
proof unfold_locales
  fix s :: "'cid mem_log_storage" and g :: group_name
  assume "mem_ok s"
  then show "\<exists>ts. list_tips mem_ops s g = Inr ts \<and> set ts = mem_tipset s g \<and> distinct ts"
    by (simp add: mem_defs mem_tipset_def mem_ok_def)
next
  fix s :: "'cid mem_log_storage" and t :: log_entry_id and g ps
  assume "mem_ok s"
  then show "\<exists>s'. advance_tips mem_ops s g ps t = (Inr (), s') \<and> mem_ok s' \<and> mem_entries s' = mem_entries s
      \<and> mem_tipset s' = (mem_tipset s)(g := mem_tipset s g - set ps \<union> {t})"
    using mem_advance by (simp add: mem_defs)
next
  fix s :: "'cid mem_log_storage" and i e g ps
  assume ok: "mem_ok s" and none: "mem_entries s i = None"
  let ?t = "s\<lparr>mem_entries := (mem_entries s)(i \<mapsto> e)\<rparr>"
  have t: "mem_current ?t = mem_current s" "mem_tipset ?t = mem_tipset s"
    by (simp_all add: mem_current_def mem_tipset_def fun_eq_iff)
  with ok have "mem_ok ?t" by (simp add: mem_ok_def)
  from mem_advance [OF this, of g ps i] obtain s' where
    "mem_advance_tips ?t g ps i = (Inr (), s')" "mem_ok s'" "mem_entries s' = (mem_entries s)(i \<mapsto> e)"
    "mem_tipset s' = (mem_tipset s)(g := mem_tipset s g - set ps \<union> {i})" by (auto simp: t)
  with none show "\<exists>s' e'. insert_entry_and_advance_tips mem_ops s i e g ps i = (Inr (), s') \<and> mem_ok s'
      \<and> same_entry e e' \<and> mem_entries s' = (mem_entries s)(i \<mapsto> e')
      \<and> mem_tipset s' = (mem_tipset s)(g := mem_tipset s g - set ps \<union> {i})"
    by (intro exI [of _ s'] exI [of _ e]) (simp add: mem_defs)
qed (auto simp: mem_defs mem_ok_def mem_current_def mem_tipset_def fun_eq_iff intro!: exI)

end
