(* ===== verification/SqliteLog.thy ===== *)
theory SqliteLog
  imports GroupLog
begin

text \<open>
  The persistent log storage (\<^verbatim>\<open>crates/core/src/group_log/sqlite_storage.rs\<close>, with the tables of
  \<^verbatim>\<open>migrations/20260101_000001_log_storage.sql\<close>) and that it meets the storage contract. A
  table with a primary key is a map or a list of distinct rows; a transaction that returns early
  leaves the tables as they were. The order in which the engine returns rows is not specified:
  it is a parameter, and so is the text of its errors. Failures of the engine itself (disk,
  connection) are not modelled.
\<close>

record sqlx =
  scan_rows :: "bytes list \<Rightarrow> bytes list"
  unique_violation_text :: bytes

definition scan_permutes :: "sqlx \<Rightarrow> bool" where
  "scan_permutes q \<longleftrightarrow> (\<forall>rows. mset (scan_rows q rows) = mset rows)"

record sqlite_db =
  log_entries :: "bytes \<rightharpoonup> int \<times> bytes \<times> bytes"
  log_entry_parents :: "(bytes \<times> bytes) list"
  group_tips :: "(bytes \<times> bytes) list"

definition sqlite_empty :: sqlite_db where
  "sqlite_empty = \<lparr>log_entries = Map.empty, log_entry_parents = [], group_tips = []\<rparr>"

section \<open>Statements\<close>

text \<open>\<^verbatim>\<open>INSERT ... ON CONFLICT DO NOTHING\<close>.\<close>

definition insert_row :: "'r \<Rightarrow> 'r list \<Rightarrow> 'r list" where
  "insert_row r rows = (if r \<in> set rows then rows else rows @ [r])"

definition select_rows :: "sqlx \<Rightarrow> bytes \<Rightarrow> (bytes \<times> bytes) list \<Rightarrow> bytes list" where
  "select_rows q key rows = scan_rows q (map snd (filter (\<lambda>r. fst r = key) rows))"

definition delete_rows :: "bytes \<Rightarrow> bytes list \<Rightarrow> (bytes \<times> bytes) list \<Rightarrow> (bytes \<times> bytes) list" where
  "delete_rows key vals rows = filter (\<lambda>r. \<not> (fst r = key \<and> snd r \<in> set vals)) rows"

section \<open>Operations\<close>

definition i64_max :: int where
  "i64_max = 2 ^ 63 - 1"

definition show_bytes :: "bytes \<Rightarrow> bytes" where
  "show_bytes b = ''['' @ join '', '' (map (\<lambda>c. show_nat (of_char c)) b) @ '']''"

definition hlc_debug :: "hlc_timestamp \<Rightarrow> bytes" where
  "hlc_debug t = ''HlcTimestamp { wall_ms: '' @ show_nat (unat (wall_ms t)) @ '', logical: ''
     @ show_nat (unat (logical t)) @ '', node_id: '' @ show_bytes (node_id t) @ '' }''"

definition timestamp_column :: "hlc_timestamp \<Rightarrow> storage_error + int" where
  "timestamp_column t =
     (if uint (wall_ms t) \<le> i64_max then Inr (uint (wall_ms t))
      else Inl (Database (''HLC timestamp '' @ hlc_debug t @ '' exceeds i64::MAX ''
             @ [byte 226, byte 128, byte 148] @ '' cannot store'')))"

definition cid_from_bytes :: "'cid lib \<Rightarrow> bytes \<Rightarrow> storage_error + 'cid" where
  "cid_from_bytes L b = (case cid_try_from L b of
     Inl e \<Rightarrow> Inl (Database (''invalid CID bytes: '' @ e)) | Inr c \<Rightarrow> Inr c)"

definition sqlite_insert_entry ::
  "'cid lib \<Rightarrow> sqlite_db \<Rightarrow> log_entry_id \<Rightarrow> 'cid log_entry \<Rightarrow> (storage_error + unit) \<times> sqlite_db" where
  "sqlite_insert_entry L db i entry =
     (case timestamp_column (le_hlc_timestamp entry) of
        Inl e \<Rightarrow> (Inl e, db)
      | Inr ts \<Rightarrow>
          if log_entries db i \<noteq> None then (Inl (DuplicateEntry i), db)
          else (Inr (), db\<lparr>
                 log_entries := (log_entries db)(i \<mapsto> (ts, cid_to_bytes L (article_cid entry), operator_signature entry)),
                 log_entry_parents := foldl (\<lambda>rows c. insert_row (i, cid_to_bytes L c) rows)
                   (log_entry_parents db) (parent_cids entry)\<rparr>))"

definition sqlite_parents :: "'cid lib \<Rightarrow> sqlx \<Rightarrow> sqlite_db \<Rightarrow> log_entry_id \<Rightarrow> storage_error + 'cid list" where
  "sqlite_parents L q db i = collect_results (map (cid_from_bytes L) (select_rows q i (log_entry_parents db)))"

definition sqlite_get_entry ::
  "'cid lib \<Rightarrow> sqlx \<Rightarrow> sqlite_db \<Rightarrow> log_entry_id \<Rightarrow> storage_error + 'cid log_entry option" where
  "sqlite_get_entry L q db i =
     (case log_entries db i of
        None \<Rightarrow> Inr None
      | Some (ts, cid_bytes, sig) \<Rightarrow>
          and_then (cid_from_bytes L cid_bytes) (\<lambda>article.
          and_then (sqlite_parents L q db i) (\<lambda>parents.
          if ts < 0
          then Inl (Database (''corrupt hlc_timestamp -'' @ show_nat (nat (- ts)) @ '' in log entry: expected non-negative''))
          else Inr (Some \<lparr>le_hlc_timestamp = HlcTimestamp (word_of_int ts) 0 (replicate 8 (byte 0)),
                 article_cid = article, operator_signature = sig, parent_cids = parents\<rparr>))))"

definition sqlite_has_entry :: "sqlite_db \<Rightarrow> log_entry_id \<Rightarrow> storage_error + bool" where
  "sqlite_has_entry db i = Inr (log_entries db i \<noteq> None)"

definition sqlite_get_parent_cids ::
  "'cid lib \<Rightarrow> sqlx \<Rightarrow> sqlite_db \<Rightarrow> log_entry_id \<Rightarrow> storage_error + 'cid list option" where
  "sqlite_get_parent_cids L q db i =
     (if log_entries db i = None then Inr None
      else and_then (sqlite_parents L q db i) (\<lambda>parents. Inr (Some parents)))"

definition sqlite_tip_row :: "bytes \<Rightarrow> storage_error + log_entry_id" where
  "sqlite_tip_row b =
     (if length b \<noteq> 32 then Inl (Database (''corrupt tip_id: expected 32 bytes, got '' @ show_nat (length b)))
      else Inr b)"

definition sqlite_list_tips :: "sqlx \<Rightarrow> sqlite_db \<Rightarrow> group_name \<Rightarrow> storage_error + log_entry_id list" where
  "sqlite_list_tips q db g = collect_results (map sqlite_tip_row (select_rows q g (group_tips db)))"

definition sqlite_set_tips ::
  "sqlx \<Rightarrow> sqlite_db \<Rightarrow> group_name \<Rightarrow> log_entry_id list \<Rightarrow> (storage_error + unit) \<times> sqlite_db" where
  "sqlite_set_tips q db g ts =
     (if distinct ts
      then (Inr (), db\<lparr>group_tips := filter (\<lambda>r. fst r \<noteq> g) (group_tips db) @ map (\<lambda>t. (g, t)) ts\<rparr>)
      else (Inl (Database (unique_violation_text q)), db))"

definition sqlite_move_tips :: "sqlite_db \<Rightarrow> group_name \<Rightarrow> log_entry_id list \<Rightarrow> log_entry_id \<Rightarrow> sqlite_db" where
  "sqlite_move_tips db g parents_to_remove new_tip =
     (let rows = (if parents_to_remove \<noteq> [] then delete_rows g parents_to_remove (group_tips db) else group_tips db)
      in db\<lparr>group_tips := insert_row (g, new_tip) rows\<rparr>)"

definition sqlite_advance_tips ::
  "sqlite_db \<Rightarrow> group_name \<Rightarrow> log_entry_id list \<Rightarrow> log_entry_id \<Rightarrow> (storage_error + unit) \<times> sqlite_db" where
  "sqlite_advance_tips db g parents_to_remove new_tip =
     (Inr (), sqlite_move_tips db g parents_to_remove new_tip)"

definition sqlite_insert_entry_and_advance_tips ::
  "'cid lib \<Rightarrow> sqlite_db \<Rightarrow> log_entry_id \<Rightarrow> 'cid log_entry \<Rightarrow> group_name \<Rightarrow> log_entry_id list \<Rightarrow> log_entry_id
     \<Rightarrow> (storage_error + unit) \<times> sqlite_db" where
  "sqlite_insert_entry_and_advance_tips L db i entry g parents_to_remove new_tip =
     (case timestamp_column (le_hlc_timestamp entry) of
        Inl e \<Rightarrow> (Inl e, db)
      | Inr ts \<Rightarrow>
          if log_entries db i \<noteq> None then (Inl (DuplicateEntry i), db)
          else let tx = db\<lparr>
                 log_entries := (log_entries db)(i \<mapsto> (ts, cid_to_bytes L (article_cid entry), operator_signature entry)),
                 log_entry_parents := foldl (\<lambda>rows c. insert_row (i, cid_to_bytes L c) rows)
                   (log_entry_parents db) (parent_cids entry)\<rparr>
               in (Inr (), sqlite_move_tips tx g parents_to_remove new_tip))"

definition sqlite_tip_count :: "sqlite_db \<Rightarrow> group_name \<Rightarrow> storage_error + nat" where
  "sqlite_tip_count db g = Inr (length (filter (\<lambda>r. fst r = g) (group_tips db)))"

definition sqlite_ops :: "'cid lib \<Rightarrow> sqlx \<Rightarrow> (sqlite_db, 'cid) log_storage_ops" where
  "sqlite_ops L q = \<lparr>insert_entry = sqlite_insert_entry L, get_entry = sqlite_get_entry L q,
     has_entry = sqlite_has_entry, get_parent_cids = sqlite_get_parent_cids L q, list_tips = sqlite_list_tips q,
     set_tips = sqlite_set_tips q, advance_tips = sqlite_advance_tips,
     insert_entry_and_advance_tips = sqlite_insert_entry_and_advance_tips L, tip_count = sqlite_tip_count\<rparr>"

section \<open>What the tables represent\<close>

definition sqlite_ents :: "'cid lib \<Rightarrow> sqlx \<Rightarrow> sqlite_db \<Rightarrow> log_entry_id \<Rightarrow> 'cid log_entry option" where
  "sqlite_ents L q db i = (case sqlite_get_entry L q db i of Inl _ \<Rightarrow> None | Inr r \<Rightarrow> r)"

definition sqlite_tipset :: "sqlite_db \<Rightarrow> group_name \<Rightarrow> log_entry_id set" where
  "sqlite_tipset db g = {t. (g, t) \<in> set (group_tips db)}"

definition sqlite_ok :: "'cid lib \<Rightarrow> sqlite_db \<Rightarrow> bool" where
  "sqlite_ok L db \<longleftrightarrow>
     (\<forall>i ts a sig. log_entries db i = Some (ts, a, sig) \<longrightarrow> 0 \<le> ts \<and> ts \<le> i64_max \<and> a \<in> range (cid_to_bytes L))
     \<and> (\<forall>(i, p) \<in> set (log_entry_parents db). i \<in> dom (log_entries db) \<and> p \<in> range (cid_to_bytes L))
     \<and> distinct (log_entry_parents db) \<and> distinct (group_tips db) \<and> (\<forall>(g, t) \<in> set (group_tips db). length t = 32)"

definition sqlite_storable :: "'cid log_entry \<Rightarrow> bool" where
  "sqlite_storable e \<longleftrightarrow> uint (wall_ms (le_hlc_timestamp e)) \<le> i64_max"

section \<open>Lemmas\<close>

lemma sqlite_ok_empty: "sqlite_ok L sqlite_empty"
  by (simp add: sqlite_ok_def sqlite_empty_def)

lemma scan_set: "scan_permutes q \<Longrightarrow> set (scan_rows q rows) = set rows"
  unfolding scan_permutes_def by (metis set_mset_mset)

lemma scan_distinct: "scan_permutes q \<Longrightarrow> distinct (scan_rows q rows) \<longleftrightarrow> distinct rows"
  unfolding scan_permutes_def by (metis mset_eq_imp_distinct_iff)

lemma set_select: "scan_permutes q \<Longrightarrow> set (select_rows q k rows) = {v. (k, v) \<in> set rows}"
  by (force simp: select_rows_def scan_set)

lemma distinct_select:
  assumes "scan_permutes q" "distinct rows"
  shows "distinct (select_rows q k rows)"
proof -
  have "inj_on snd (set (filter (\<lambda>r. fst r = k) rows))" by (auto simp: inj_on_def)
  with assms show ?thesis by (simp add: select_rows_def scan_distinct distinct_map)
qed

lemma set_insert_row [simp]: "set (insert_row r rows) = insert r (set rows)"
  by (auto simp: insert_row_def)

lemma distinct_insert_row [simp]: "distinct (insert_row r rows) \<longleftrightarrow> distinct rows"
  by (simp add: insert_row_def)

lemma set_insert_parents:
  "set (foldl (\<lambda>rows c. insert_row (i, f c) rows) rows cs) = set rows \<union> (\<lambda>c. (i, f c)) ` set cs"
  by (induction cs arbitrary: rows) auto

lemma distinct_insert_parents:
  "distinct (foldl (\<lambda>rows c. insert_row (i, f c) rows) rows cs) \<longleftrightarrow> distinct rows"
  by (induction cs arbitrary: rows) auto

lemma filter_insert_parents:
  "j \<noteq> i \<Longrightarrow> filter (\<lambda>r. fst r = j) (foldl (\<lambda>rows c. insert_row (i, f c) rows) rows cs)
     = filter (\<lambda>r. fst r = j) rows"
  by (induction cs arbitrary: rows) (auto simp: insert_row_def)

definition decode_cid :: "'cid lib \<Rightarrow> bytes \<Rightarrow> 'cid" where
  "decode_cid L b = projr (cid_try_from L b)"

lemma decode_cid_to_bytes [simp]: "cid_parses L \<Longrightarrow> decode_cid L (cid_to_bytes L c) = c"
  by (simp add: cid_parses_def decode_cid_def)

lemma cid_from_bytes_range: "cid_parses L \<Longrightarrow> b \<in> range (cid_to_bytes L) \<Longrightarrow> cid_from_bytes L b = Inr (decode_cid L b)"
  by (auto simp: cid_parses_def cid_from_bytes_def decode_cid_def)

definition row_entry :: "'cid lib \<Rightarrow> bytes list \<Rightarrow> int \<times> bytes \<times> bytes \<Rightarrow> 'cid log_entry" where
  "row_entry L ps = (\<lambda>(ts, a, sig). \<lparr>le_hlc_timestamp = HlcTimestamp (word_of_int ts) 0 (replicate 8 (byte 0)),
     article_cid = decode_cid L a, operator_signature = sig, parent_cids = map (decode_cid L) ps\<rparr>)"

lemma sqlite_parents_total:
  assumes "cid_parses L" "scan_permutes q" "sqlite_ok L db"
  shows "sqlite_parents L q db i = Inr (map (decode_cid L) (select_rows q i (log_entry_parents db)))"
proof -
  have "p \<in> range (cid_to_bytes L)" if "p \<in> set (select_rows q i (log_entry_parents db))" for p
    using that assms(3) unfolding set_select [OF assms(2)] sqlite_ok_def by fastforce
  then have "map (cid_from_bytes L) (select_rows q i (log_entry_parents db))
      = map Inr (map (decode_cid L) (select_rows q i (log_entry_parents db)))"
    by (simp add: cid_from_bytes_range [OF assms(1)])
  then show ?thesis by (simp only: sqlite_parents_def collect_results_map_Inr)
qed

lemma sqlite_get_entry_total:
  assumes "cid_parses L" "scan_permutes q" "sqlite_ok L db"
  shows "sqlite_get_entry L q db i
    = Inr (map_option (row_entry L (select_rows q i (log_entry_parents db))) (log_entries db i))"
proof (cases "log_entries db i")
  case None
  then show ?thesis by (simp add: sqlite_get_entry_def)
next
  case (Some row)
  obtain ts a sig where row: "row = (ts, a, sig)" by (cases row)
  with Some assms(3) have "0 \<le> ts" "a \<in> range (cid_to_bytes L)" unfolding sqlite_ok_def by blast+
  then show ?thesis
    by (simp add: sqlite_get_entry_def Some row sqlite_parents_total [OF assms] row_entry_def
        cid_from_bytes_range [OF assms(1)] and_then_simps)
qed

lemma sqlite_ents_eq:
  assumes "cid_parses L" "scan_permutes q" "sqlite_ok L db"
  shows "sqlite_ents L q db i = map_option (row_entry L (select_rows q i (log_entry_parents db))) (log_entries db i)"
  by (simp add: sqlite_ents_def sqlite_get_entry_total [OF assms])

lemma timestamp_column_storable:
  "sqlite_storable e \<Longrightarrow> timestamp_column (le_hlc_timestamp e) = Inr (uint (wall_ms (le_hlc_timestamp e)))"
  "\<not> sqlite_storable e \<Longrightarrow> \<exists>m. timestamp_column (le_hlc_timestamp e) = Inl (Database m)"
  by (simp_all add: timestamp_column_def sqlite_storable_def)

definition with_entry :: "'cid lib \<Rightarrow> sqlite_db \<Rightarrow> log_entry_id \<Rightarrow> 'cid log_entry \<Rightarrow> sqlite_db" where
  "with_entry L db i e = db\<lparr>
     log_entries := (log_entries db)(i \<mapsto> (uint (wall_ms (le_hlc_timestamp e)), cid_to_bytes L (article_cid e), operator_signature e)),
     log_entry_parents := foldl (\<lambda>rows c. insert_row (i, cid_to_bytes L c) rows) (log_entry_parents db) (parent_cids e)\<rparr>"

lemma with_entry_ok:
  assumes "sqlite_ok L db" "sqlite_storable e"
  shows "sqlite_ok L (with_entry L db i e)"
  using assms unfolding sqlite_ok_def sqlite_storable_def with_entry_def
  by (auto simp: set_insert_parents distinct_insert_parents split: if_splits)

lemma with_entry_ents:
  assumes "cid_parses L" "scan_permutes q" "sqlite_ok L db" "sqlite_storable e" "log_entries db i = None"
  shows "\<exists>e'. same_entry e e' \<and> sqlite_ents L q (with_entry L db i e) = (sqlite_ents L q db)(i \<mapsto> e')"
proof -
  let ?db = "with_entry L db i e"
  have ok: "sqlite_ok L ?db" by (rule with_entry_ok [OF assms(3,4)])
  let ?rows = "select_rows q i (log_entry_parents ?db)"
  let ?e' = "row_entry L ?rows (uint (wall_ms (le_hlc_timestamp e)), cid_to_bytes L (article_cid e), operator_signature e)"
  have "(i, p) \<notin> set (log_entry_parents db)" for p
    using assms(3,5) unfolding sqlite_ok_def by fastforce
  then have "set ?rows = cid_to_bytes L ` set (parent_cids e)"
    by (auto simp: set_select [OF assms(2)] with_entry_def set_insert_parents)
  then have "set (map (decode_cid L) ?rows) = set (parent_cids e)"
    by (simp add: image_image assms(1))
  then have "same_entry e ?e'" by (simp add: same_entry_def row_entry_def assms(1))
  moreover have "sqlite_ents L q ?db j = ((sqlite_ents L q db)(i \<mapsto> ?e')) j" for j
  proof (cases "j = i")
    case True
    then show ?thesis by (simp add: sqlite_ents_eq [OF assms(1,2) ok]) (simp add: with_entry_def)
  next
    case False
    then have "select_rows q j (log_entry_parents ?db) = select_rows q j (log_entry_parents db)"
      by (simp add: select_rows_def with_entry_def filter_insert_parents)
    with False show ?thesis
      by (simp add: sqlite_ents_eq [OF assms(1,2) ok] sqlite_ents_eq [OF assms(1-3)]) (simp add: with_entry_def)
  qed
  ultimately show ?thesis by blast
qed

lemma move_tips_frame [simp]:
  "log_entries (sqlite_move_tips db g ps t) = log_entries db"
  "log_entry_parents (sqlite_move_tips db g ps t) = log_entry_parents db"
  by (simp_all add: sqlite_move_tips_def Let_def)

lemma move_tips:
  assumes "sqlite_ok L db" "length t = 32"
  shows "sqlite_ok L (sqlite_move_tips db g ps t)"
    "sqlite_ents L q (sqlite_move_tips db g ps t) = sqlite_ents L q db"
    "sqlite_tipset (sqlite_move_tips db g ps t) = (sqlite_tipset db)(g := sqlite_tipset db g - set ps \<union> {t})"
proof -
  let ?rows = "if ps \<noteq> [] then delete_rows g ps (group_tips db) else group_tips db"
  have rows: "set ?rows \<subseteq> set (group_tips db)" "distinct ?rows"
    using assms(1) by (auto simp: delete_rows_def sqlite_ok_def)
  show "sqlite_ok L (sqlite_move_tips db g ps t)"
    using assms rows unfolding sqlite_ok_def sqlite_move_tips_def Let_def by auto
  show "sqlite_ents L q (sqlite_move_tips db g ps t) = sqlite_ents L q db"
    unfolding fun_eq_iff sqlite_ents_def sqlite_get_entry_def sqlite_parents_def move_tips_frame by simp
  show "sqlite_tipset (sqlite_move_tips db g ps t) = (sqlite_tipset db)(g := sqlite_tipset db g - set ps \<union> {t})"
    by (auto simp: fun_eq_iff sqlite_tipset_def sqlite_move_tips_def Let_def delete_rows_def)
qed

lemma with_entry_tipset: "sqlite_tipset (with_entry L db i e) = sqlite_tipset db"
  by (simp add: fun_eq_iff sqlite_tipset_def with_entry_def)

lemma sqlite_ents_None:
  assumes "cid_parses L" "scan_permutes q" "sqlite_ok L db"
  shows "sqlite_ents L q db i = None \<longleftrightarrow> log_entries db i = None"
  by (simp add: sqlite_ents_eq [OF assms])

lemma sqlite_insert_eq:
  assumes "sqlite_storable e" "log_entries db i = None"
  shows "sqlite_insert_entry L db i e = (Inr (), with_entry L db i e)"
    "sqlite_insert_entry_and_advance_tips L db i e g ps t = (Inr (), sqlite_move_tips (with_entry L db i e) g ps t)"
  using assms
  by (simp_all add: sqlite_insert_entry_def sqlite_insert_entry_and_advance_tips_def
      timestamp_column_storable(1) with_entry_def Let_def)

lemma sqlite_list_tips_total:
  assumes "scan_permutes q" "sqlite_ok L db"
  shows "sqlite_list_tips q db g = Inr (select_rows q g (group_tips db))"
proof -
  have "length t = 32" if "t \<in> set (select_rows q g (group_tips db))" for t
    using that assms(2) unfolding set_select [OF assms(1)] sqlite_ok_def by fastforce
  then have "map sqlite_tip_row (select_rows q g (group_tips db)) = map Inr (select_rows q g (group_tips db))"
    by (simp add: sqlite_tip_row_def)
  then show ?thesis by (simp only: sqlite_list_tips_def collect_results_map_Inr)
qed

text \<open>The tables meet the storage contract, whatever the crates and the engine do within their laws.\<close>

lemma sqlite_log_storage:
  assumes "cid_parses L" "scan_permutes q"
  shows "log_storage (sqlite_ops L q) (sqlite_ents L q) sqlite_tipset (sqlite_ok L) sqlite_storable"
proof
  fix db :: sqlite_db and i g ps and e :: "'a log_entry"
  assume ok: "sqlite_ok L db"
  note None_iff = sqlite_ents_None [OF assms ok]
  show "has_entry (sqlite_ops L q) db i = Inr (sqlite_ents L q db i \<noteq> None)"
    by (simp add: sqlite_ops_def sqlite_has_entry_def None_iff)
  show "get_entry (sqlite_ops L q) db i = Inr (sqlite_ents L q db i)"
    by (simp add: sqlite_ops_def sqlite_ents_def sqlite_get_entry_total [OF assms ok])
  show "get_parent_cids (sqlite_ops L q) db i = Inr (map_option parent_cids (sqlite_ents L q db i))"
    by (auto simp: sqlite_ops_def sqlite_get_parent_cids_def sqlite_parents_total [OF assms ok]
        sqlite_ents_eq [OF assms ok] row_entry_def and_then_simps split: option.splits)
  show "\<exists>ts. list_tips (sqlite_ops L q) db g = Inr ts \<and> set ts = sqlite_tipset db g \<and> distinct ts"
    using ok by (simp add: sqlite_ops_def sqlite_list_tips_total [OF assms(2) ok] set_select [OF assms(2)]
        sqlite_tipset_def distinct_select [OF assms(2)] sqlite_ok_def)
  show "insert_entry (sqlite_ops L q) db i e = (Inl (DuplicateEntry i), db)"
    if "sqlite_storable e" "sqlite_ents L q db i \<noteq> None"
    using that by (simp add: sqlite_ops_def sqlite_insert_entry_def timestamp_column_storable(1) None_iff)
  show "\<exists>m. insert_entry (sqlite_ops L q) db i e = (Inl (Database m), db)" if "\<not> sqlite_storable e"
    using timestamp_column_storable(2) [OF that] by (auto simp: sqlite_ops_def sqlite_insert_entry_def)
  show "insert_entry_and_advance_tips (sqlite_ops L q) db i e g ps t = (Inl (DuplicateEntry i), db)"
    if "sqlite_storable e" "sqlite_ents L q db i \<noteq> None" for t
    using that by (simp add: sqlite_ops_def sqlite_insert_entry_and_advance_tips_def timestamp_column_storable(1) None_iff)
  show "\<exists>m. insert_entry_and_advance_tips (sqlite_ops L q) db i e g ps t = (Inl (Database m), db)"
    if "\<not> sqlite_storable e" for t
    using timestamp_column_storable(2) [OF that]
    by (auto simp: sqlite_ops_def sqlite_insert_entry_and_advance_tips_def)
  show "\<exists>s'. advance_tips (sqlite_ops L q) db g ps t = (Inr (), s') \<and> sqlite_ok L s'
      \<and> sqlite_ents L q s' = sqlite_ents L q db
      \<and> sqlite_tipset s' = (sqlite_tipset db)(g := sqlite_tipset db g - set ps \<union> {t})"
    if "length t = 32" for t
    using move_tips [OF ok that] by (simp add: sqlite_ops_def sqlite_advance_tips_def)
  show "\<exists>s' e'. insert_entry (sqlite_ops L q) db i e = (Inr (), s') \<and> sqlite_ok L s' \<and> same_entry e e'
      \<and> sqlite_ents L q s' = (sqlite_ents L q db)(i \<mapsto> e') \<and> sqlite_tipset s' = sqlite_tipset db"
    if "sqlite_storable e" "sqlite_ents L q db i = None"
    using with_entry_ents [OF assms ok that(1)] with_entry_ok [OF ok that(1)] that(2)
    by (simp add: sqlite_ops_def sqlite_insert_eq [OF that(1)] None_iff with_entry_tipset)
  show "\<exists>s' e'. insert_entry_and_advance_tips (sqlite_ops L q) db i e g ps i = (Inr (), s') \<and> sqlite_ok L s'
      \<and> same_entry e e' \<and> sqlite_ents L q s' = (sqlite_ents L q db)(i \<mapsto> e')
      \<and> sqlite_tipset s' = (sqlite_tipset db)(g := sqlite_tipset db g - set ps \<union> {i})"
    if "length i = 32" "sqlite_storable e" "sqlite_ents L q db i = None"
  proof -
    note ok' = with_entry_ok [OF ok that(2), of i]
    show ?thesis
      using with_entry_ents [OF assms ok that(2)] that(3) move_tips [OF ok' that(1)]
      by (simp add: sqlite_ops_def sqlite_insert_eq [OF that(2)] None_iff with_entry_tipset)
  qed
qed

text \<open>A concrete engine: it returns the rows in reverse.\<close>

definition demo_sqlx :: sqlx where
  "demo_sqlx = \<lparr>scan_rows = rev, unique_violation_text = ''UNIQUE constraint failed''\<rparr>"

lemma demo_scan: "scan_permutes demo_sqlx"
  by (simp add: scan_permutes_def demo_sqlx_def)


end
