(* ===== verification/GroupLogProps.thy ===== *)
theory GroupLogProps
  imports MemLog SqliteLog
begin

text \<open>
  What appending and verification guarantee over the two storages: the contract's lemmas at the
  persistent tables and at the in-memory maps.
\<close>

section \<open>Concrete states\<close>

definition demo_entry :: "bytes \<Rightarrow> log_entry_id list \<Rightarrow> bytes log_entry" where
  "demo_entry art parents = \<lparr>le_hlc_timestamp = HlcTimestamp 7 0 ''node-one'', article_cid = art,
     operator_signature = replicate 64 CHR ''s'', parent_cids = parents\<rparr>"

lemma sqlite_empty_ents: "sqlite_ents L q sqlite_empty = Map.empty"
  by (simp add: fun_eq_iff sqlite_ents_def sqlite_get_entry_def sqlite_empty_def)

lemma sqlite_empty_tipset: "sqlite_tipset sqlite_empty = (\<lambda>_. {})"
  by (simp add: fun_eq_iff sqlite_tipset_def sqlite_empty_def)

lemma log_ok_empty: "log_ok L Map.empty (\<lambda>_. {})"
  by (simp add: log_ok_def parent_closed_def)

lemma demo_storable: "sqlite_storable (demo_entry a ps)"
  by (simp add: sqlite_storable_def demo_entry_def i64_max_def)

section \<open>Appending\<close>



text \<open>
  C2. Any number of appends running at the same time, to any groups, their reads and commits
  interleaved in any order. From a well-formed log without orphans every state that can arise is
  again well-formed, every stored entry is reachable from a tip of some group (no orphan), and
  every task that reported success has its entry stored.
\<close>

theorem sqlite_concurrent_appends_safe:
  assumes "cid_parses L" "scan_permutes q" "sha256_32 L"
    and start: "sqlite_ok L db" "log_ok L (sqlite_ents L q db) (sqlite_tipset db)"
      "no_orphans L (sqlite_ents L q db) (sqlite_tipset db)"
    and tasks: "\<forall>(g, e) \<in> set work. sqlite_storable e"
    and run: "(append_step L (sqlite_ops L q))\<^sup>*\<^sup>* (db, map (\<lambda>(g, e). Waiting g e) work) (db', ts)"
  shows "sqlite_ok L db' \<and> log_ok L (sqlite_ents L q db') (sqlite_tipset db')
    \<and> no_orphans L (sqlite_ents L q db') (sqlite_tipset db')
    \<and> (\<forall>g e i. Finished g e (Inr i) \<in> set ts \<longrightarrow> i = compute_entry_id L e \<and> i \<in> dom (sqlite_ents L q db'))"
proof -
  have st: "log_storage (sqlite_ops L q) (sqlite_ents L q) sqlite_tipset (sqlite_ok L) sqlite_storable"
    by (rule sqlite_log_storage [OF assms(1,2)])
  note inv_def = log_storage.tasks_inv_def [OF st]
  have "log_storage.tasks_inv (sqlite_ents L q) sqlite_tipset (sqlite_ok L) sqlite_storable L
      (db, map (\<lambda>(g, e). Waiting g e) work)"
    using start tasks by (auto simp: inv_def task_ok_def)
  from log_storage.tasks_inv_run [OF st run assms(3) this] show ?thesis
    by (auto simp: inv_def task_ok_def)
qed

lemma genesis_check:
  "append_check demo_lib (sqlite_ops demo_lib demo_sqlx) sqlite_empty (demo_entry a []) = Inr (Some [])"
  by (simp add: append_check_def sqlite_ops_def sqlite_has_entry_def sqlite_empty_def demo_entry_def)

theorem sqlite_concurrent_appends_safe_witness:
  "\<exists>db' r1 r2. (append_step demo_lib (sqlite_ops demo_lib demo_sqlx))\<^sup>*\<^sup>*
       (sqlite_empty, map (\<lambda>(g, e). Waiting g e) [(''g'', demo_entry ''a'' []), (''g'', demo_entry ''b'' [])])
       (db', [Finished ''g'' (demo_entry ''a'' []) r1, Finished ''g'' (demo_entry ''b'' []) r2])
     \<and> log_ok demo_lib (sqlite_ents demo_lib demo_sqlx db') (sqlite_tipset db')
     \<and> no_orphans demo_lib (sqlite_ents demo_lib demo_sqlx db') (sqlite_tipset db')"
proof -
  let ?a = "demo_entry ''a'' []" and ?b = "demo_entry ''b'' []" and ?S = "sqlite_ops demo_lib demo_sqlx"
  let ?step = "append_step demo_lib ?S"
  obtain r1 db1 where c1: "append_commit demo_lib ?S sqlite_empty ''g'' ?a [] = (r1, db1)" by fastforce
  obtain r2 db2 where c2: "append_commit demo_lib ?S db1 ''g'' ?b [] = (r2, db2)" by fastforce
  have 1: "?step (sqlite_empty, [Waiting ''g'' ?a, Waiting ''g'' ?b]) (sqlite_empty, [Checked ''g'' ?a [], Waiting ''g'' ?b])"
    using check_ready [of 0 "[Waiting ''g'' ?a, Waiting ''g'' ?b]" "''g''" ?a, OF _ _ genesis_check] by simp
  have 2: "?step (sqlite_empty, [Checked ''g'' ?a [], Waiting ''g'' ?b]) (sqlite_empty, [Checked ''g'' ?a [], Checked ''g'' ?b []])"
    using check_ready [of 1 "[Checked ''g'' ?a [], Waiting ''g'' ?b]" "''g''" ?b, OF _ _ genesis_check] by simp
  have 3: "?step (sqlite_empty, [Checked ''g'' ?a [], Checked ''g'' ?b []]) (db1, [Finished ''g'' ?a r1, Checked ''g'' ?b []])"
    using commit [of 0 "[Checked ''g'' ?a [], Checked ''g'' ?b []]" "''g''" ?a, OF _ _ c1] by simp
  have 4: "?step (db1, [Finished ''g'' ?a r1, Checked ''g'' ?b []]) (db2, [Finished ''g'' ?a r1, Finished ''g'' ?b r2])"
    using commit [of 1 "[Finished ''g'' ?a r1, Checked ''g'' ?b []]" "''g''" ?b, OF _ _ c2] by simp
  have run: "?step\<^sup>*\<^sup>* (sqlite_empty, map (\<lambda>(g, e). Waiting g e) [(''g'', ?a), (''g'', ?b)])
      (db2, [Finished ''g'' ?a r1, Finished ''g'' ?b r2])"
    using 1 2 3 4 by (simp add: converse_rtranclp_into_rtranclp)
  have "log_ok demo_lib (sqlite_ents demo_lib demo_sqlx db2) (sqlite_tipset db2)
      \<and> no_orphans demo_lib (sqlite_ents demo_lib demo_sqlx db2) (sqlite_tipset db2)"
    using sqlite_concurrent_appends_safe [OF demo_cid_parses demo_scan demo_sha256_32 sqlite_ok_empty _ _ _ run]
    by (simp add: sqlite_empty_ents sqlite_empty_tipset log_ok_empty no_orphans_def demo_storable)
  with run show ?thesis by blast
qed

text \<open>
  Two appends that both looked at the log before either wrote: whichever commits second does
  not undo the first. Both entries are tips of the group afterwards, and only their parents were
  retired.
\<close>

lemma sqlite_concurrent_tips_survive:
  assumes "cid_parses L" "scan_permutes q" "sha256_32 L"
    and ok: "sqlite_ok L db" "sqlite_storable e" "sqlite_storable f" "log_ok L (sqlite_ents L q db) (sqlite_tipset db)"
    and c: "append_check L (sqlite_ops L q) db e = Inr (Some ps)" "append_check L (sqlite_ops L q) db f = Inr (Some qs)"
    and ne: "compute_entry_id L e \<noteq> compute_entry_id L f"
  shows "case append_commit L (sqlite_ops L q) db g e ps of (r, db1) \<Rightarrow>
     case append_commit L (sqlite_ops L q) db1 g f qs of (r', db2) \<Rightarrow>
       r = Inr (compute_entry_id L e) \<and> r' = Inr (compute_entry_id L f)
       \<and> sqlite_tipset db2 g = (sqlite_tipset db g - parents_of L e - parents_of L f)
            \<union> {compute_entry_id L e, compute_entry_id L f}"
proof -
  let ?M = "sqlite_ents L q"
  have st: "log_storage (sqlite_ops L q) ?M sqlite_tipset (sqlite_ok L) sqlite_storable"
    by (rule sqlite_log_storage [OF assms(1,2)])
  note ce = log_storage.append_check_cases [OF st ok(1) c(1)]
  note cf = log_storage.append_check_cases [OF st ok(1) c(2)]
  obtain r db1 where run1: "append_commit L (sqlite_ops L q) db g e ps = (r, db1)" by fastforce
  obtain r' db2 where run2: "append_commit L (sqlite_ops L q) db1 g f qs = (r', db2)" by fastforce
  note k1 = log_storage.append_commit_keeps [OF st assms(3) ok(1,2,4) ce(2,3) run1]
  have sub: "dom (?M db) \<subseteq> dom (?M db1)" using k1(4) by blast
  have f1: "parents_stored L (?M db1) f" using cf(3) sub unfolding parents_stored_def by blast
  have f2: "?M db1 (compute_entry_id L f) = None" using k1(4) cf(1) ne by (metis domIff insert_iff)
  note k2 = log_storage.append_commit_keeps [OF st assms(3) k1(2) ok(3) k1(3) cf(2) f1 run2]
  have "compute_entry_id L e \<notin> parents_of L f"
    using cf(3) ce(1) unfolding parents_of_def parents_stored_def by fastforce
  then show ?thesis using k1(1) k2(1) k1(6) [OF ce(1)] k2(6) [OF f2] by (auto simp: run1 run2)
qed

lemma demo_ids_differ: "compute_entry_id demo_lib (demo_entry ''a'' []) \<noteq> compute_entry_id demo_lib (demo_entry ''b'' [])"
  by (simp add: compute_entry_id_def entry_id_bytes_def demo_lib_def demo_entry_def to_be_bytes_def)

section \<open>Verification\<close>

lemma mem_append_entries:
  assumes "log_append L mem_ops s g e = (r, s')"
  shows "mem_entries s' = mem_entries s \<or> mem_entries s' = (mem_entries s)(compute_entry_id L e \<mapsto> e)"
  using assms
  by (auto simp: log_append_def append_commit_def mem_ops_def mem_insert_entry_and_advance_tips_def
      mem_insert_entry_def mem_advance_tips_def Let_def
      split: sum.splits option.splits if_splits)


definition demo_signed :: "bytes log_entry" where
  "demo_signed = (demo_entry ''a'' [])\<lparr>operator_signature :=
     take 64 (''key'' @ log_entry_canonical_bytes demo_lib 7 ''a'' [] @ replicate 64 (byte 0))\<rparr>"

lemma demo_signed_verifies:
  "verify_entry demo_lib mem_ops demo_signed (from_entry demo_lib demo_signed) mem_new ''key'' = Inr ()"
proof -
  have "mem_ok (mem_new :: bytes mem_log_storage)" by (simp add: mem_ok_def mem_new_def mem_current_def)
  then show ?thesis
    by (simp add: mem.verify_entry_iff signed_by_def demo_signed_def demo_entry_def)
      (simp add: demo_lib_def)
qed


text \<open>
  C11. The persistent storage keeps only the wall-clock part of a timestamp: an entry reads back
  with logical counter 0 and an all-zero node. So over it the monotonicity check accepts an entry
  with the same millisecond as its parent and a smaller logical counter, which the same check
  over the in-memory storage rejects.
\<close>

theorem sqlite_verify_ignores_logical:
  assumes "cid_parses L" "scan_permutes q" "sqlite_ok L db" "log_entries db p = None" "digest32 L c = Some p"
    and parent: "le_hlc_timestamp f = HlcTimestamp w m n" "sqlite_storable f"
    and child: "le_hlc_timestamp e = HlcTimestamp w l n'" "0 < l" "l < m"
  shows "verify_parent L (sqlite_ops L q) (snd (insert_entry (sqlite_ops L q) db p f)) e c = Inr ()
    \<and> verify_parent L mem_ops (snd (insert_entry mem_ops mem_new p f)) e c
        = Inl (HlcNotMonotonic (le_hlc_timestamp e) (le_hlc_timestamp f))"
proof
  let ?db = "with_entry L db p f"
  have ok: "sqlite_ok L ?db" by (rule with_entry_ok [OF assms(3) parent(2)])
  have row: "log_entries ?db p = Some (uint w, cid_to_bytes L (article_cid f), operator_signature f)"
    by (simp add: with_entry_def parent(1))
  have "get_entry (sqlite_ops L q) ?db p
      = Inr (Some (row_entry L (select_rows q p (log_entry_parents ?db)) (uint w, cid_to_bytes L (article_cid f), operator_signature f)))"
    by (simp add: sqlite_ops_def sqlite_get_entry_total [OF assms(1,2) ok] row)
  moreover have "insert_entry (sqlite_ops L q) db p f = (Inr (), ?db)"
    by (simp add: sqlite_ops_def sqlite_insert_eq(1) [OF parent(2) assms(4)])
  moreover have "\<not> HlcTimestamp w l n' \<le> HlcTimestamp w 0 z" for z
    using child(2) by (simp add: less_eq_hlc_timestamp_def word_gt_0)
  ultimately show "verify_parent L (sqlite_ops L q) (snd (insert_entry (sqlite_ops L q) db p f)) e c = Inr ()"
    by (simp add: verify_parent_def assms(5) row_entry_def child(1))
  have "HlcTimestamp w l n' \<le> HlcTimestamp w m n"
    using child(3) by (simp add: less_eq_hlc_timestamp_def)
  then show "verify_parent L mem_ops (snd (insert_entry mem_ops mem_new p f)) e c
      = Inl (HlcNotMonotonic (le_hlc_timestamp e) (le_hlc_timestamp f))"
    by (simp add: verify_parent_def assms(5) mem_ops_def mem_insert_entry_def mem_new_def mem_get_entry_def child(1) parent(1))
qed

theorem sqlite_verify_ignores_logical_witness:
  "let c = replicate 32 CHR ''p'';
       f = (demo_entry ''a'' [])\<lparr>le_hlc_timestamp := HlcTimestamp 7 2 ''node-one''\<rparr>;
       e = (demo_entry ''b'' [c])\<lparr>le_hlc_timestamp := HlcTimestamp 7 1 ''node-one''\<rparr>
   in verify_parent demo_lib (sqlite_ops demo_lib demo_sqlx) (snd (insert_entry (sqlite_ops demo_lib demo_sqlx) sqlite_empty c f)) e c
        = Inr ()
      \<and> verify_parent demo_lib mem_ops (snd (insert_entry mem_ops mem_new c f)) e c
        = Inl (HlcNotMonotonic (HlcTimestamp 7 1 ''node-one'') (HlcTimestamp 7 2 ''node-one''))"
proof -
  let ?c = "replicate 32 CHR ''p''"
  let ?f = "(demo_entry ''a'' [])\<lparr>le_hlc_timestamp := HlcTimestamp 7 2 ''node-one''\<rparr>"
  let ?e = "(demo_entry ''b'' [?c])\<lparr>le_hlc_timestamp := HlcTimestamp 7 1 ''node-one''\<rparr>"
  have "log_entries sqlite_empty ?c = None" "digest32 demo_lib ?c = Some ?c" "sqlite_storable ?f"
    "le_hlc_timestamp ?f = HlcTimestamp 7 2 ''node-one''" "le_hlc_timestamp ?e = HlcTimestamp 7 1 ''node-one''"
    by (simp_all add: sqlite_empty_def digest32_def demo_lib_def sqlite_storable_def i64_max_def)
  then show ?thesis
    using sqlite_verify_ignores_logical [OF demo_cid_parses demo_scan sqlite_ok_empty, of ?c ?c ?f 7 2 "''node-one''" ?e 1 "''node-one''"]
    by (simp add: Let_def)
qed

end
