(* ===== verification/Reconcile.thy ===== *)
theory Reconcile
  imports GroupLogProps
begin

text \<open>
  Reconciling the tips of two nodes (\<^verbatim>\<open>crates/core/src/group_log/reconcile.rs\<close>): which remote tips
  are missing here, and a bounded breadth-first walk of the local DAG for what the remote may lack.
\<close>

definition MAX_HAVE :: nat where
  "MAX_HAVE = 1000"

definition MAX_BFS_VISITS :: nat where
  "MAX_BFS_VISITS = 5000"

record reconcile_result =
  want :: "log_entry_id list"
  haves :: "log_entry_id list"
  partial_have :: bool

fun want_loop :: "('s, 'cid) log_storage_ops \<Rightarrow> 's \<Rightarrow> log_entry_id list \<Rightarrow> storage_error + log_entry_id list" where
  "want_loop S s [] = Inr []"
| "want_loop S s (t # ts) =
     (case has_entry S s t of
        Inl e \<Rightarrow> Inl e
      | Inr found \<Rightarrow> and_then (want_loop S s ts) (\<lambda>w. Inr (if found then w else t # w)))"

text \<open>The parents of an entry that are pushed on the queue; malformed ones are passed over.\<close>

definition parent_digests :: "'cid lib \<Rightarrow> 'cid list \<Rightarrow> log_entry_id list" where
  "parent_digests L cs = List.map_filter (digest32 L) cs"

text \<open>The loop, with its local variables: the result is \<^verbatim>\<open>have\<close> and \<^verbatim>\<open>partial_have\<close>.\<close>

function reconcile_loop ::
  "'cid lib \<Rightarrow> ('s, 'cid) log_storage_ops \<Rightarrow> 's \<Rightarrow> log_entry_id set \<Rightarrow> log_entry_id list \<Rightarrow> log_entry_id set
     \<Rightarrow> log_entry_id list \<Rightarrow> nat \<Rightarrow> storage_error + log_entry_id list \<times> bool" where
  "reconcile_loop L S s remote_set hv visited [] visits = Inr (hv, False)"
| "reconcile_loop L S s remote_set hv visited (entry_id # queue) visits =
     (if entry_id \<in> visited then reconcile_loop L S s remote_set hv visited queue visits
      else if Suc visits \<ge> MAX_BFS_VISITS then Inr (hv, True)
      else let hv' = (if entry_id \<notin> remote_set then hv @ [entry_id] else hv)
           in if entry_id \<notin> remote_set \<and> length hv' \<ge> MAX_HAVE then Inr (hv', queue \<noteq> [])
              else case get_parent_cids S s entry_id of
                     Inl e \<Rightarrow> Inl e
                   | Inr None \<Rightarrow> reconcile_loop L S s remote_set hv' (insert entry_id visited) queue (Suc visits)
                   | Inr (Some cs) \<Rightarrow>
                       reconcile_loop L S s remote_set hv' (insert entry_id visited)
                         (queue @ parent_digests L cs) (Suc visits))"
  by pat_completeness auto
termination
  by (relation "measures [\<lambda>(_, _, _, _, _, _, _, visits). MAX_BFS_VISITS - visits, \<lambda>(_, _, _, _, _, _, queue, _). length queue]")
    auto

declare reconcile_loop.simps [simp del]

definition reconcile ::
  "'cid lib \<Rightarrow> ('s, 'cid) log_storage_ops \<Rightarrow> 's \<Rightarrow> group_name \<Rightarrow> log_entry_id list \<Rightarrow> storage_error + reconcile_result" where
  "reconcile L S s g remote_tips =
     and_then (want_loop S s remote_tips) (\<lambda>w.
     and_then (list_tips S s g) (\<lambda>tips.
     and_then (reconcile_loop L S s (set remote_tips) [] {} tips 0) (\<lambda>(h, p).
     Inr \<lparr>want = w, haves = h, partial_have = p\<rparr>)))"

section \<open>Lemmas\<close>

lemma set_parent_digests: "set (parent_digests L (parent_cids e)) = parents_of L e"
  by (force simp: parent_digests_def parents_of_def List.map_filter_def image_iff)

text \<open>What holds whenever the loop is at its head.\<close>

definition bfs_inv ::
  "'cid lib \<Rightarrow> (log_entry_id \<rightharpoonup> 'cid log_entry) \<Rightarrow> log_entry_id set \<Rightarrow> log_entry_id set \<Rightarrow> log_entry_id list
     \<Rightarrow> log_entry_id set \<Rightarrow> log_entry_id list \<Rightarrow> bool" where
  "bfs_inv L M tips remote hv visited queue \<longleftrightarrow>
     tips \<subseteq> visited \<union> set queue \<and> visited \<union> set queue \<subseteq> (edges L M)\<^sup>* `` tips
     \<and> edges L M `` visited \<subseteq> visited \<union> set queue
     \<and> distinct hv \<and> set hv = visited - remote \<and> length hv < MAX_HAVE"

lemma bfs_inv_skip: "bfs_inv L M T R h v (x # q) \<Longrightarrow> x \<in> v \<Longrightarrow> bfs_inv L M T R h v q"
  unfolding bfs_inv_def by auto

lemma edges_Image_insert:
  "edges L M `` insert x v = edges L M `` v \<union> (case M x of None \<Rightarrow> {} | Some e \<Rightarrow> parents_of L e)"
  by (auto simp: edges_def split: option.splits)

lemma bfs_inv_visit:
  assumes inv: "bfs_inv L M T R h v (x # q)" and x: "x \<notin> v"
    and ps: "set ps = (case M x of None \<Rightarrow> {} | Some e \<Rightarrow> parents_of L e)"
    and h': "h' = (if x \<notin> R then h @ [x] else h)" and len: "\<not> (x \<notin> R \<and> length h' \<ge> MAX_HAVE)"
  shows "bfs_inv L M T R h' (insert x v) (q @ ps)"
proof -
  have reach: "x \<in> (edges L M)\<^sup>* `` T" using inv by (auto simp: bfs_inv_def)
  have "set ps \<subseteq> edges L M `` {x}" using ps by (auto simp: edges_def split: option.splits)
  moreover have "edges L M `` {x} \<subseteq> (edges L M)\<^sup>* `` T"
    using reach by (auto intro: rtrancl_into_rtrancl)
  ultimately have "set ps \<subseteq> (edges L M)\<^sup>* `` T" by (rule subset_trans)
  moreover have "distinct h'" "set h' = insert x v - R" using inv x h' by (auto simp: bfs_inv_def)
  moreover have "length h' < MAX_HAVE" using inv h' len by (auto simp: bfs_inv_def split: if_splits)
  ultimately show ?thesis using inv ps unfolding bfs_inv_def edges_Image_insert by auto
qed

lemma bfs_inv_done:
  assumes "bfs_inv L M T R h v []"
  shows "set h = (edges L M)\<^sup>* `` T - R"
proof -
  have "(edges L M)\<^sup>* `` T \<subseteq> v"
  proof
    fix x assume "x \<in> (edges L M)\<^sup>* `` T"
    then obtain t where "t \<in> v" "(t, x) \<in> (edges L M)\<^sup>*" using assms by (auto simp: bfs_inv_def)
    from this(2,1) show "x \<in> v" using assms by (induction rule: rtrancl_induct) (auto simp: bfs_inv_def)
  qed
  with assms show ?thesis by (auto simp: bfs_inv_def)
qed

text \<open>Induction along the loop: a visited entry is dropped, an unvisited one spends a visit.\<close>

lemma bfs_induct [case_names done_ step]:
  assumes "\<And>h v n. P h v [] n"
    and "\<And>h v x q n. (x \<in> v \<Longrightarrow> P h v q n) \<Longrightarrow>
      (\<And>h' q'. x \<notin> v \<Longrightarrow> Suc n < bound \<Longrightarrow> P h' (insert x v) q' (Suc n)) \<Longrightarrow> P h v (x # q) n"
  shows "P h v q (n :: nat)"
proof (induction "bound - n" arbitrary: h v q n rule: less_induct)
  case less
  show ?case
  proof (induction q)
    case (Cons x q)
    then show ?case by (intro assms(2)) (auto intro!: less)
  qed (rule assms(1))
qed

context log_storage
begin

lemma want_loop_eq: "ok s \<Longrightarrow> want_loop S s ts = Inr (filter (\<lambda>t. ents s t = None) ts)"
  by (induction ts) (auto simp: has and_then_simps)

text \<open>
  The walk never fails, its result is a duplicate-free part of what the tips reach and the remote
  did not name, and it is all of it unless the walk was cut short.
\<close>

lemma reconcile_loop_spec:
  assumes "ok s" "bfs_inv L (ents s) T R h v q"
  shows "\<exists>h' p. reconcile_loop L S s R h v q n = Inr (h', p) \<and> distinct h' \<and> length h' \<le> MAX_HAVE
    \<and> set h' \<subseteq> (edges L (ents s))\<^sup>* `` T - R
    \<and> (\<not> p \<and> length h' < MAX_HAVE \<longrightarrow> set h' = (edges L (ents s))\<^sup>* `` T - R)"
  using assms(2)
proof (induction h v q n rule: bfs_induct [where bound = MAX_BFS_VISITS])
  case (done_ h v n)
  then show ?case using bfs_inv_done [of L "ents s" T R h v]
    by (auto simp: reconcile_loop.simps bfs_inv_def)
next
  case (step h v x q n)
  define h' where "h' = (if x \<notin> R then h @ [x] else h)"
  have sub: "set h' \<subseteq> (edges L (ents s))\<^sup>* `` T - R" "distinct h'" "length h' \<le> MAX_HAVE" if "x \<notin> v"
    using step.prems that by (auto simp: bfs_inv_def h'_def)
  consider (skip) "x \<in> v" | (cut) "x \<notin> v" "Suc n \<ge> MAX_BFS_VISITS"
    | (full) "x \<notin> v" "Suc n < MAX_BFS_VISITS" "x \<notin> R" "length h' \<ge> MAX_HAVE"
    | (go) "x \<notin> v" "Suc n < MAX_BFS_VISITS" "\<not> (x \<notin> R \<and> length h' \<ge> MAX_HAVE)" by linarith
  then show ?case
  proof cases
    case skip
    then show ?thesis
      using step.IH(1) [OF skip bfs_inv_skip [OF step.prems skip]] by (simp add: reconcile_loop.simps)
  next
    case cut
    then show ?thesis using step.prems by (auto simp: reconcile_loop.simps bfs_inv_def)
  next
    case full
    then show ?thesis using sub [OF full(1)] by (auto simp: reconcile_loop.simps h'_def)
  next
    case go
    define ps where "ps = (case ents s x of None \<Rightarrow> [] | Some e \<Rightarrow> parent_digests L (parent_cids e))"
    have ps: "set ps = (case ents s x of None \<Rightarrow> {} | Some e \<Rightarrow> parents_of L e)"
      by (simp add: ps_def set_parent_digests split: option.splits)
    have "reconcile_loop L S s R h v (x # q) n = reconcile_loop L S s R h' (insert x v) (q @ ps) (Suc n)"
      using go by (cases "ents s x")
        (auto simp: reconcile_loop.simps(2) get_parents [OF assms(1)] h'_def ps_def Let_def)
    with step.IH(2) [OF go(1,2) bfs_inv_visit [OF step.prems go(1) ps h'_def go(3)]] show ?thesis by simp
  qed
qed

lemma reconcile_spec:
  assumes "ok s"
  shows "\<exists>r. reconcile L S s g remote = Inr r \<and> want r = filter (\<lambda>t. t \<notin> dom (ents s)) remote
    \<and> distinct (haves r) \<and> length (haves r) \<le> 1000
    \<and> set (haves r) \<subseteq> {i. in_log L (ents s) (tipset s) g i} - set remote
    \<and> (\<not> partial_have r \<and> length (haves r) < 1000 \<longrightarrow>
         set (haves r) = {i. in_log L (ents s) (tipset s) g i} - set remote)"
proof -
  obtain ts where ts: "list_tips S s g = Inr ts" "set ts = tipset s g" using tips [OF assms] by blast
  have reach: "(edges L (ents s))\<^sup>* `` set ts = {i. in_log L (ents s) (tipset s) g i}"
    by (auto simp: in_log_def ts(2))
  have "bfs_inv L (ents s) (set ts) (set remote) [] {} ts"
    by (auto simp: bfs_inv_def MAX_HAVE_def)
  from reconcile_loop_spec [OF assms this, of 0] obtain h p where
    l: "reconcile_loop L S s (set remote) [] {} ts 0 = Inr (h, p)" "distinct h" "length h \<le> 1000"
      "set h \<subseteq> {i. in_log L (ents s) (tipset s) g i} - set remote"
      "\<not> p \<and> length h < 1000 \<longrightarrow> set h = {i. in_log L (ents s) (tipset s) g i} - set remote"
    unfolding reach MAX_HAVE_def by blast
  have "filter (\<lambda>t. ents s t = None) remote = filter (\<lambda>t. t \<notin> dom (ents s)) remote" by (simp add: domIff)
  then have "reconcile L S s g remote
      = Inr \<lparr>want = filter (\<lambda>t. t \<notin> dom (ents s)) remote, haves = h, partial_have = p\<rparr>"
    using l(1) ts(1) by (simp add: reconcile_def want_loop_eq [OF assms] and_then_simps)
  with l(2-5) show ?thesis by (intro exI conjI) (assumption | simp)+
qed

end

section \<open>Properties\<close>

text \<open>
  C5. Reconciliation over the persistent log never fails and its result is right: the wanted
  entries are exactly the remote tips not stored here, in order; the offered ones are at most
  1000, without duplicates, all in the group's log and none of them named by the remote; and when
  the result is not marked partial and holds fewer than 1000 entries, it is everything the
  remote tips do not name.
\<close>

theorem sqlite_reconcile_correct:
  assumes "cid_parses L" "scan_permutes q" "sqlite_ok L db"
  shows "\<exists>r. reconcile L (sqlite_ops L q) db g remote = Inr r
    \<and> want r = filter (\<lambda>t. t \<notin> dom (sqlite_ents L q db)) remote
    \<and> distinct (haves r) \<and> length (haves r) \<le> 1000
    \<and> set (haves r) \<subseteq> {i. in_log L (sqlite_ents L q db) (sqlite_tipset db) g i} - set remote
    \<and> (\<not> partial_have r \<and> length (haves r) < 1000 \<longrightarrow>
         set (haves r) = {i. in_log L (sqlite_ents L q db) (sqlite_tipset db) g i} - set remote)"
  by (rule log_storage.reconcile_spec [OF sqlite_log_storage [OF assms(1,2)] assms(3)])

theorem sqlite_reconcile_correct_witness:
  "\<exists>r. reconcile demo_lib (sqlite_ops demo_lib demo_sqlx) sqlite_empty ''g'' [replicate 32 CHR ''t''] = Inr r
     \<and> want r = [replicate 32 CHR ''t''] \<and> haves r = []"
  using sqlite_reconcile_correct [OF demo_cid_parses demo_scan sqlite_ok_empty, of "''g''" "[replicate 32 CHR ''t'']"]
  by (auto simp: sqlite_empty_ents sqlite_empty_tipset in_log_def)

lemma chain_walk:
  assumes "k \<le> 999" "inj_on node {..1000}"
    and par: "\<And>k. k < 1000 \<Longrightarrow> get_parent_cids S s (node k) = Inr (Some [c (Suc k)]) \<and> digest32 L (c (Suc k)) = Some (node (Suc k))"
  shows "reconcile_loop L S s {} (map node [0..<k]) (node ` {..<k}) [node k] k = Inr (map node [0..<1000], False)"
  using assms(1)
proof (induction rule: inc_induct)
  case base
  have "node 999 \<notin> node ` {..<999}" by (subst inj_on_image_mem_iff [OF assms(2)]) auto
  moreover have "map node [0..<999] @ [node 999] = map node [0..<1000]"
    using upt_Suc_append [of 0 999] by simp
  ultimately show ?case by (simp add: reconcile_loop.simps MAX_BFS_VISITS_def MAX_HAVE_def Let_def)
next
  case (step k)
  then have "k < 999" by simp
  then have new: "node k \<notin> node ` {..<k}" by (subst inj_on_image_mem_iff [OF assms(2)]) auto
  have "parent_digests L [c (Suc k)] = [node (Suc k)]"
    using par [of k] \<open>k < 999\<close> by (simp add: parent_digests_def List.map_filter_simps)
  with new \<open>k < 999\<close> par [of k] step.IH show ?case
    by (simp add: reconcile_loop.simps(2) MAX_BFS_VISITS_def MAX_HAVE_def Let_def lessThan_Suc)
qed

text \<open>
  C12. The mark for an unfinished walk can be wrong. On a log that is one chain of more than 1000
  entries, with a remote that has none of them, the walk stops at its 1000th entry before the
  parent of that entry is put on the queue: the queue is empty, the result is not marked partial,
  and the entries from the 1001st on are neither offered nor announced for a further round.
\<close>

theorem reconcile_misses_long_chain:
  assumes "inj_on node {..1000}" "list_tips S s g = Inr [node 0]"
    and "\<forall>k < 1000. get_parent_cids S s (node k) = Inr (Some [c (Suc k)]) \<and> digest32 L (c (Suc k)) = Some (node (Suc k))"
  shows "reconcile L S s g [] = Inr \<lparr>want = [], haves = map node [0..<1000], partial_have = False\<rparr>
    \<and> node 1000 \<notin> set (map node [0..<1000])"
proof
  have "reconcile_loop L S s {} [] {} [node 0] 0 = Inr (map node [0..<1000], False)"
    using chain_walk [of 0 node S s c L] assms(1,3) by simp
  then show "reconcile L S s g [] = Inr \<lparr>want = [], haves = map node [0..<1000], partial_have = False\<rparr>"
    by (simp add: reconcile_def assms(2) and_then_simps)
  have "node 1000 \<notin> node ` {0..<1000}" by (subst inj_on_image_mem_iff [OF assms(1)]) auto
  then show "node 1000 \<notin> set (map node [0..<1000])" by simp
qed

definition chain_node :: "nat \<Rightarrow> log_entry_id" where
  "chain_node k = to_be_bytes (word_of_nat k) @ replicate 24 (byte 0)"

definition chain_log :: "bytes mem_log_storage" where
  "chain_log = \<lparr>mem_entries = map_of (map (\<lambda>k. (chain_node k, demo_entry ''a'' (if k < 1001 then [chain_node (Suc k)] else []))) [0..<1002]),
     mem_tips = [''g'' \<mapsto> [chain_node 0]]\<rparr>"

lemma length_chain_node: "length (chain_node k) = 32"
  by (simp add: chain_node_def)

lemma chain_node_inj: "inj_on chain_node {..<2000}"
proof (rule inj_onI)
  fix j k assume jk: "j \<in> {..<2000}" "k \<in> {..<2000}" and eq: "chain_node j = chain_node k"
  from eq have "(word_of_nat j :: u64) = word_of_nat k" by (simp add: chain_node_def to_be_bytes_inj)
  with jk show "j = k" by (simp add: word_of_nat_eq_iff take_bit_nat_eq_self)
qed

lemma chain_log_entry:
  assumes "k < 1001"
  shows "mem_entries chain_log (chain_node k) = Some (demo_entry ''a'' [chain_node (Suc k)])"
proof -
  let ?f = "\<lambda>k. (chain_node k, demo_entry ''a'' (if k < 1001 then [chain_node (Suc k)] else []))"
  have "inj_on chain_node {0..<1002}" by (rule inj_on_subset [OF chain_node_inj]) auto
  then have "distinct (map fst (map ?f [0..<1002]))" by (simp add: distinct_map comp_def del: upt_Suc)
  moreover have "?f k \<in> set (map ?f [0..<1002])" unfolding set_map by (rule imageI) (use assms in simp)
  ultimately have "map_of (map ?f [0..<1002]) (chain_node k) = Some (snd (?f k))"
    by (intro map_of_is_SomeI) simp_all
  with assms show ?thesis by (simp add: chain_log_def del: upt_Suc)
qed

theorem reconcile_misses_long_chain_witness:
  "reconcile demo_lib mem_ops chain_log ''g'' []
     = Inr \<lparr>want = [], haves = map chain_node [0..<1000], partial_have = False\<rparr>
   \<and> chain_node 1000 \<notin> set (map chain_node [0..<1000])"
proof (rule reconcile_misses_long_chain [where c = chain_node])
  show "inj_on chain_node {..1000}" by (rule inj_on_subset [OF chain_node_inj]) auto
  show "list_tips mem_ops chain_log ''g'' = Inr [chain_node 0]"
    by (simp add: mem_ops_def mem_list_tips_def mem_current_def chain_log_def)
  show "\<forall>k < 1000. get_parent_cids mem_ops chain_log (chain_node k) = Inr (Some [chain_node (Suc k)])
      \<and> digest32 demo_lib (chain_node (Suc k)) = Some (chain_node (Suc k))"
    using length_chain_node
    by (simp add: mem_ops_def mem_get_parent_cids_def chain_log_entry demo_entry_def digest32_def demo_lib_def)
qed

end
