(* ===== verification/Backfill.thy ===== *)
theory Backfill
  imports GroupLogProps
begin

text \<open>
  Backfilling the ancestors of a wanted entry from a remote
  (\<^verbatim>\<open>crates/core/src/group_log/backfill.rs\<close>). The \<^verbatim>\<open>fetch\<close> callback is an argument: a function
  from identifiers to a verified entry or an error text.
\<close>

definition MAX_BACKFILL_ENTRIES :: nat where
  "MAX_BACKFILL_ENTRIES = 50000"

datatype backfill_error =
    BackfillStorage storage_error
  | FetchFailed bytes
  | MalformedParentCid bytes
  | Truncated nat

definition parent_ids_from_entry :: "'cid lib \<Rightarrow> 'cid log_entry \<Rightarrow> log_entry_id list" where
  "parent_ids_from_entry L entry = List.map_filter (digest32 L) (parent_cids entry)"

definition id_mismatch_text :: "'cid lib \<Rightarrow> log_entry_id \<Rightarrow> log_entry_id \<Rightarrow> bytes" where
  "id_mismatch_text L entry_id computed_id = ''entry ID mismatch: requested '' @ hex_encode L entry_id
     @ '', peer returned entry with ID '' @ hex_encode L computed_id"

definition backfill_parent :: "'cid lib \<Rightarrow> 'cid \<Rightarrow> backfill_error + log_entry_id" where
  "backfill_parent L c = (case digest32 L c of
     Some p \<Rightarrow> Inr p
   | None \<Rightarrow> Inl (MalformedParentCid (''parent CID '' @ cid_to_string L c @ '' has ''
       @ show_nat (length (cid_digest L c)) @ ''-byte digest (expected 32)'')))"

text \<open>
  The loop with its local variables. \<^verbatim>\<open>visited\<close> lists the identifiers in the order they were
  inserted, each once. The result holds \<^verbatim>\<open>fetched_count\<close> and \<^verbatim>\<open>want_parent_ids\<close>.
\<close>

function backfill_loop ::
  "'cid lib \<Rightarrow> ('s, 'cid) log_storage_ops \<Rightarrow> (log_entry_id \<Rightarrow> bytes + 'cid log_entry) \<Rightarrow> 's \<Rightarrow> log_entry_id list
     \<Rightarrow> log_entry_id list \<Rightarrow> nat \<Rightarrow> log_entry_id list option
     \<Rightarrow> (backfill_error + nat \<times> log_entry_id list option) \<times> 's" where
  "backfill_loop L S fetch s visited [] fetched_count want_parent_ids = (Inr (fetched_count, want_parent_ids), s)"
| "backfill_loop L S fetch s visited (entry_id # queue) fetched_count want_parent_ids =
     (if entry_id \<in> set visited then backfill_loop L S fetch s visited queue fetched_count want_parent_ids
      else let visited' = visited @ [entry_id]
      in case fetch entry_id of
           Inl m \<Rightarrow> (Inl (FetchFailed m), s)
         | Inr entry \<Rightarrow>
             if from_entry L entry \<noteq> entry_id
             then (Inl (FetchFailed (id_mismatch_text L entry_id (from_entry L entry))), s)
             else let want_parent_ids' = (if want_parent_ids = None then Some (parent_ids_from_entry L entry) else want_parent_ids)
             in case insert_entry S s entry_id entry of (r, s') \<Rightarrow>
                  case (case r of Inr _ \<Rightarrow> Inr (Suc fetched_count)
                        | Inl (DuplicateEntry _) \<Rightarrow> Inr fetched_count
                        | Inl e \<Rightarrow> Inl (BackfillStorage e)) of
                    Inl e \<Rightarrow> (Inl e, s')
                  | Inr fetched_count' \<Rightarrow>
                      if length visited' \<ge> MAX_BACKFILL_ENTRIES then (Inl (Truncated fetched_count'), s')
                      else case collect_results (map (backfill_parent L) (parent_cids entry)) of
                             Inl e \<Rightarrow> (Inl e, s')
                           | Inr parent_ids \<Rightarrow>
                               backfill_loop L S fetch s' visited'
                                 (queue @ filter (\<lambda>p. p \<notin> set visited') parent_ids) fetched_count' want_parent_ids')"
  by pat_completeness auto
termination
  by (relation "measures [\<lambda>(_, _, _, _, visited, _, _, _). MAX_BACKFILL_ENTRIES - length visited,
      \<lambda>(_, _, _, _, _, queue, _, _). length queue]") auto

declare backfill_loop.simps [simp del]

definition backfill ::
  "'cid lib \<Rightarrow> ('s, 'cid) log_storage_ops \<Rightarrow> 's \<Rightarrow> group_name \<Rightarrow> log_entry_id
     \<Rightarrow> (log_entry_id \<Rightarrow> bytes + 'cid log_entry) \<Rightarrow> (backfill_error + nat) \<times> 's" where
  "backfill L S s g want_id fetch =
     (case has_entry S s want_id of
        Inl e \<Rightarrow> (Inl (BackfillStorage e), s)
      | Inr True \<Rightarrow>
          (case list_tips S s g of
             Inl e \<Rightarrow> (Inl (BackfillStorage e), s)
           | Inr tips \<Rightarrow>
               if want_id \<in> set tips then (Inr 0, s)
               else case get_entry S s want_id of
                      Inl e \<Rightarrow> (Inl (BackfillStorage e), s)
                    | Inr None \<Rightarrow> (Inr 0, s)
                    | Inr (Some entry) \<Rightarrow>
                        (case advance_tips S s g (parent_ids_from_entry L entry) want_id of
                           (Inl e, s') \<Rightarrow> (Inl (BackfillStorage e), s')
                         | (Inr _, s') \<Rightarrow> (Inr 0, s')))
      | Inr False \<Rightarrow>
          (case backfill_loop L S fetch s [] [want_id] 0 None of
             (Inl e, s') \<Rightarrow> (Inl e, s')
           | (Inr (fetched_count, None), s') \<Rightarrow> (Inr fetched_count, s')
           | (Inr (fetched_count, Some parent_ids), s') \<Rightarrow>
               (case advance_tips S s' g parent_ids want_id of
                  (Inl e, s'') \<Rightarrow> (Inl (BackfillStorage e), s'')
                | (Inr _, s'') \<Rightarrow> (Inr fetched_count, s''))))"

section \<open>The remote's DAG\<close>

definition remote_edges :: "'cid lib \<Rightarrow> (log_entry_id \<Rightarrow> bytes + 'cid log_entry) \<Rightarrow> (log_entry_id \<times> log_entry_id) set" where
  "remote_edges L fetch = {(i, p). \<exists>e. fetch i = Inr e \<and> p \<in> parents_of L e}"

lemma set_parent_ids: "set (parent_ids_from_entry L e) = parents_of L e"
  by (force simp: parent_ids_from_entry_def parents_of_def List.map_filter_def image_iff)

lemma backfill_parents_set:
  assumes "collect_results (map (backfill_parent L) cs) = Inr ps"
  shows "set ps = {p. \<exists>c \<in> set cs. digest32 L c = Some p}"
proof -
  have "map (backfill_parent L) cs = map Inr ps" using assms by (simp add: collect_results_Inr_iff)
  then show ?thesis
  proof (induction cs arbitrary: ps)
    case (Cons c cs)
    then obtain p ps' where "ps = p # ps'" by (cases ps) auto
    with Cons show ?case by (auto simp: backfill_parent_def split: option.splits)
  qed auto
qed

text \<open>What holds at the head of the loop that started in a storage holding \<^verbatim>\<open>M\<^sub>0\<close>.\<close>

definition fill_inv ::
  "'cid lib \<Rightarrow> (log_entry_id \<Rightarrow> bytes + 'cid log_entry) \<Rightarrow> log_entry_id \<Rightarrow> (log_entry_id \<rightharpoonup> 'cid log_entry)
     \<Rightarrow> (log_entry_id \<rightharpoonup> 'cid log_entry) \<Rightarrow> log_entry_id list \<Rightarrow> log_entry_id list \<Rightarrow> nat
     \<Rightarrow> log_entry_id list option \<Rightarrow> bool" where
  "fill_inv L fetch w M0 M visited queue n wp \<longleftrightarrow>
     w \<in> set visited \<union> set queue
     \<and> remote_edges L fetch `` set visited \<subseteq> set visited \<union> set queue
     \<and> M0 \<subseteq>\<^sub>m M \<and> dom M = dom M0 \<union> set visited \<and> distinct visited
     \<and> n = length (filter (\<lambda>i. i \<notin> dom M0) visited)
     \<and> (\<forall>i \<in> set visited. \<exists>e. fetch i = Inr e \<and> from_entry L e = i
          \<and> (i \<notin> dom M0 \<longrightarrow> (\<exists>f. M i = Some f \<and> same_entry e f)))
     \<and> (if visited = [] then wp = None \<and> queue = [w]
        else hd visited = w \<and> (\<exists>e. fetch w = Inr e \<and> wp = Some (parent_ids_from_entry L e)))"

lemma fill_inv_skip:
  assumes "fill_inv L fetch w M0 M v (x # q) n wp" "x \<in> set v"
  shows "fill_inv L fetch w M0 M v q n wp"
proof -
  have "v \<noteq> []" using assms(2) by auto
  with assms show ?thesis unfolding fill_inv_def by auto
qed

lemma fill_inv_visit:
  assumes inv: "fill_inv L fetch w M0 M v (x # q) n wp" and x: "x \<notin> set v"
    and e: "fetch x = Inr e" "from_entry L e = x"
    and M': "if x \<in> dom M then M' = M \<and> n' = n else n' = Suc n \<and> (\<exists>f. same_entry e f \<and> M' = M(x \<mapsto> f))"
    and ps: "set ps = parents_of L e"
    and wp': "wp' = (if wp = None then Some (parent_ids_from_entry L e) else wp)"
  shows "fill_inv L fetch w M0 M' (v @ [x]) (q @ filter (\<lambda>p. p \<notin> set (v @ [x])) ps) n' wp'"
proof -
  have old: "w \<in> set v \<union> set (x # q)" "remote_edges L fetch `` set v \<subseteq> set v \<union> set (x # q)"
    "M0 \<subseteq>\<^sub>m M" "dom M = dom M0 \<union> set v" "distinct v" "n = length (filter (\<lambda>i. i \<notin> dom M0) v)"
    and each: "\<And>i. i \<in> set v \<Longrightarrow> \<exists>e. fetch i = Inr e \<and> from_entry L e = i
      \<and> (i \<notin> dom M0 \<longrightarrow> (\<exists>f. M i = Some f \<and> same_entry e f))"
    and hd: "if v = [] then wp = None \<and> x # q = [w]
      else hd v = w \<and> (\<exists>e. fetch w = Inr e \<and> wp = Some (parent_ids_from_entry L e))"
    using inv unfolding fill_inv_def by auto
  have x_dom: "x \<in> dom M \<longleftrightarrow> x \<in> dom M0" using old(4) x by auto
  have M'_old: "M' i = M i" if "i \<noteq> x" for i using M' that by (auto split: if_splits)
  have new_edges: "remote_edges L fetch `` {x} = set ps" using e ps by (auto simp: remote_edges_def)
  have 1: "remote_edges L fetch `` set (v @ [x]) \<subseteq> set (v @ [x]) \<union> set (q @ filter (\<lambda>p. p \<notin> set (v @ [x])) ps)"
    using old(2) new_edges by (auto simp: Image_Un)
  have 2: "M0 \<subseteq>\<^sub>m M'" using old(3) M' x_dom by (auto simp: map_le_def split: if_splits)
  have "dom M' = insert x (dom M)" using M' by (auto split: if_splits)
  then have 3: "dom M' = dom M0 \<union> set (v @ [x])" using old(4) by auto
  have 4: "n' = length (filter (\<lambda>i. i \<notin> dom M0) (v @ [x]))" using old(6) M' x_dom by (auto split: if_splits)
  have 5: "\<exists>e. fetch i = Inr e \<and> from_entry L e = i \<and> (i \<notin> dom M0 \<longrightarrow> (\<exists>f. M' i = Some f \<and> same_entry e f))"
    if "i \<in> set (v @ [x])" for i
  proof (cases "i = x")
    case True
    with e M' x_dom show ?thesis by (auto split: if_splits)
  next
    case False
    with that each [of i] M'_old [OF False] show ?thesis by simp
  qed
  have 6: "hd (v @ [x]) = w \<and> (\<exists>e. fetch w = Inr e \<and> wp' = Some (parent_ids_from_entry L e))"
    using hd e wp' by (cases v) auto
  have 7: "w \<in> set (v @ [x]) \<union> set (q @ filter (\<lambda>p. p \<notin> set (v @ [x])) ps)" "distinct (v @ [x])"
    using old(1,5) x by auto
  have 8: "if v @ [x] = [] then wp' = None \<and> q @ filter (\<lambda>p. p \<notin> set (v @ [x])) ps = [w]
      else hd (v @ [x]) = w \<and> (\<exists>e. fetch w = Inr e \<and> wp' = Some (parent_ids_from_entry L e))"
    using 6 by simp
  show ?thesis unfolding fill_inv_def using 1 2 3 4 5 7 8 by (intro conjI ballI) assumption+
qed

lemma fill_inv_done:
  assumes "fill_inv L fetch w M0 M v [] n wp"
  shows "(remote_edges L fetch)\<^sup>* `` {w} \<subseteq> set v"
proof
  fix i assume "i \<in> (remote_edges L fetch)\<^sup>* `` {w}"
  then have "(w, i) \<in> (remote_edges L fetch)\<^sup>*" by simp
  then show "i \<in> set v"
  proof (induction rule: rtrancl_induct)
    case base
    then show ?case using assms by (simp add: fill_inv_def)
  next
    case (step y z)
    then show ?case using assms unfolding fill_inv_def by auto
  qed
qed

lemma fill_induct [case_names done_ step]:
  assumes "\<And>s v n wp. P s v [] n wp"
    and "\<And>s v x q n wp. (x \<in> set v \<Longrightarrow> P s v q n wp) \<Longrightarrow>
      (\<And>s' q' n' wp'. x \<notin> set v \<Longrightarrow> Suc (length v) < bound \<Longrightarrow> P s' (v @ [x]) q' n' wp') \<Longrightarrow> P s v (x # q) n wp"
  shows "P s v q n wp"
proof (induction "bound - length v" arbitrary: s v q n wp rule: less_induct)
  case less
  show ?case
  proof (induction q arbitrary: s n wp)
    case (Cons x q)
    then show ?case by (intro assms(2)) (auto intro!: less)
  qed (rule assms(1))
qed

context log_storage
begin

text \<open>One insertion, as the loop uses it.\<close>

lemma insert_outcomes:
  assumes "ok s" "length i = 32" "insert_entry S s i e = (r, s')"
  shows "ok s'" "tipset s' = tipset s" "ents s \<subseteq>\<^sub>m ents s'"
    "r = Inr () \<Longrightarrow> i \<notin> dom (ents s) \<and> (\<exists>f. same_entry e f \<and> ents s' = (ents s)(i \<mapsto> f))"
    "r = Inl (DuplicateEntry j) \<Longrightarrow> i \<in> dom (ents s) \<and> s' = s"
proof -
  have "ok s' \<and> tipset s' = tipset s \<and> ents s \<subseteq>\<^sub>m ents s'
    \<and> (r = Inr () \<longrightarrow> i \<notin> dom (ents s) \<and> (\<exists>f. same_entry e f \<and> ents s' = (ents s)(i \<mapsto> f)))
    \<and> (r = Inl (DuplicateEntry j) \<longrightarrow> i \<in> dom (ents s) \<and> s' = s)"
  proof (cases "storable e")
    case st: True
    show ?thesis
    proof (cases "ents s i")
      case None
      with insert_new [OF assms(1,2) st None] assms(3) show ?thesis by (auto simp: map_le_def)
    next
      case (Some f)
      with insert_dup [OF assms(1) st, of i] assms(1,3) show ?thesis by auto
    qed
  next
    case False
    with insert_refused [OF assms(1), of e i] assms(1,3) show ?thesis by auto
  qed
  then show "ok s'" "tipset s' = tipset s" "ents s \<subseteq>\<^sub>m ents s'"
    "r = Inr () \<Longrightarrow> i \<notin> dom (ents s) \<and> (\<exists>f. same_entry e f \<and> ents s' = (ents s)(i \<mapsto> f))"
    "r = Inl (DuplicateEntry j) \<Longrightarrow> i \<in> dom (ents s) \<and> s' = s" by simp_all
qed

lemma backfill_loop_spec:
  assumes "sha256_32 L" "ok s" "fill_inv L fetch w M0 (ents s) v q n wp"
    and "backfill_loop L S fetch s v q n wp = (r, s')"
  shows "ok s' \<and> tipset s' = tipset s \<and> ents s \<subseteq>\<^sub>m ents s'
    \<and> (\<forall>n' wp'. r = Inr (n', wp') \<longrightarrow> (\<exists>v'. fill_inv L fetch w M0 (ents s') v' [] n' wp'))"
  using assms(2-)
proof (induction s v q n wp rule: fill_induct [where bound = MAX_BACKFILL_ENTRIES])
  case (done_ s v n wp)
  then show ?case by (auto simp: backfill_loop.simps)
next
  case (step s v x q n wp)
  show ?case
  proof (cases "x \<in> set v")
    case True
    have "backfill_loop L S fetch s v q n wp = (r, s')"
      using step.prems(3) True by (simp add: backfill_loop.simps)
    from step.IH(1) [OF True step.prems(1) fill_inv_skip [OF step.prems(2) True] this] show ?thesis .
  next
    case new: False
    show ?thesis
    proof (cases "\<exists>e. fetch x = Inr e \<and> from_entry L e = x")
      case False
      then have "s' = s \<and> (\<exists>er. r = Inl er)" using step.prems(3) new
        by (auto simp: backfill_loop.simps Let_def split: sum.splits if_splits)
      with step.prems(1) show ?thesis by auto
    next
      case True
      then obtain e where e: "fetch x = Inr e" "from_entry L e = x" by blast
      have len: "length x = 32" using e(2) assms(1) by (auto simp: from_entry_def sha256_32_def)
      obtain ri t where ins: "insert_entry S s x e = (ri, t)" by fastforce
      note io = insert_outcomes [OF step.prems(1) len ins]
      define wp' where "wp' = (if wp = None then Some (parent_ids_from_entry L e) else wp)"
      define res where "res = (case ri of Inr _ \<Rightarrow> Inr (Suc n) | Inl (DuplicateEntry _) \<Rightarrow> Inr n
        | Inl er \<Rightarrow> Inl (BackfillStorage er))"
      have unfold: "(r, s') = (case res of Inl er \<Rightarrow> (Inl er, t)
          | Inr n' \<Rightarrow> if length (v @ [x]) \<ge> MAX_BACKFILL_ENTRIES then (Inl (Truncated n'), t)
              else case collect_results (map (backfill_parent L) (parent_cids e)) of
                     Inl er \<Rightarrow> (Inl er, t)
                   | Inr ps \<Rightarrow> backfill_loop L S fetch t (v @ [x]) (q @ filter (\<lambda>p. p \<notin> set (v @ [x])) ps) n' wp')"
        unfolding step.prems(3) [symmetric] res_def wp'_def backfill_loop.simps(2) Let_def
        by (simp only: new e ins if_False sum.case prod.case refl simp_thms)
      show ?thesis
      proof (cases "\<exists>n' ps. res = Inr n' \<and> Suc (length v) < MAX_BACKFILL_ENTRIES
          \<and> collect_results (map (backfill_parent L) (parent_cids e)) = Inr ps")
        case False
        then have "s' = t \<and> (\<exists>er. r = Inl er)" using unfold
          by (auto simp: not_less split: sum.splits if_splits)
        with io(1-3) show ?thesis by auto
      next
        case True
        then obtain n' ps where n': "res = Inr n'" and bound: "Suc (length v) < MAX_BACKFILL_ENTRIES"
          and ps: "collect_results (map (backfill_parent L) (parent_cids e)) = Inr ps" by blast
        have run: "backfill_loop L S fetch t (v @ [x]) (q @ filter (\<lambda>p. p \<notin> set (v @ [x])) ps) n' wp' = (r, s')"
          using unfold n' bound ps by simp
        have M': "if x \<in> dom (ents s) then ents t = ents s \<and> n' = n
            else n' = Suc n \<and> (\<exists>f. same_entry e f \<and> ents t = (ents s)(x \<mapsto> f))"
          using n' io(4,5) by (auto simp: res_def split: sum.splits storage_error.splits)
        have set_ps: "set ps = parents_of L e" using backfill_parents_set [OF ps] by (simp add: parents_of_def)
        note inv' = fill_inv_visit [OF step.prems(2) new e M' set_ps wp'_def]
        from step.IH(2) [OF new bound io(1) inv' run] io(2,3) show ?thesis
          by (auto intro: map_le_trans)
      qed
    qed
  qed
qed

lemma backfill_success:
  assumes "sha256_32 L" "ok s" "ents s w = None" "backfill L S s g w fetch = (Inr n, s')"
  shows "\<exists>e. fetch w = Inr e \<and> ok s' \<and> ents s \<subseteq>\<^sub>m ents s' \<and> (remote_edges L fetch)\<^sup>* `` {w} \<subseteq> dom (ents s')
    \<and> n = card (dom (ents s') - dom (ents s))
    \<and> (\<forall>i \<in> dom (ents s') - dom (ents s). \<exists>e f. fetch i = Inr e \<and> from_entry L e = i \<and> ents s' i = Some f \<and> same_entry e f)
    \<and> tipset s' = (tipset s)(g := tipset s g - parents_of L e \<union> {w})"
proof -
  obtain r t where loop: "backfill_loop L S fetch s [] [w] 0 None = (r, t)" by fastforce
  have "fill_inv L fetch w (ents s) (ents s) [] [w] 0 None" by (simp add: fill_inv_def)
  note spec = backfill_loop_spec [OF assms(1,2) this loop]
  have bf: "(Inr n, s') = (case (r, t) of (Inl e, s') \<Rightarrow> (Inl e, s')
      | (Inr (n, None), s') \<Rightarrow> (Inr n, s')
      | (Inr (n, Some ps), s') \<Rightarrow> (case advance_tips S s' g ps w of
          (Inl e, s'') \<Rightarrow> (Inl (BackfillStorage e), s'') | (Inr _, s'') \<Rightarrow> (Inr n, s'')))"
    using assms(3,4) by (simp add: backfill_def has [OF assms(2)] loop)
  then obtain n' wp where r: "r = Inr (n', wp)" by (cases r) auto
  with spec obtain v where v: "fill_inv L fetch w (ents s) (ents t) v [] n' wp" by blast
  from v have "v \<noteq> []" by (auto simp: fill_inv_def)
  with v obtain e where e: "fetch w = Inr e" "wp = Some (parent_ids_from_entry L e)" "hd v = w" "from_entry L e = w"
    unfolding fill_inv_def by (metis (no_types, lifting) hd_in_set sum.inject(2))
  have "length w = 32" using e(4) assms(1) by (auto simp: from_entry_def sha256_32_def)
  then obtain u where u: "advance_tips S t g (parent_ids_from_entry L e) w = (Inr (), u)" "ok u" "ents u = ents t"
    "tipset u = (tipset t)(g := tipset t g - parents_of L e \<union> {w})"
    using advance [of t w g "parent_ids_from_entry L e"] spec by (auto simp: set_parent_ids)
  have s': "s' = u" "n = n'" using bf u(1) by (simp_all add: r e(2))
  have dom: "dom (ents t) - dom (ents s) = set (filter (\<lambda>i. i \<notin> dom (ents s)) v)"
    using v by (auto simp: fill_inv_def)
  have "n' = card (dom (ents t) - dom (ents s))"
    unfolding dom using v by (subst distinct_card) (auto simp: fill_inv_def)
  moreover have "(remote_edges L fetch)\<^sup>* `` {w} \<subseteq> dom (ents t)"
    using fill_inv_done [OF v] v by (auto simp: fill_inv_def)
  moreover have "\<forall>i \<in> dom (ents t) - dom (ents s). \<exists>e f. fetch i = Inr e \<and> from_entry L e = i \<and> ents t i = Some f \<and> same_entry e f"
  proof
    fix i assume "i \<in> dom (ents t) - dom (ents s)"
    then have i: "i \<in> set v" "i \<notin> dom (ents s)" by (auto simp: dom)
    from v i(1) have "\<exists>e. fetch i = Inr e \<and> from_entry L e = i
        \<and> (i \<notin> dom (ents s) \<longrightarrow> (\<exists>f. ents t i = Some f \<and> same_entry e f))"
      unfolding fill_inv_def by blast
    with i(2) show "\<exists>e f. fetch i = Inr e \<and> from_entry L e = i \<and> ents t i = Some f \<and> same_entry e f" by blast
  qed
  ultimately show ?thesis using e(1) u spec unfolding s' u(3) by (intro exI [of _ e] conjI) simp_all
qed

lemma backfill_gives_up:
  assumes "sha256_32 L" "ok s" "ents s w = None" "w \<notin> tipset s g" "storable e"
    and e: "fetch w = Inr e" "from_entry L e = w" "parent_cids e = [c]" "digest32 L c = Some p"
    and p: "p \<noteq> w" "fetch p = Inl m"
  shows "\<exists>t u. backfill L S s g w fetch = (Inl (FetchFailed m), t)
    \<and> backfill L S t g w fetch' = (Inr 0, u) \<and> w \<in> tipset u g
    \<and> dom (ents u) = insert w (dom (ents s))"
proof -
  have len: "length w = 32" using e(2) assms(1) by (auto simp: from_entry_def sha256_32_def)
  obtain t f where t: "insert_entry S s w e = (Inr (), t)" "ok t" "ents t = (ents s)(w \<mapsto> f)" "tipset t = tipset s"
    using insert_new [OF assms(2) len assms(5,3)] by blast
  have "collect_results (map (backfill_parent L) (parent_cids e)) = Inr [p]"
    by (simp add: e backfill_parent_def)
  then have "backfill_loop L S fetch s [] [w] 0 None = (Inl (FetchFailed m), t)"
    using e(1,2) p t(1) by (simp add: backfill_loop.simps MAX_BACKFILL_ENTRIES_def Let_def)
  then have first: "backfill L S s g w fetch = (Inl (FetchFailed m), t)"
    by (simp add: backfill_def has [OF assms(2)] assms(3))
  obtain ts where ts: "list_tips S t g = Inr ts" "set ts = tipset s g" using tips [OF t(2)] t(4) by metis
  obtain u where u: "advance_tips S t g (parent_ids_from_entry L f) w = (Inr (), u)" "ents u = ents t"
    "tipset u = (tipset t)(g := tipset t g - set (parent_ids_from_entry L f) \<union> {w})"
    using advance [OF t(2) len] by blast
  have "backfill L S t g w fetch' = (Inr 0, u)"
    by (simp add: backfill_def has [OF t(2)] get [OF t(2)] ts assms(4) t(3) u(1))
  with first u(2,3) t(3) show ?thesis by auto
qed

end

section \<open>Properties\<close>


definition demo_remote :: "bytes log_entry \<Rightarrow> log_entry_id \<Rightarrow> bytes + bytes log_entry" where
  "demo_remote e i = (if i = from_entry demo_lib e then Inr e else Inl ''gone'')"

lemma demo_backfill_runs:
  "\<exists>db'. backfill demo_lib (sqlite_ops demo_lib demo_sqlx) sqlite_empty ''g'' (from_entry demo_lib (demo_entry ''a'' []))
     (demo_remote (demo_entry ''a'' [])) = (Inr 1, db')"
proof -
  let ?e = "demo_entry ''a'' []" and ?S = "sqlite_ops demo_lib demo_sqlx"
  have "insert_entry ?S sqlite_empty i ?e = (Inr (), with_entry demo_lib sqlite_empty i ?e)" for i
    by (simp add: sqlite_ops_def sqlite_insert_eq(1) [OF demo_storable] sqlite_empty_def)
  then have "backfill_loop demo_lib ?S (demo_remote ?e) sqlite_empty [] [from_entry demo_lib ?e] 0 None
      = (Inr (1, Some (parent_ids_from_entry demo_lib ?e)), with_entry demo_lib sqlite_empty (from_entry demo_lib ?e) ?e)"
    by (simp add: backfill_loop.simps demo_remote_def Let_def MAX_BACKFILL_ENTRIES_def) (simp add: demo_entry_def backfill_loop.simps)
  then show ?thesis
    by (simp add: backfill_def) (simp add: sqlite_ops_def sqlite_has_entry_def sqlite_empty_def sqlite_advance_tips_def)
qed


text \<open>
  C13. A backfill that stops half-way cannot be resumed. When the fetch of an ancestor fails, even of
  one that is already stored locally, the wanted entry has been stored before; the next backfill
  for it, with whatever remote, returns success with 0 entries and makes it a tip without
  fetching anything. The ancestors that were missing stay missing.
\<close>

theorem sqlite_backfill_retry_gives_up:
  assumes "cid_parses L" "scan_permutes q" "sha256_32 L" "sqlite_ok L db" "sqlite_ents L q db w = None"
    "w \<notin> sqlite_tipset db g" "sqlite_storable e"
    and "fetch w = Inr e" "from_entry L e = w" "parent_cids e = [c]" "digest32 L c = Some p"
    and "p \<noteq> w" "fetch p = Inl m"
  shows "\<exists>t u. backfill L (sqlite_ops L q) db g w fetch = (Inl (FetchFailed m), t)
    \<and> backfill L (sqlite_ops L q) t g w fetch' = (Inr 0, u) \<and> w \<in> sqlite_tipset u g
    \<and> dom (sqlite_ents L q u) = insert w (dom (sqlite_ents L q db))"
  by (rule log_storage.backfill_gives_up [OF sqlite_log_storage [OF assms(1,2)] assms(3-13)])

theorem sqlite_backfill_retry_gives_up_witness:
  "let e = demo_entry ''b'' [replicate 32 CHR ''p'']; w = from_entry demo_lib e
   in \<exists>t u. backfill demo_lib (sqlite_ops demo_lib demo_sqlx) sqlite_empty ''g'' w (demo_remote e) = (Inl (FetchFailed ''gone''), t)
     \<and> backfill demo_lib (sqlite_ops demo_lib demo_sqlx) t ''g'' w (\<lambda>_. Inr e) = (Inr 0, u)
     \<and> w \<in> sqlite_tipset u ''g'' \<and> dom (sqlite_ents demo_lib demo_sqlx u) = {w}"
proof -
  let ?p = "replicate 32 CHR ''p''"
  let ?e = "demo_entry ''b'' [?p]"
  have "hd (from_entry demo_lib ?e) = byte 0"
    by (simp add: from_entry_def demo_lib_def demo_entry_def entry_id_bytes_def to_be_bytes_def)
  moreover have "hd ?p = CHR ''p''" by simp
  moreover have "byte 0 \<noteq> CHR ''p''" by (simp add: byte_eval)
  ultimately have p: "?p \<noteq> from_entry demo_lib ?e" by metis
  have "digest32 demo_lib ?p = Some ?p" "parent_cids ?e = [?p]" "demo_remote ?e (from_entry demo_lib ?e) = Inr ?e"
    "demo_remote ?e ?p = Inl ''gone''" using p by (simp_all add: digest32_def demo_lib_def demo_entry_def demo_remote_def)
  from sqlite_backfill_retry_gives_up [OF demo_cid_parses demo_scan demo_sha256_32 sqlite_ok_empty _ _ demo_storable
      this(3) refl this(2) this(1) p this(4), of "''g''" "\<lambda>_. Inr ?e"]
  show ?thesis by (simp add: Let_def sqlite_empty_ents sqlite_empty_tipset)
qed

end
