(* ===== verification/CircuitBreaker.thy ===== *)
theory CircuitBreaker
  imports Prelude
begin

text \<open>
  The circuit breaker (\<^verbatim>\<open>crates/core/src/circuit_breaker.rs\<close>). The state behind the mutex is a
  record; each operation is one critical section. An instant is a number of nanoseconds, every
  reading of the clock is an argument, and the callback's calls are returned in order.
\<close>

section \<open>State\<close>

datatype cb_state = Closed | Open | HalfOpen

type_synonym instant = nat
type_synonym duration = nat

record cb_config =
  failure_threshold :: u32
  window :: duration
  probe_interval :: duration

definition cb_config_default :: cb_config where
  "cb_config_default = \<lparr>failure_threshold = 5, window = 10 * 10 ^ 9, probe_interval = 30 * 10 ^ 9\<rparr>"

record cb_inner =
  cb_state :: cb_state
  failure_count :: u32
  window_start :: instant
  opened_at :: "instant option"

type_synonym cb_notes = "(cb_state \<times> cb_state) list"

section \<open>Operations\<close>

definition cb_new :: "instant \<Rightarrow> cb_inner" where
  "cb_new now = \<lparr>cb_state = Closed, failure_count = 0, window_start = now, opened_at = None\<rparr>"

text \<open>\<^verbatim>\<open>t.elapsed()\<close>, which is zero for an instant in the future.\<close>

definition elapsed :: "instant \<Rightarrow> instant \<Rightarrow> duration" where
  "elapsed t now = now - t"

text \<open>The interval is past: \<^verbatim>\<open>None\<close> counts as an unbounded wait.\<close>

definition probe_due :: "cb_config \<Rightarrow> cb_inner \<Rightarrow> instant \<Rightarrow> bool" where
  "probe_due config g now = (case opened_at g of None \<Rightarrow> True | Some t \<Rightarrow> elapsed t now \<ge> probe_interval config)"

definition allow_request :: "cb_config \<Rightarrow> cb_inner \<Rightarrow> instant \<Rightarrow> bool \<times> cb_inner \<times> cb_notes" where
  "allow_request config g now =
     (case cb_state g of
        Closed \<Rightarrow> (True, g, [])
      | Open \<Rightarrow>
          if probe_due config g now then (True, g\<lparr>cb_state := HalfOpen\<rparr>, [(Open, HalfOpen)])
          else (False, g, [])
      | HalfOpen \<Rightarrow> (True, g, []))"

definition record_success :: "cb_inner \<Rightarrow> instant \<Rightarrow> cb_inner \<times> cb_notes" where
  "record_success g now =
     (if cb_state g = HalfOpen
      then (g\<lparr>cb_state := Closed, failure_count := 0, window_start := now, opened_at := None\<rparr>, [(HalfOpen, Closed)])
      else (g\<lparr>failure_count := 0, window_start := now\<rparr>, []))"

text \<open>
  The three readings of the clock in this operation: for the age of the window, for its restart,
  and for the time of opening.
\<close>

definition record_failure :: "cb_config \<Rightarrow> cb_inner \<Rightarrow> instant \<Rightarrow> instant \<Rightarrow> instant \<Rightarrow> cb_inner \<times> cb_notes" where
  "record_failure config g t1 t2 t3 =
     (case cb_state g of
        HalfOpen \<Rightarrow> (g\<lparr>cb_state := Open, opened_at := Some t3\<rparr>, [(HalfOpen, Open)])
      | Open \<Rightarrow> (g\<lparr>opened_at := Some t3\<rparr>, [])
      | Closed \<Rightarrow>
          let g = (if elapsed (window_start g) t1 > window config
                   then g\<lparr>failure_count := 0, window_start := t2\<rparr> else g);
              g = g\<lparr>failure_count := failure_count g + 1\<rparr>
          in if failure_count g \<ge> failure_threshold config
             then (g\<lparr>cb_state := Open, opened_at := Some t3\<rparr>, [(Closed, Open)])
             else (g, []))"

section \<open>Runs\<close>

datatype cb_call = Allow instant | Success instant | Failure instant instant instant

fun cb_step :: "cb_config \<Rightarrow> cb_inner \<Rightarrow> cb_call \<Rightarrow> bool option \<times> cb_inner \<times> cb_notes" where
  "cb_step config g (Allow t) = (case allow_request config g t of (b, g', ns) \<Rightarrow> (Some b, g', ns))"
| "cb_step config g (Success t) = (case record_success g t of (g', ns) \<Rightarrow> (None, g', ns))"
| "cb_step config g (Failure t1 t2 t3) = (case record_failure config g t1 t2 t3 of (g', ns) \<Rightarrow> (None, g', ns))"

fun cb_run :: "cb_config \<Rightarrow> cb_inner \<Rightarrow> cb_call list \<Rightarrow> bool option list \<times> cb_inner \<times> cb_notes" where
  "cb_run config g [] = ([], g, [])"
| "cb_run config g (c # cs) =
     (case cb_step config g c of (b, g', ns) \<Rightarrow>
      case cb_run config g' cs of (bs, g'', ns') \<Rightarrow> (b # bs, g'', ns @ ns'))"

section \<open>The machine of the documentation\<close>

inductive cb_edge :: "cb_state \<Rightarrow> cb_state \<Rightarrow> bool" where
  opens: "cb_edge Closed Open"
| probes: "cb_edge Open HalfOpen"
| recovers: "cb_edge HalfOpen Closed"
| reopens: "cb_edge HalfOpen Open"

inductive_simps cb_edge_simps [simp]: "cb_edge a b"

text \<open>A list of transitions that starts in one state, ends in another and only takes edges.\<close>

fun cb_path :: "cb_state \<Rightarrow> cb_notes \<Rightarrow> cb_state \<Rightarrow> bool" where
  "cb_path a [] b = (a = b)"
| "cb_path a ((x, y) # ns) b = (x = a \<and> cb_edge x y \<and> cb_path y ns b)"

definition cb_inv :: "cb_config \<Rightarrow> cb_inner \<Rightarrow> bool" where
  "cb_inv config g \<longleftrightarrow>
     (cb_state g = Closed \<longrightarrow> failure_count g = 0 \<or> failure_count g < failure_threshold config)
     \<and> (cb_state g \<noteq> Closed \<longrightarrow> opened_at g \<noteq> None)"

lemma cb_path_append: "cb_path a ns b \<Longrightarrow> cb_path b ms c \<Longrightarrow> cb_path a (ns @ ms) c"
  by (induction a ns b rule: cb_path.induct) auto

lemmas cb_ops = allow_request_def record_success_def record_failure_def probe_due_def

lemma cb_step_inv:
  assumes "cb_inv config g" "cb_step config g c = (b, g', ns)"
  shows "cb_inv config g'" "cb_path (cb_state g) ns (cb_state g')"
  using assms
  by (cases c; cases "cb_state g"; auto simp: cb_ops cb_inv_def Let_def not_le split: if_splits)+

lemma cb_run_inv:
  assumes "cb_inv config g" "cb_run config g cs = (bs, g', ns)"
  shows "cb_inv config g' \<and> cb_path (cb_state g) ns (cb_state g')"
  using assms
proof (induction cs arbitrary: g bs ns)
  case (Cons c cs)
  obtain b h ms where step: "cb_step config g c = (b, h, ms)" by (metis prod_cases3)
  obtain bs' ns' where run: "cb_run config h cs = (bs', g', ns')" and "ns = ms @ ns'"
    using Cons.prems(2) step by (auto split: prod.splits)
  with cb_step_inv [OF Cons.prems(1) step] Cons.IH [OF _ run] show ?case
    by (auto intro: cb_path_append)
qed simp

lemma unat_Suc_below:
  fixes x y :: "'a::len word"
  assumes "x < y"
  shows "unat (x + 1) = Suc (unat x)"
proof (rule unat_Suc_word)
  show "x \<noteq> - 1" using assms word_order.extremum_strict [of y] by auto
qed

text \<open>While the breaker is open and the interval, counted from the last failure, is not over.\<close>

fun before_probe :: "cb_config \<Rightarrow> instant \<Rightarrow> cb_call \<Rightarrow> bool" where
  "before_probe config t (Allow u) = (t \<le> u \<and> u < t + probe_interval config)"
| "before_probe config t (Success u) = True"
| "before_probe config t (Failure t1 t2 t3) = (t \<le> t3)"

lemma open_run_rejects:
  assumes "cb_state g = Open" "opened_at g = Some t'" "t \<le> t'" "list_all (before_probe config t) cs"
    "cb_run config g cs = (bs, g', ns)"
  shows "cb_state g' = Open \<and> ns = [] \<and> Some True \<notin> set bs"
  using assms
proof (induction cs arbitrary: g t' bs ns)
  case (Cons c cs)
  obtain b h ms where step: "cb_step config g c = (b, h, ms)" by (metis prod_cases3)
  obtain bs' ns' where run: "cb_run config h cs = (bs', g', ns')" and eq: "ns = ms @ ns'" "bs = b # bs'"
    using Cons.prems(5) step by (auto split: prod.splits)
  have "\<exists>t''. cb_state h = Open \<and> opened_at h = Some t'' \<and> t \<le> t'' \<and> ms = [] \<and> b \<noteq> Some True"
    using step Cons.prems(1-4) by (cases c) (auto simp: cb_ops elapsed_def split: if_splits)
  then obtain t'' where "cb_state h = Open" "opened_at h = Some t''" "t \<le> t''" "ms = []" "b \<noteq> Some True" by blast
  with Cons.IH [OF _ _ _ _ run] Cons.prems(4) eq show ?case by auto
qed simp

lemma failures_count:
  assumes "cb_state g = Closed" "unat (failure_count g) + length cs \<le> unat (failure_threshold config)" "cs \<noteq> []"
    "list_all (\<lambda>c. \<exists>t1 t2 t3. c = Failure t1 t2 t3 \<and> elapsed (window_start g) t1 \<le> window config) cs"
  shows "cb_state (fst (snd (cb_run config g cs)))
    = (if unat (failure_count g) + length cs < unat (failure_threshold config) then Closed else Open)"
  using assms
proof (induction cs arbitrary: g)
  case (Cons c cs)
  from Cons.prems(4) obtain t1 t2 t3 where c: "c = Failure t1 t2 t3" "elapsed (window_start g) t1 \<le> window config" by auto
  let ?g = "g\<lparr>failure_count := failure_count g + 1\<rparr>"
  have "unat (failure_count g) < unat (failure_threshold config)" using Cons.prems(2) by simp
  then have "failure_count g < failure_threshold config" by (simp add: word_less_nat_alt)
  then have n: "unat (failure_count g + 1) = Suc (unat (failure_count g))" by (rule unat_Suc_below)
  show ?case
  proof (cases "cs = []")
    case True
    then show ?thesis using Cons.prems c n
      by (auto simp: record_failure_def Let_def word_le_nat_alt not_less split: prod.splits)
  next
    case False
    then have "0 < length cs" by simp
    moreover have "Suc (unat (failure_count g)) + length cs \<le> unat (failure_threshold config)"
      using Cons.prems(2) by simp
    ultimately have "unat (failure_count g + 1) < unat (failure_threshold config)" using n by linarith
    then have step: "record_failure config g t1 t2 t3 = (?g, [])"
      using Cons.prems(1) c(2) by (simp add: record_failure_def Let_def word_le_nat_alt)
    have "cb_run config g (c # cs) = (None # fst (cb_run config ?g cs), snd (cb_run config ?g cs))"
      by (simp add: c(1) step split: prod.splits)
    then show ?thesis using Cons.IH [of ?g] Cons.prems False n by auto
  qed
qed simp

section \<open>Properties\<close>


text \<open>
  Once open, the breaker stays open and rejects every request made less than the probe interval
  after the last recorded failure, whatever successes and failures are reported meanwhile.
\<close>

lemma circuit_breaker_open_rejects:
  assumes "cb_state g = Open" "opened_at g = Some t" "list_all (before_probe config t) cs"
  shows "case cb_run config g cs of (bs, g', ns) \<Rightarrow> cb_state g' = Open \<and> Some True \<notin> set bs"
proof -
  obtain bs g' ns where run: "cb_run config g cs = (bs, g', ns)" by (metis prod_cases3)
  from open_run_rejects [OF assms(1,2) order_refl assms(3) run] show ?thesis by (simp add: run)
qed

text \<open>
  A closed breaker opens at exactly the configured number of failures in one window: after
  fewer it is still closed, after that many it is open.
\<close>

lemma circuit_breaker_opens_at_threshold:
  assumes "cb_state g = Closed" "failure_count g = 0" "cs \<noteq> []" "length cs \<le> unat (failure_threshold config)"
    "list_all (\<lambda>c. \<exists>t1 t2 t3. c = Failure t1 t2 t3 \<and> elapsed (window_start g) t1 \<le> window config) cs"
  shows "cb_state (fst (snd (cb_run config g cs)))
    = (if length cs < unat (failure_threshold config) then Closed else Open)"
  using failures_count [of g cs config] assms by simp

end
