(* ===== verification/Wire.thy ===== *)
theory Wire
  imports Article
begin

text \<open>
  Articles on the wire: dot-stuffing (\<^verbatim>\<open>crates/core/src/util.rs\<close> and the SMTP daemon's own in
  \<^verbatim>\<open>crates/smtp/src/nntp_client.rs\<close>), the readers of dot-terminated articles
  (\<^verbatim>\<open>crates/reader/src/session/commands/post.rs\<close>, \<^verbatim>\<open>crates/transit/src/peering/session.rs\<close>,
  \<^verbatim>\<open>crates/smtp/src/session.rs\<close>), the step of the command loop that reads a posted article, and
  splitting an article at its blank line. A reader over tokio's buffered input is a function of
  what its successive \<^verbatim>\<open>read_line\<close> calls return.
\<close>

section \<open>Sending\<close>

definition CRLF :: bytes where
  "CRLF = [CR, LF]"

definition DOT :: char where
  "DOT = CHR ''.''"

definition starts_with :: "bytes \<Rightarrow> bytes \<Rightarrow> bool" where
  "starts_with p s = (take (length p) s = p)"

text \<open>The loop of \<^verbatim>\<open>nntp_dot_stuff\<close> from index \<^verbatim>\<open>i\<close>: the result is the final \<^verbatim>\<open>start\<close> and \<^verbatim>\<open>out\<close>.\<close>

function dot_stuff_loop :: "bytes \<Rightarrow> nat \<Rightarrow> nat \<Rightarrow> bytes \<Rightarrow> nat \<times> bytes" where
  "dot_stuff_loop bs start i out =
     (if i < length bs
      then if bs ! i = LF
           then let line_end = (if 0 < i \<and> bs ! (i - 1) = CR then i - 1 else i);
                    line = take (line_end - start) (drop start bs);
                    out = (if starts_with ''.'' line then out @ [DOT] else out);
                    out = out @ line @ CRLF
                in dot_stuff_loop bs (i + 1) (i + 1) out
           else dot_stuff_loop bs start (i + 1) out
      else (start, out))"
  by pat_completeness auto
termination
  by (relation "measure (\<lambda>(bs, _, i, _). length bs - i)") auto

declare dot_stuff_loop.simps [simp del]

definition nntp_dot_stuff :: "bytes \<Rightarrow> bytes" where
  "nntp_dot_stuff bs =
     (let (start, out) = dot_stuff_loop bs 0 0 []
      in if start < length bs
         then let line = drop start bs;
                  out = (if starts_with ''.'' line then out @ [DOT] else out)
              in out @ line @ CRLF
         else out)"

text \<open>The SMTP daemon's own version: a fold with the flag \<^verbatim>\<open>line_start\<close>.\<close>

fun smtp_dot_stuff_loop :: "bool \<Rightarrow> bytes \<Rightarrow> bytes" where
  "smtp_dot_stuff_loop line_start [] = []"
| "smtp_dot_stuff_loop line_start (b # bs) =
     (if line_start \<and> b = DOT then [DOT] else []) @ b # smtp_dot_stuff_loop (b = LF) bs"

definition smtp_dot_stuff :: "bytes \<Rightarrow> bytes" where
  "smtp_dot_stuff bs = smtp_dot_stuff_loop True bs"

section \<open>Receiving\<close>

datatype io_kind = InvalidData | OtherIo

text \<open>What one call of \<^verbatim>\<open>read_line\<close> returns: a line with its end, or an error; \<^verbatim>\<open>Line []\<close> is end of file.\<close>

datatype line_read = Line bytes | ReadError io_kind

text \<open>\<^verbatim>\<open>s.trim_end_matches(['\r', '\n'])\<close>.\<close>

definition trim_line_end :: "bytes \<Rightarrow> bytes" where
  "trim_line_end s = rev (dropWhile (\<lambda>c. c = CR \<or> c = LF) (rev s))"

definition dot_unstuff :: "bytes \<Rightarrow> bytes" where
  "dot_unstuff line = (if starts_with ''..'' line then drop 1 line else line)"

text \<open>The loop of \<^verbatim>\<open>read_dot_terminated\<close>; the second result is what has not been read yet.\<close>

fun read_dot_loop :: "nat \<Rightarrow> bytes \<Rightarrow> bool \<Rightarrow> line_read list \<Rightarrow> (io_kind + bytes) \<times> line_read list" where
  "read_dot_loop max_bytes article too_large [] = (if too_large then Inl InvalidData else Inr article, [])"
| "read_dot_loop max_bytes article too_large (ReadError k # rs) = (Inl k, rs)"
| "read_dot_loop max_bytes article too_large (Line l # rs) =
     (if l = [] then (if too_large then Inl InvalidData else Inr article, rs)
      else let bare = trim_line_end l
      in if bare = ''.'' then (if too_large then Inl InvalidData else Inr article, rs)
         else if too_large then read_dot_loop max_bytes article True rs
         else let content = dot_unstuff bare
              in if length article + length content + 2 > max_bytes then read_dot_loop max_bytes article True rs
                 else read_dot_loop max_bytes (article @ content @ CRLF) False rs)"

definition read_dot_terminated :: "nat \<Rightarrow> line_read list \<Rightarrow> (io_kind + bytes) \<times> line_read list" where
  "read_dot_terminated max_bytes reads = read_dot_loop max_bytes [] False reads"

datatype dot_stuffed_result = Data bytes | TooLarge | Eof

definition MAX_ARTICLE_BYTES :: nat where
  "MAX_ARTICLE_BYTES = 1048576"

fun read_dot_stuffed_loop :: "bytes \<Rightarrow> bool \<Rightarrow> line_read list \<Rightarrow> dot_stuffed_result \<times> line_read list" where
  "read_dot_stuffed_loop buf too_large [] = (Eof, [])"
| "read_dot_stuffed_loop buf too_large (ReadError k # rs) = (Eof, rs)"
| "read_dot_stuffed_loop buf too_large (Line l # rs) =
     (if l = [] then (Eof, rs)
      else let trimmed = trim_line_end l
      in if trimmed = ''.'' then (if too_large then TooLarge else Data buf, rs)
         else if too_large then read_dot_stuffed_loop buf True rs
         else let output_line = (case strip_prefix ''..'' trimmed of
                      Some rest \<Rightarrow> ''.'' @ rest @ CRLF
                    | None \<Rightarrow> trimmed @ CRLF)
              in if length buf + length output_line > MAX_ARTICLE_BYTES then read_dot_stuffed_loop buf True rs
                 else read_dot_stuffed_loop (buf @ output_line) False rs)"

definition read_dot_stuffed :: "line_read list \<Rightarrow> dot_stuffed_result \<times> line_read list" where
  "read_dot_stuffed reads = read_dot_stuffed_loop [] False reads"

text \<open>
  The step of the reader's command loop after \<^verbatim>\<open>340\<close>: read the article; on \<^verbatim>\<open>InvalidData\<close> answer 441 and
  go on with the next command, on another error close.
\<close>

datatype post_step =
    Article_received bytes "line_read list"
  | Rejected_continue bytes "line_read list"
  | Timed_out bytes
  | Close_connection

text \<open>\<^verbatim>\<open>elapsed\<close>: the upload took longer than \<^verbatim>\<open>post_body_timeout_secs\<close>.\<close>

definition post_read :: "bool \<Rightarrow> nat \<Rightarrow> line_read list \<Rightarrow> post_step" where
  "post_read elapsed max_bytes reads =
     (if elapsed then Timed_out (''400 Timeout - closing connection'' @ CRLF)
      else case read_dot_terminated max_bytes reads of
        (Inr article, rest) \<Rightarrow> Article_received article rest
      | (Inl InvalidData, rest) \<Rightarrow> Rejected_continue (''441 Article too large'' @ CRLF) rest
      | (Inl OtherIo, rest) \<Rightarrow> Close_connection)"

section \<open>The SMTP reader\<close>

text \<open>
  \<^verbatim>\<open>read_data_body\<close> reads byte by byte. Reading the bytes of one line: a whole line, a line that is
  too long (the rest of it has been drained), or the end of the stream.
\<close>

datatype raw_line = FullLine bytes bytes | LongLine bytes | StreamEnd

fun drain_line :: "bytes \<Rightarrow> raw_line" where
  "drain_line [] = StreamEnd"
| "drain_line (b # s) = (if b = LF then LongLine s else drain_line s)"

fun read_raw_line :: "nat \<Rightarrow> bytes \<Rightarrow> bytes \<Rightarrow> raw_line" where
  "read_raw_line max_bytes line_buf [] = StreamEnd"
| "read_raw_line max_bytes line_buf (b # s) =
     (let line_buf = line_buf @ [b]
      in if b = LF then FullLine line_buf s
         else if length line_buf > max_bytes then drain_line s
         else read_raw_line max_bytes line_buf s)"

lemma drain_line_shorter: "drain_line s = LongLine r \<Longrightarrow> length r < length s"
  by (induction s) (auto split: if_splits)

lemma drain_line_not_full: "drain_line s \<noteq> FullLine l r"
  by (induction s) auto

lemma read_raw_line_full:
  "read_raw_line m l s = FullLine l' r \<Longrightarrow> length r < length s"
  by (induction s arbitrary: l) (auto simp: Let_def drain_line_not_full less_SucI split: if_splits)

lemma read_raw_line_long:
  "read_raw_line m l s = LongLine r \<Longrightarrow> length r < length s"
  by (induction s arbitrary: l) (auto simp: Let_def less_SucI split: if_splits dest!: drain_line_shorter)

function read_data_loop :: "nat \<Rightarrow> bytes \<Rightarrow> bool \<Rightarrow> bytes \<Rightarrow> (bytes \<times> bool) \<times> bytes" where
  "read_data_loop max_bytes body too_large s =
     (case read_raw_line max_bytes [] s of
        StreamEnd \<Rightarrow> ((body, too_large), [])
      | LongLine r \<Rightarrow> read_data_loop max_bytes [] True r
      | FullLine line_buf r \<Rightarrow>
          if line_buf = ''.'' @ CRLF \<or> line_buf = ''.'' @ [LF] then ((body, too_large), r)
          else let unstuffed = (if starts_with ''..'' line_buf then drop 1 line_buf else line_buf)
               in if too_large then read_data_loop max_bytes body True r
                  else let body = body @ unstuffed
                       in if length body > max_bytes then read_data_loop max_bytes [] True r
                          else read_data_loop max_bytes body False r)"
  by pat_completeness auto
termination
  by (relation "measure (\<lambda>(_, _, _, s). length s)") (auto dest: read_raw_line_full read_raw_line_long)

declare read_data_loop.simps [simp del]

definition read_data_body :: "nat \<Rightarrow> bytes \<Rightarrow> (bytes \<times> bool) \<times> bytes" where
  "read_data_body max_bytes s = read_data_loop max_bytes [] False s"

section \<open>Header and body\<close>

text \<open>The first index at which a separator stands, as both scans of the code look for it.\<close>

fun find_sub :: "bytes \<Rightarrow> bytes \<Rightarrow> nat option" where
  "find_sub sep [] = None"
| "find_sub sep (b # bs) =
     (if starts_with sep (b # bs) then Some 0 else map_option Suc (find_sub sep bs))"

definition split_headers_body :: "bytes \<Rightarrow> (bytes \<times> bytes) option" where
  "split_headers_body bs =
     (case find_sub (CRLF @ CRLF) bs of
        Some i \<Rightarrow> Some (take i bs, drop (i + 4) bs)
      | None \<Rightarrow> (case find_sub [LF, LF] bs of
                   Some i \<Rightarrow> Some (take i bs, drop (i + 2) bs)
                 | None \<Rightarrow> None))"

definition find_header_boundary :: "bytes \<Rightarrow> nat option" where
  "find_header_boundary bs =
     (case find_sub (CRLF @ CRLF) bs of
        Some i \<Rightarrow> Some (i + 4)
      | None \<Rightarrow> map_option (\<lambda>i. i + 2) (find_sub [LF, LF] bs))"

definition split_header_body :: "bytes \<Rightarrow> bytes \<times> bytes" where
  "split_header_body bs =
     (case find_header_boundary bs of
        Some body_start \<Rightarrow>
          let sep_len = (if body_start \<ge> 4 \<and> take 4 (drop (body_start - 4) bs) = CRLF @ CRLF then 4 else 2)
          in (take (body_start - sep_len) bs, drop body_start bs)
      | None \<Rightarrow> (bs, []))"

section \<open>What dot-stuffing sends\<close>

definition strip_cr :: "bytes \<Rightarrow> bytes" where
  "strip_cr l = (case strip_suffix [CR] l of Some r \<Rightarrow> r | None \<Rightarrow> l)"

text \<open>The lines of an article: a newline ends a line, with or without a carriage return before it.\<close>

definition article_lines :: "bytes \<Rightarrow> bytes list" where
  "article_lines bs = (let ps = split_on LF bs
     in map strip_cr (butlast ps) @ (if last ps = [] then [] else [last ps]))"

definition stuff_line :: "bytes \<Rightarrow> bytes" where
  "stuff_line l = (if starts_with ''.'' l then [DOT] else []) @ l @ CRLF"

lemma strip_cr_append [simp]: "strip_cr (l @ [CR]) = l"
  using strip_suffix_Some_iff [of "[CR]" "l @ [CR]" l] by (simp add: strip_cr_def)

lemma strip_cr_other: "l = [] \<or> last l \<noteq> CR \<Longrightarrow> strip_cr l = l"
  by (cases "strip_suffix [CR] l") (auto simp: strip_cr_def strip_suffix_Some_iff)

lemma article_lines_Cons: "LF \<notin> set l \<Longrightarrow> article_lines (l @ LF # r) = strip_cr l # article_lines r"
  by (simp add: article_lines_def split_on_append Let_def)

lemma article_lines_last: "LF \<notin> set l \<Longrightarrow> article_lines l = (if l = [] then [] else [l])"
  by (simp add: article_lines_def split_on_no_sep Let_def)

lemma take_drop_cons:
  assumes "start \<le> i" "i < length bs"
  shows "drop start bs = take (i - start) (drop start bs) @ bs ! i # drop (Suc i) bs"
  using assms id_take_nth_drop [of "i - start" "drop start bs"] by simp

lemma dot_stuff_loop_lines:
  assumes "start \<le> i" "i \<le> length bs" "LF \<notin> set (take (i - start) (drop start bs))"
    "start = 0 \<or> bs ! (start - 1) = LF"
  shows "case dot_stuff_loop bs start i out of (st, out') \<Rightarrow>
    (if st < length bs then out' @ stuff_line (drop st bs) else out')
      = out @ concat (map stuff_line (article_lines (drop start bs)))"
  using assms
proof (induction bs start i out rule: dot_stuff_loop.induct)
  case (1 bs start i out)
  let ?l = "take (i - start) (drop start bs)"
  consider (end_) "i = length bs" | (nl) "i < length bs" "bs ! i = LF" | (other) "i < length bs" "bs ! i \<noteq> LF"
    using "1.prems"(2) by linarith
  then show ?case
  proof cases
    case end_
    then have stop: "dot_stuff_loop bs start i out = (start, out)" by (subst dot_stuff_loop.simps) simp
    have "LF \<notin> set (drop start bs)" using "1.prems"(3) end_ by simp
    then show ?thesis unfolding stop by (auto simp: article_lines_last)
  next
    case other
    have "take (Suc i - start) (drop start bs) = ?l @ [bs ! i]"
      using "1.prems"(1) other(1) by (simp add: Suc_diff_le take_Suc_conv_app_nth)
    moreover have "dot_stuff_loop bs start i out = dot_stuff_loop bs start (i + 1) out"
      using other by (subst dot_stuff_loop.simps) simp
    ultimately show ?thesis using other "1.prems" "1.IH"(2) by simp
  next
    case nl
    let ?e = "if 0 < i \<and> bs ! (i - 1) = CR then i - 1 else i"
    let ?line = "take (?e - start) (drop start bs)"
    have line: "?line = strip_cr ?l"
    proof (cases "start = i")
      case True
      have "CR \<noteq> LF" by (simp add: CR_def LF_def byte_eval)
      with True "1.prems"(4) show ?thesis by (auto simp: strip_cr_other)
    next
      case False
      then have lt: "start < i" using "1.prems"(1) by simp
      obtain k where k: "i = Suc k" using lt by (cases i) auto
      have l: "?l = take (k - start) (drop start bs) @ [bs ! k]"
        using lt nl(1) k by (simp add: Suc_diff_le take_Suc_conv_app_nth)
      show ?thesis
      proof (cases "bs ! k = CR")
        case True
        then show ?thesis using k l by simp
      next
        case False
        then show ?thesis using k l by (simp add: strip_cr_other)
      qed
    qed
    have out: "(if starts_with ''.'' (strip_cr ?l) then out @ [DOT] else out) @ strip_cr ?l @ CRLF
        = out @ stuff_line (strip_cr ?l)" by (simp add: stuff_line_def)
    have step: "dot_stuff_loop bs start i out
        = dot_stuff_loop bs (i + 1) (i + 1) (out @ stuff_line (strip_cr ?l))"
      unfolding dot_stuff_loop.simps [of bs start i out] Let_def line
      using nl by (simp add: stuff_line_def)
    have "drop start bs = ?l @ LF # drop (Suc i) bs"
      using take_drop_cons [OF "1.prems"(1) nl(1)] nl(2) by simp
    then have al: "article_lines (drop start bs) = strip_cr ?l # article_lines (drop (Suc i) bs)"
      using article_lines_Cons [OF "1.prems"(3)] by metis
    have "case dot_stuff_loop bs (i + 1) (i + 1) (out @ stuff_line (strip_cr ?l)) of (st, out') \<Rightarrow>
        (if st < length bs then out' @ stuff_line (drop st bs) else out')
          = (out @ stuff_line (strip_cr ?l)) @ concat (map stuff_line (article_lines (drop (i + 1) bs)))"
      using "1.IH"(1) [OF nl refl refl refl refl] nl unfolding line out by simp
    then show ?thesis unfolding step al by simp
  qed
qed

lemma nntp_dot_stuff_lines: "nntp_dot_stuff bs = concat (map stuff_line (article_lines bs))"
proof -
  obtain st out' where loop: "dot_stuff_loop bs 0 0 [] = (st, out')" by fastforce
  have "(if st < length bs then out' @ stuff_line (drop st bs) else out')
      = concat (map stuff_line (article_lines bs))"
    using dot_stuff_loop_lines [of 0 0 bs "[]"] by (simp add: loop)
  then show ?thesis unfolding nntp_dot_stuff_def by (auto simp: loop Let_def stuff_line_def)
qed

text \<open>An article whose lines all end in CRLF.\<close>

definition crlf_article :: "bytes list \<Rightarrow> bytes" where
  "crlf_article ls = concat (map (\<lambda>l. l @ CRLF) ls)"

definition clean_line :: "bytes \<Rightarrow> bool" where
  "clean_line l \<longleftrightarrow> CR \<notin> set l \<and> LF \<notin> set l"

lemma crlf_distinct [simp]: "CR \<noteq> LF" "LF \<noteq> CR" "DOT \<noteq> CR" "DOT \<noteq> LF" "CR \<noteq> DOT" "LF \<noteq> DOT" "CHR ''.'' \<noteq> CR" "CHR ''.'' \<noteq> LF"
  "CR \<noteq> CHR ''.''" "LF \<noteq> CHR ''.''"
  by (simp_all add: CR_def LF_def DOT_def byte_eval)

lemma article_lines_crlf: "\<forall>l \<in> set ls. clean_line l \<Longrightarrow> article_lines (crlf_article ls) = ls"
proof (induction ls)
  case Nil
  then show ?case by (simp add: crlf_article_def article_lines_last)
next
  case (Cons l ls)
  then have "LF \<notin> set (l @ [CR])" by (simp add: clean_line_def)
  from article_lines_Cons [OF this, of "crlf_article ls"] Cons show ?case
    by (simp add: crlf_article_def CRLF_def)
qed

section \<open>What a reader makes of it\<close>

text \<open>
  What is documented of tokio's \<^verbatim>\<open>read_line\<close>: it consumes up to and including the next newline and
  fails with \<^verbatim>\<open>InvalidData\<close> when what it consumed is not valid UTF-8.
\<close>

definition reads_lines :: "(bytes \<Rightarrow> line_read list) \<Rightarrow> bool" where
  "reads_lines rl \<longleftrightarrow> (\<forall>l s. LF \<notin> set l \<longrightarrow>
     rl (l @ LF # s) = (if valid_utf8 (l @ [LF]) then Line (l @ [LF]) else ReadError InvalidData) # rl s)"

lemma trim_line_end_CRLF [simp]: "trim_line_end (l @ CRLF) = trim_line_end l"
  by (simp add: trim_line_end_def CRLF_def)

lemma trim_line_end_clean: "clean_line l \<Longrightarrow> trim_line_end l = l"
proof -
  assume "clean_line l"
  then have "rev l = [] \<or> \<not> (hd (rev l) = CR \<or> hd (rev l) = LF)"
    by (metis clean_line_def hd_in_set set_rev)
  then have "dropWhile (\<lambda>c. c = CR \<or> c = LF) (rev l) = rev l" by (simp add: dropWhile_eq_self_iff)
  then show ?thesis by (simp add: trim_line_end_def)
qed

lemma stuffed_content:
  assumes "clean_line l"
  shows "trim_line_end (stuff_line l) \<noteq> ''.''" "dot_unstuff (trim_line_end (stuff_line l)) = l"
    "(case strip_prefix ''..'' (trim_line_end (stuff_line l)) of Some rest \<Rightarrow> ''.'' @ rest @ CRLF
      | None \<Rightarrow> trim_line_end (stuff_line l) @ CRLF) = l @ CRLF"
proof -
  define w where "w = (if starts_with ''.'' l then [DOT] else []) @ l"
  have "clean_line w" using assms by (simp add: w_def clean_line_def)
  moreover have "stuff_line l = w @ CRLF" by (simp add: stuff_line_def w_def)
  ultimately have t: "trim_line_end (stuff_line l) = w" by (simp add: trim_line_end_clean)
  have strip: "strip_prefix ''..'' w = Some (tl l) \<and> l = CHR ''.'' # tl l \<or> strip_prefix ''..'' w = None \<and> w = l"
    by (cases l; cases "tl l") (auto simp: w_def starts_with_def DOT_def split: if_splits)
  show "trim_line_end (stuff_line l) \<noteq> ''.''"
    unfolding t by (cases l) (auto simp: w_def starts_with_def DOT_def)
  show "dot_unstuff (trim_line_end (stuff_line l)) = l"
    unfolding t by (cases l; cases "tl l") (auto simp: w_def starts_with_def dot_unstuff_def DOT_def)
  show "(case strip_prefix ''..'' (trim_line_end (stuff_line l)) of Some rest \<Rightarrow> ''.'' @ rest @ CRLF
      | None \<Rightarrow> trim_line_end (stuff_line l) @ CRLF) = l @ CRLF"
    unfolding t using strip by auto
qed


declare valid_utf8.simps(2) [simp del]

lemma utf8_marks [simp]: "valid_utf8 [DOT]" "valid_utf8 CRLF" "valid_utf8 (CHR ''.'' # CRLF)"
  by (intro ascii_valid_utf8; simp add: is_ascii_def DOT_def CRLF_def CR_def LF_def byte_eval)+

lemma stuff_line_utf8: "valid_utf8 l \<Longrightarrow> valid_utf8 (stuff_line l)"
  unfolding stuff_line_def by (intro valid_utf8_append) simp_all

lemma reads_stuffed:
  assumes "reads_lines rl" "clean_line l" "valid_utf8 l"
  shows "rl (stuff_line l @ s) = Line (stuff_line l) # rl s"
proof -
  obtain w where w: "stuff_line l = w @ [LF]" "LF \<notin> set w"
    using assms(2) by (auto simp: stuff_line_def CRLF_def clean_line_def)
  from assms(1) w(2) have "rl (w @ LF # s) = (if valid_utf8 (w @ [LF]) then Line (w @ [LF]) else ReadError InvalidData) # rl s"
    by (simp add: reads_lines_def)
  then show ?thesis using stuff_line_utf8 [OF assms(3)] w(1) by simp
qed

lemma reads_terminator:
  assumes "reads_lines rl"
  shows "rl (''.'' @ CRLF @ s) = Line (''.'' @ CRLF) # rl s"
proof -
  have "LF \<notin> set (''.'' @ [CR])" by simp
  moreover have "valid_utf8 (''.'' @ CRLF)" by simp
  ultimately show ?thesis using assms [unfolded reads_lines_def, rule_format, of "''.'' @ [CR]" s]
    by (simp add: CRLF_def)
qed

lemma stuff_line_not_Nil [simp]: "stuff_line l \<noteq> []"
  by (simp add: stuff_line_def CRLF_def)

definition sendable :: "bytes list \<Rightarrow> bool" where
  "sendable ls \<longleftrightarrow> (\<forall>l \<in> set ls. clean_line l \<and> valid_utf8 l)"

lemma sendable_Cons [simp]: "sendable (l # ls) \<longleftrightarrow> clean_line l \<and> valid_utf8 l \<and> sendable ls"
  by (auto simp: sendable_def)

lemma crlf_article_Cons [simp]: "crlf_article (l # ls) = l @ CRLF @ crlf_article ls"
  by (simp add: crlf_article_def)

lemma crlf_article_Nil [simp]: "crlf_article [] = []"
  by (simp add: crlf_article_def)

lemma CRLF_length [simp]: "length CRLF = 2"
  by (simp add: CRLF_def)

lemma read_dot_loop_stuffed:
  assumes "reads_lines rl" "sendable ls" "length acc + length (crlf_article ls) \<le> m"
  shows "read_dot_loop m acc False (rl (concat (map stuff_line ls) @ s))
    = read_dot_loop m (acc @ crlf_article ls) False (rl s)"
  using assms(2,3)
proof (induction ls arbitrary: acc)
  case (Cons l ls)
  then have l: "clean_line l" "valid_utf8 l" by simp_all
  have "read_dot_loop m acc False (rl (stuff_line l @ concat (map stuff_line ls) @ s))
      = read_dot_loop m (acc @ l @ CRLF) False (rl (concat (map stuff_line ls) @ s))"
    using Cons.prems(2) stuffed_content(1,2) [OF l(1)] by (simp add: reads_stuffed [OF assms(1) l] Let_def)
  then show ?case using Cons.IH [of "acc @ l @ CRLF"] Cons.prems by simp
qed simp

lemma read_dot_stuffed_loop_stuffed:
  assumes "reads_lines rl" "sendable ls" "length acc + length (crlf_article ls) \<le> MAX_ARTICLE_BYTES"
  shows "read_dot_stuffed_loop acc False (rl (concat (map stuff_line ls) @ s))
    = read_dot_stuffed_loop (acc @ crlf_article ls) False (rl s)"
  using assms(2,3)
proof (induction ls arbitrary: acc)
  case (Cons l ls)
  then have l: "clean_line l" "valid_utf8 l" by simp_all
  have "read_dot_stuffed_loop acc False (rl (stuff_line l @ concat (map stuff_line ls) @ s))
      = read_dot_stuffed_loop (acc @ l @ CRLF) False (rl (concat (map stuff_line ls) @ s))"
    unfolding reads_stuffed [OF assms(1) l] read_dot_stuffed_loop.simps Let_def stuffed_content(3) [OF l(1)]
    using Cons.prems(2) stuffed_content(1) [OF l(1)] by simp
  then show ?case using Cons.IH [of "acc @ l @ CRLF"] Cons.prems by simp
qed simp

lemma sendable_lines: "sendable ls \<Longrightarrow> article_lines (crlf_article ls) = ls"
  by (rule article_lines_crlf) (simp add: sendable_def)

lemma dot_line_trimmed [simp]: "trim_line_end (''.'' @ CRLF) = ''.''"
  by (subst trim_line_end_CRLF, rule trim_line_end_clean) (simp add: clean_line_def)

section \<open>The SMTP reader on what was sent\<close>

lemma read_raw_line_to_LF:
  "LF \<notin> set l \<Longrightarrow> length (buf @ l) \<le> m \<Longrightarrow> read_raw_line m buf (l @ LF # s) = FullLine (buf @ l @ [LF]) s"
  by (induction l arbitrary: buf) (auto simp: Let_def)

lemma read_data_loop_stuffed:
  assumes "\<forall>l \<in> set ls. clean_line l" "length acc + length (crlf_article ls) \<le> m"
  shows "read_data_loop m acc False (concat (map stuff_line ls) @ s) = read_data_loop m (acc @ crlf_article ls) False s"
  using assms
proof (induction ls arbitrary: acc)
  case (Cons l ls)
  define w where "w = (if starts_with ''.'' l then [DOT] else []) @ l @ [CR]"
  have w: "stuff_line l = w @ [LF]" by (simp add: stuff_line_def CRLF_def w_def)
  have no_lf: "LF \<notin> set w" using Cons.prems(1) by (auto simp: w_def clean_line_def)
  have unst: "(if starts_with ''..'' (w @ [LF]) then drop 1 (w @ [LF]) else w @ [LF]) = l @ CRLF"
    by (cases l; cases "tl l") (auto simp: w_def starts_with_def DOT_def CRLF_def)
  have dot: "w @ [LF] \<noteq> ''.'' @ CRLF" "w @ [LF] \<noteq> ''.'' @ [LF]"
    by (cases l; auto simp: w_def starts_with_def DOT_def CRLF_def)+
  have "length l + 2 \<le> m" using Cons.prems(2) by simp
  moreover have "length w \<le> length l + 2" by (simp add: w_def)
  ultimately have raw: "read_raw_line m [] (w @ LF # concat (map stuff_line ls) @ s)
      = FullLine (w @ [LF]) (concat (map stuff_line ls) @ s)"
    using read_raw_line_to_LF [OF no_lf, of "[]" m] by simp
  have "read_data_loop m acc False (w @ LF # concat (map stuff_line ls) @ s)
      = read_data_loop m (acc @ l @ CRLF) False (concat (map stuff_line ls) @ s)"
    unfolding read_data_loop.simps [of m acc False "w @ LF # concat (map stuff_line ls) @ s"] raw
      raw_line.case Let_def unst using dot Cons.prems(2) by simp
  then show ?case using Cons.IH [of "acc @ l @ CRLF"] Cons.prems by (simp add: w)
qed simp

lemma read_data_loop_terminator:
  assumes "t = ''.'' @ CRLF \<or> t = ''.'' @ [LF]" "2 \<le> m"
  shows "read_data_loop m acc big (t @ s) = ((acc, big), s)"
proof -
  obtain u where u: "t = u @ [LF]" "LF \<notin> set u" "length u \<le> 2"
    using assms(1) by (auto simp: CRLF_def)
  then have "read_raw_line m [] (t @ s) = FullLine t s"
    using read_raw_line_to_LF [of u "[]" m s] assms(2) by simp
  then show ?thesis using assms(1) by (subst read_data_loop.simps) auto
qed

section \<open>Round trips and broken framing\<close>

text \<open>A concrete \<^verbatim>\<open>read_line\<close> over a whole stream.\<close>

function demo_reads :: "bytes \<Rightarrow> line_read list" where
  "demo_reads s =
     (if LF \<in> set s
      then let l = takeWhile (\<lambda>c. c \<noteq> LF) s
           in (if valid_utf8 (l @ [LF]) then Line (l @ [LF]) else ReadError InvalidData)
              # demo_reads (drop (Suc (length l)) s)
      else if s = [] then [] else [if valid_utf8 s then Line s else ReadError InvalidData])"
  by pat_completeness auto
termination
  by (relation "measure length") (auto intro!: diff_less intro: length_pos_if_in_set)

declare demo_reads.simps [simp del]

lemma demo_reads_lines: "reads_lines demo_reads"
  unfolding reads_lines_def
proof (intro allI impI)
  fix l s assume l: "LF \<notin> set l"
  then have "takeWhile (\<lambda>c. c \<noteq> LF) (l @ LF # s) = l" by (induction l) auto
  then show "demo_reads (l @ LF # s)
      = (if valid_utf8 (l @ [LF]) then Line (l @ [LF]) else ReadError InvalidData) # demo_reads s"
    by (subst demo_reads.simps) (simp add: Let_def)
qed

text \<open>
  Article transfer is transparent: a sender that dot-stuffs an article of CRLF lines with
  \<^verbatim>\<open>nntp_dot_stuff\<close> and appends the terminator, and a reader that runs \<^verbatim>\<open>read_dot_terminated\<close> on the
  stream (POST) get the same bytes on both sides, and the reader stops exactly behind the
  terminator, whatever the lines hold (lines that start with dots or consist of one included), as
  long as the article fits the limit.
\<close>

lemma post_article_roundtrip:
  assumes "reads_lines rl" "sendable ls" "length (crlf_article ls) \<le> max_bytes"
  shows "post_read False max_bytes (rl (nntp_dot_stuff (crlf_article ls) @ ''.'' @ CRLF @ rest))
    = Article_received (crlf_article ls) (rl rest)"
  using read_dot_loop_stuffed [OF assms(1,2), of "[]" max_bytes "''.'' @ CRLF @ rest"] assms(3)
  by (simp add: post_read_def read_dot_terminated_def nntp_dot_stuff_lines sendable_lines [OF assms(2)]
        reads_terminator [OF assms(1), simplified] dot_line_trimmed [simplified])



text \<open>
  C15. The SMTP reader \<^verbatim>\<open>read_data_body\<close> undoes dot-stuffing too, and it ends the message at the
  terminator as RFC 5321 writes it and just as well at a line holding a dot and a bare line feed:
  what follows such a line is read as SMTP commands, although its sender meant it as content.
\<close>

theorem smtp_body_roundtrip:
  assumes "\<forall>l \<in> set ls. clean_line l" "length (crlf_article ls) \<le> max_bytes" "2 \<le> max_bytes"
    "t = ''.'' @ CRLF \<or> t = ''.'' @ [LF]"
  shows "read_data_body max_bytes (nntp_dot_stuff (crlf_article ls) @ t @ rest) = ((crlf_article ls, False), rest)"
  using read_data_loop_stuffed [OF assms(1), of "[]" max_bytes "t @ rest"] assms(2)
    read_data_loop_terminator [OF assms(4,3)]
  by (simp add: read_data_body_def nntp_dot_stuff_lines article_lines_crlf [OF assms(1)])

theorem smtp_body_roundtrip_witness:
  "read_data_body 100 (nntp_dot_stuff (crlf_article [''.'', ''a'']) @ (''.'' @ [LF]) @ ''MAIL FROM:<x>'' @ CRLF)
    = ((crlf_article [''.'', ''a''], False), ''MAIL FROM:<x>'' @ CRLF)"
  by (rule smtp_body_roundtrip) (auto simp: clean_line_def CR_def LF_def byte_eval)

text \<open>
  C16. A posted article with a line that is not UTF-8 desynchronises the reader: \<^verbatim>\<open>read_line\<close> fails
  with \<^verbatim>\<open>InvalidData\<close>, which the command loop takes for an oversized article that has been drained;
  it answers 441 and reads the rest of the article, up to and beyond its terminator, as commands.
\<close>

theorem post_invalid_utf8_desync:
  assumes "reads_lines rl" "sendable ls" "length (crlf_article ls) \<le> max_bytes"
    "LF \<notin> set l" "\<not> valid_utf8 (l @ [LF])"
  shows "post_read False max_bytes (rl (nntp_dot_stuff (crlf_article ls) @ l @ LF # rest))
    = Rejected_continue (''441 Article too large'' @ CRLF) (rl rest)"
proof -
  have "rl (l @ LF # rest) = ReadError InvalidData # rl rest"
    using assms(1,4,5) by (simp add: reads_lines_def)
  then show ?thesis
    using read_dot_loop_stuffed [OF assms(1,2), of "[]" max_bytes "l @ LF # rest"] assms(3)
    by (simp add: post_read_def read_dot_terminated_def nntp_dot_stuff_lines sendable_lines [OF assms(2)])
qed

theorem post_invalid_utf8_desync_witness:
  "post_read False 100 (demo_reads (nntp_dot_stuff (crlf_article [''a'']) @ [CHR 0xE9] @ LF # ''QUIT'' @ CRLF))
    = Rejected_continue (''441 Article too large'' @ CRLF) (demo_reads (''QUIT'' @ CRLF))"
  by (rule post_invalid_utf8_desync [OF demo_reads_lines])
    (auto simp: clean_line_def is_ascii_def CR_def LF_def byte_eval sendable_def utf8_next_def nth_ok_def Let_def
          valid_utf8.simps(2) between_def
          intro!: ascii_valid_utf8)

end
