(* ===== verification/SieveLexer.thy ===== *)
theory SieveLexer
  imports Article
begin

text \<open>
  The tokenizer of the Sieve language (\<^verbatim>\<open>crates/sieve-native/src/lexer.rs\<close>). The source is the list of
  its characters, each as its UTF-8 encoding; the position of the cursor is a line and a column,
  which only error values show.
\<close>

section \<open>Tokens and errors\<close>

type_synonym uchar = bytes

datatype token =
    TWord bytes
  | TTag bytes
  | StringLit bytes
  | Number u64
  | LBracket
  | RBracket
  | LParen
  | RParen
  | LBrace
  | RBrace
  | Semicolon
  | Comma

record parse_error =
  pe_message :: bytes
  pe_line :: nat
  pe_col :: nat

type_synonym lex_pos = "nat \<times> nat"

fun parse_err :: "bytes \<Rightarrow> lex_pos \<Rightarrow> parse_error" where
  "parse_err m (l, c) = \<lparr>pe_message = m, pe_line = l, pe_col = c\<rparr>"

definition APOS :: char where "APOS = CHR 0x27"
definition QUOT :: uchar where "QUOT = [CHR 0x22]"
definition BACKSLASH :: uchar where "BACKSLASH = [CHR 0x5C]"

section \<open>The cursor\<close>

text \<open>What the macro \<^verbatim>\<open>advance!\<close> does to the position when it consumes a character.\<close>

fun advance :: "uchar \<Rightarrow> lex_pos \<Rightarrow> lex_pos" where
  "advance ch (line, col) = (if ch = [LF] then (line + 1, 1) else (line, col + 1))"

fun uchar_is :: "(char \<Rightarrow> bool) \<Rightarrow> uchar \<Rightarrow> bool" where
  "uchar_is P [b] = P b"
| "uchar_is P _ = False"

definition ident_start :: "uchar \<Rightarrow> bool" where
  "ident_start c = (uchar_is is_ascii_alphabetic c \<or> c = ''_'')"

definition ident_char :: "uchar \<Rightarrow> bool" where
  "ident_char c = (uchar_is is_ascii_alphanumeric c \<or> c = ''_'')"

text \<open>The loops \<^verbatim>\<open>while matches!(chars.peek(), Some(c) if P c) { s.push(advance!()) }\<close>.\<close>

fun push_while :: "(uchar \<Rightarrow> bool) \<Rightarrow> lex_pos \<Rightarrow> uchar list \<Rightarrow> bytes \<times> lex_pos \<times> uchar list" where
  "push_while P p [] = ([], p, [])"
| "push_while P p (ch # cs) =
     (if P ch then (case push_while P (advance ch p) cs of (s, r) \<Rightarrow> (ch @ s, r)) else ([], p, ch # cs))"

lemma push_while_shorter: "push_while P p cs = (s, q, r) \<Longrightarrow> length r \<le> length cs"
  by (induction cs arbitrary: p s) (auto split: if_splits prod.splits simp: le_SucI)

lemma push_while_first:
  assumes "push_while P p (ch # cs) = (s, q, r)" "P ch"
  shows "length r \<le> length cs"
proof (cases "push_while P (advance ch p) cs")
  case (fields s' q' r')
  with assms have "r = r'" by simp
  with push_while_shorter [OF fields] show ?thesis by simp
qed

section \<open>Comments\<close>

fun skip_block_comment :: "lex_pos \<Rightarrow> uchar list \<Rightarrow> (lex_pos \<times> uchar list) option" where
  "skip_block_comment p [] = None"
| "skip_block_comment p (ch # cs) =
     (if ch = ''*''
      then let p' = advance ch p
           in (case cs of
                 c2 # cs2 \<Rightarrow> if c2 = ''/'' then Some (advance c2 p', cs2) else skip_block_comment p' cs
               | [] \<Rightarrow> skip_block_comment p' cs)
      else skip_block_comment (advance ch p) cs)"

lemma skip_block_comment_shorter: "skip_block_comment p cs = Some (q, r) \<Longrightarrow> length r \<le> length cs"
proof (induction cs arbitrary: p)
  case (Cons ch cs)
  from Cons.prems have "skip_block_comment (advance ch p) cs = Some (q, r) \<or> (\<exists>c2. cs = c2 # r)"
    unfolding skip_block_comment.simps Let_def by (auto split: if_splits list.splits simp del: skip_block_comment.simps)
  with Cons.IH [of "advance ch p"] show ?case by auto
qed simp

section \<open>Numbers\<close>

definition digits_value :: "bytes \<Rightarrow> nat" where
  "digits_value s = foldl (\<lambda>n c. 10 * n + (of_char c - 48)) 0 s"

text \<open>\<^verbatim>\<open>str::parse::<u64>\<close> on a non-empty string of digits.\<close>

definition parse_u64 :: "bytes \<Rightarrow> u64 option" where
  "parse_u64 s = (if digits_value s < 2 ^ 64 then Some (of_nat (digits_value s)) else None)"

definition checked_mul_u64 :: "u64 \<Rightarrow> u64 \<Rightarrow> u64 option" where
  "checked_mul_u64 a b = (if unat a * unat b < 2 ^ 64 then Some (a * b) else None)"

fun size_multiplier :: "lex_pos \<Rightarrow> uchar list \<Rightarrow> u64 \<times> lex_pos \<times> uchar list" where
  "size_multiplier p [] = (1, p, [])"
| "size_multiplier p (ch # cs) =
     (if ch \<in> {''K'', ''k''} then (1024, advance ch p, cs)
      else if ch \<in> {''M'', ''m''} then (1024 * 1024, advance ch p, cs)
      else if ch \<in> {''G'', ''g''} then (1024 * 1024 * 1024, advance ch p, cs)
      else (1, p, ch # cs))"

lemma size_multiplier_shorter: "size_multiplier p cs = (m, q, r) \<Longrightarrow> length r \<le> length cs"
  by (cases cs) (auto split: if_splits)

definition lex_number :: "lex_pos \<Rightarrow> uchar list \<Rightarrow> parse_error + token \<times> lex_pos \<times> uchar list" where
  "lex_number p chars =
     (case push_while (uchar_is is_ascii_digit) p chars of (num_str, p, chars) \<Rightarrow>
      case parse_u64 num_str of
        None \<Rightarrow> Inl (parse_err (''number overflow: '' @ num_str) p)
      | Some base \<Rightarrow>
          (case size_multiplier p chars of (multiplier, p, chars) \<Rightarrow>
           case checked_mul_u64 base multiplier of
             None \<Rightarrow> Inl (parse_err (''number overflow applying multiplier to '' @ show_nat (unat base)) p)
           | Some v \<Rightarrow> Inr (Number v, p, chars)))"

section \<open>Strings\<close>

fun lex_quoted :: "lex_pos \<Rightarrow> lex_pos \<Rightarrow> uchar list \<Rightarrow> bytes \<Rightarrow> parse_error + token \<times> lex_pos \<times> uchar list" where
  "lex_quoted err_at p [] s = Inl (parse_err ''unterminated string literal'' err_at)"
| "lex_quoted err_at p (ch # cs) s =
     (if ch = QUOT then Inr (StringLit s, advance ch p, cs)
      else if ch = BACKSLASH
      then let p = advance ch p
           in (case cs of
                 [] \<Rightarrow> Inl (parse_err ''unexpected end of input after backslash'' err_at)
               | c2 # cs2 \<Rightarrow>
                   if c2 = QUOT then lex_quoted err_at (advance c2 p) cs2 (s @ QUOT)
                   else if c2 = BACKSLASH then lex_quoted err_at (advance c2 p) cs2 (s @ BACKSLASH)
                   else lex_quoted err_at (advance c2 p) cs2 (s @ BACKSLASH @ c2))
      else lex_quoted err_at (advance ch p) cs (s @ ch))"

lemma lex_quoted_shorter: "lex_quoted e p cs s = Inr (t, q, r) \<Longrightarrow> length r < length cs"
proof (induction e p cs s rule: lex_quoted.induct)
  case (2 e p ch cs s)
  then show ?case by (cases cs) (auto simp: Let_def less_SucI split: if_splits)
qed simp

lemma push_while_line_shorter:
  assumes "chars \<noteq> []" "(s, y) = push_while P p chars" "(q, r) = y"
    "(q', r') = (case r of [] \<Rightarrow> (q, []) | c # cs \<Rightarrow> (advance c q, cs))"
  shows "length r' < length chars"
proof -
  have "length r \<le> length chars" using assms(2,3) push_while_shorter [of P p chars s q r] by simp
  with assms(1,4) show ?thesis by (cases r) auto
qed

text \<open>The content of a \<^verbatim>\<open>text:\<close> string up to the line that holds a single dot.\<close>

function lex_multiline :: "lex_pos \<Rightarrow> lex_pos \<Rightarrow> uchar list \<Rightarrow> bytes \<Rightarrow> parse_error + token \<times> lex_pos \<times> uchar list" where
  "lex_multiline err_at p chars content =
     (if chars = []
      then Inl (parse_err (''unterminated multiline string (missing '' @ [APOS] @ ''.'' @ [APOS] @ '' terminator)'') err_at)
      else case push_while (\<lambda>c. c \<noteq> [LF]) p chars of (line_buf, p, chars) \<Rightarrow>
        let (p, chars) = (case chars of [] \<Rightarrow> (p, []) | c # cs \<Rightarrow> (advance c p, cs));
            line_trimmed = (case strip_suffix [CR] line_buf of Some l \<Rightarrow> l | None \<Rightarrow> line_buf)
        in if line_trimmed = ''.'' then Inr (StringLit content, p, chars)
           else let stored = (case strip_prefix ''..'' line_trimmed of Some rest \<Rightarrow> ''.'' @ rest | None \<Rightarrow> line_trimmed);
                    content = (if content = [] then content else content @ [LF]) @ stored
                in lex_multiline err_at p chars content)"
  by pat_completeness auto

termination
  by (relation "measure (\<lambda>(_, _, chars, _). length chars)") (simp, simp add: push_while_line_shorter)

declare lex_multiline.simps [simp del]

section \<open>The tokenizer\<close>

text \<open>A word, or after the word \<^verbatim>\<open>text\<close> and a colon a multi-line string.\<close>

definition lex_word :: "lex_pos \<Rightarrow> uchar list \<Rightarrow> parse_error + token \<times> lex_pos \<times> uchar list" where
  "lex_word p chars =
     (case push_while ident_char p chars of (word, p, chars) \<Rightarrow>
      case chars of
        [] \<Rightarrow> Inr (TWord word, p, [])
      | ch # cs \<Rightarrow>
          if word = ''text'' \<and> ch = '':''
          then let err_at = p; p = advance ch p;
                   (p, cs) = (case cs of c # cs' \<Rightarrow> if c = [CR] then (advance c p, cs') else (p, cs) | [] \<Rightarrow> (p, []))
               in (case cs of
                     c # cs' \<Rightarrow>
                       if c = [LF] then lex_multiline err_at (advance c p) cs' []
                       else Inl (parse_err (''expected newline after '' @ [APOS] @ ''text:'' @ [APOS]) err_at)
                   | [] \<Rightarrow> Inl (parse_err (''expected newline after '' @ [APOS] @ ''text:'' @ [APOS]) err_at))
          else Inr (TWord word, p, ch # cs))"

definition lex_tag :: "lex_pos \<Rightarrow> uchar \<Rightarrow> uchar list \<Rightarrow> parse_error + token \<times> lex_pos \<times> uchar list" where
  "lex_tag p ch cs =
     (if cs \<noteq> [] \<and> ident_start (hd cs)
      then (case push_while ident_char (advance ch p) cs of (ident, r) \<Rightarrow> Inr (TTag ident, r))
      else Inl (parse_err (''expected identifier after '' @ [APOS] @ '':'' @ [APOS]) p))"

definition punctuation :: "uchar \<Rightarrow> token option" where
  "punctuation ch = map_of
     [(''['', LBracket), ('']'', RBracket), (''('', LParen), ('')'', RParen),
      (''{'', LBrace), (''}'', RBrace), ('';'', Semicolon), ('','', Comma)] ch"

text \<open>One round of the loop of \<^verbatim>\<open>tokenize\<close> at a character: a token or none, and the cursor after it.\<close>

definition lex_round :: "lex_pos \<Rightarrow> uchar \<Rightarrow> uchar list \<Rightarrow> parse_error + token option \<times> lex_pos \<times> uchar list" where
  "lex_round p ch cs =
     (let some = (\<lambda>r. case r of Inl e \<Rightarrow> Inl e | Inr (t, q) \<Rightarrow> Inr (Some t, q))
      in if uchar_is is_ascii_whitespace ch then Inr (None, advance ch p, cs)
      else if ch = ''#''
      then (case push_while (\<lambda>c. c \<noteq> [LF]) (advance ch p) cs of (_, r) \<Rightarrow> Inr (None, r))
      else if ch = ''/''
      then (case cs of
              c2 # cs2 \<Rightarrow>
                if c2 \<noteq> ''*'' then Inl (parse_err (''unexpected '' @ [APOS] @ ''/'' @ [APOS]) p)
                else (case skip_block_comment (advance c2 (advance ch p)) cs2 of
                        None \<Rightarrow> Inl (parse_err ''unterminated block comment'' p)
                      | Some r \<Rightarrow> Inr (None, r))
            | [] \<Rightarrow> Inl (parse_err (''unexpected '' @ [APOS] @ ''/'' @ [APOS]) p))
      else case punctuation ch of
        Some t \<Rightarrow> Inr (Some t, advance ch p, cs)
      | None \<Rightarrow>
          if ch = '':'' then some (lex_tag p ch cs)
          else if uchar_is is_ascii_digit ch then some (lex_number p (ch # cs))
          else if ident_start ch then some (lex_word p (ch # cs))
          else if ch = QUOT then some (lex_quoted p (advance ch p) cs [])
          else Inl (parse_err (''unexpected character '' @ [APOS] @ ch @ [APOS]) p))"

lemma lex_multiline_shorter: "lex_multiline e p cs s = Inr (t, q, r) \<Longrightarrow> length r < length cs"
proof (induction e p cs s rule: lex_multiline.induct)
  case (1 e p cs s)
  obtain l p1 r1 where pw: "push_while (\<lambda>c. c \<noteq> [LF]) p cs = (l, p1, r1)" using prod_cases3 by blast
  obtain p2 r2 where nl: "(case r1 of [] \<Rightarrow> (p1, []) | c # cs \<Rightarrow> (advance c p1, cs)) = (p2, r2)" by fastforce
  have ne: "cs \<noteq> []" using "1.prems" lex_multiline.simps [of e p "[]" s] by auto
  have less: "length r2 < length cs" using push_while_line_shorter [OF ne pw [symmetric] refl nl [symmetric]] .
  define lt where "lt = (case strip_suffix [CR] l of Some m \<Rightarrow> m | None \<Rightarrow> l)"
  show ?case
  proof (cases "lt = ''.''")
    case True
    with "1.prems" pw nl ne less show ?thesis
      by (simp add: lex_multiline.simps [of e p cs s] lt_def)
  next
    case False
    have "length r < length r2"
      using "1.prems" "1.IH" [OF ne pw [symmetric] refl nl [symmetric] refl lt_def False refl refl] False pw nl ne
      by (simp add: lex_multiline.simps [of e p cs s] Let_def flip: lt_def cong: option.case_cong)
    with less show ?thesis by simp
  qed
qed

lemma lex_number_shorter:
  assumes "lex_number p (ch # cs) = Inr (t, q, r)" "uchar_is is_ascii_digit ch"
  shows "length r \<le> length cs"
proof -
  obtain s p1 r1 where pw: "push_while (uchar_is is_ascii_digit) p (ch # cs) = (s, p1, r1)" using prod_cases3 by blast
  have "length r1 \<le> length cs" by (rule push_while_first [OF pw assms(2)])
  moreover have "length r \<le> length r1"
    using assms(1) size_multiplier_shorter [of p1 r1] unfolding lex_number_def pw
    by (auto split: option.splits prod.splits)
  ultimately show ?thesis by simp
qed

lemma ident_start_char: "ident_start c \<Longrightarrow> ident_char c"
  by (cases "(is_ascii_alphabetic, c)" rule: uchar_is.cases)
    (auto simp: ident_start_def ident_char_def is_ascii_alphanumeric_def)

lemma lex_word_shorter:
  assumes "lex_word p (ch # cs) = Inr (t, q, r)" "ident_start ch"
  shows "length r \<le> length cs"
proof -
  obtain s p1 r1 where pw: "push_while ident_char p (ch # cs) = (s, p1, r1)" using prod_cases3 by blast
  have "length r1 \<le> length cs" by (rule push_while_first [OF pw ident_start_char [OF assms(2)]])
  moreover have "length r \<le> length r1"
    using assms(1) unfolding lex_word_def pw
    by (auto simp: Let_def less_imp_le split: list.splits if_splits dest!: lex_multiline_shorter)
  ultimately show ?thesis by simp
qed

lemma lex_round_shorter:
  assumes "lex_round p ch cs = Inr (t, q, r)"
  shows "length r \<le> length cs"
proof -
  have comment: "push_while P p' cs = (s, q, r) \<Longrightarrow> ?thesis" for P p' s by (rule push_while_shorter)
  have block: "cs = c # cs' \<Longrightarrow> skip_block_comment p' cs' = Some (q, r) \<Longrightarrow> ?thesis" for c cs' p'
    using skip_block_comment_shorter [of p' cs' q r] by simp
  have tag: "lex_tag p ch cs = Inr (t', q, r) \<Longrightarrow> ?thesis" for t'
    using push_while_shorter [of ident_char "advance ch p" cs] by (auto simp: lex_tag_def split: if_splits prod.splits)
  have quoted: "lex_quoted p p' cs [] = Inr (t', q, r) \<Longrightarrow> ?thesis" for p' t'
    using lex_quoted_shorter [of p p' cs "[]" t' q r] by simp
  show ?thesis
    using assms comment block tag quoted lex_number_shorter [of p ch cs _ q r] lex_word_shorter [of p ch cs _ q r]
    unfolding lex_round_def Let_def
    by (auto split: if_splits option.splits list.splits sum.splits prod.splits)
qed

function tokenize_loop :: "lex_pos \<Rightarrow> uchar list \<Rightarrow> token list \<Rightarrow> parse_error + token list" where
  "tokenize_loop p [] tokens = Inr tokens"
| "tokenize_loop p (ch # cs) tokens =
     (case lex_round p ch cs of
        Inl e \<Rightarrow> Inl e
      | Inr (None, q, r) \<Rightarrow> tokenize_loop q r tokens
      | Inr (Some t, q, r) \<Rightarrow> tokenize_loop q r (tokens @ [t]))"
  by pat_completeness auto
termination
  by (relation "measure (\<lambda>(_, cs, _). length cs)") (auto simp: less_Suc_eq_le intro: lex_round_shorter)

definition tokenize :: "bytes \<Rightarrow> parse_error + token list" where
  "tokenize src = tokenize_loop (1, 1) (str_chars src) []"

section \<open>Reading printed tokens\<close>

definition uchar_wf :: "uchar \<Rightarrow> bool" where
  "uchar_wf u \<longleftrightarrow> u \<noteq> [] \<and> length u = utf8_width (hd u)"

lemma str_chars_uchar: "uchar_wf u \<Longrightarrow> str_chars (u @ s) = u # str_chars s"
proof (cases u)
  case (Cons c cs)
  assume "uchar_wf u"
  with Cons have "utf8_width c = Suc (length cs)" by (simp add: uchar_wf_def)
  with Cons show ?thesis by simp
qed (simp add: uchar_wf_def)

lemma str_chars_concat: "\<forall>u \<in> set us. uchar_wf u \<Longrightarrow> str_chars (concat us) = us"
  by (induction us) (simp_all add: str_chars_uchar)

lemma utf8_next_width: "utf8_next c cs = (True, n) \<Longrightarrow> n = utf8_width c \<and> n - 1 \<le> length cs"
  unfolding utf8_next_def
  by (auto simp: between_def utf8_width_def Let_def dest!: nth_ok_length split: if_splits)

lemma str_chars_utf8:
  "valid_utf8 s \<Longrightarrow> concat (str_chars s) = s \<and> (\<forall>u \<in> set (str_chars s). uchar_wf u)"
proof (induction s rule: str_chars.induct)
  case (2 c cs)
  obtain v n where u: "utf8_next c cs = (v, n)" by fastforce
  with "2.prems" have v: "utf8_next c cs = (True, n)" "valid_utf8 (drop (n - 1) cs)" by simp_all
  have n: "n = utf8_width c" "n - 1 \<le> length cs" using utf8_next_width [OF v(1)] by blast+
  obtain k where k: "utf8_width c = Suc k" using utf8_width_pos [of c] by (cases "utf8_width c") auto
  from "2.IH" v(2) n have "concat (str_chars (drop k cs)) = drop k cs"
    "\<forall>u \<in> set (str_chars (drop k cs)). uchar_wf u" by (simp_all add: k)
  moreover have "uchar_wf (c # take k cs)" using n k by (simp add: uchar_wf_def)
  ultimately show ?case by (simp add: k)
qed simp

text \<open>A token as a script may write it, each followed by a blank.\<close>

definition escape_uchar :: "uchar \<Rightarrow> uchar list" where
  "escape_uchar u = (if u = QUOT \<or> u = BACKSLASH then [BACKSLASH, u] else [u])"

definition singles :: "bytes \<Rightarrow> uchar list" where
  "singles s = map (\<lambda>c. [c]) s"

fun token_uchars :: "token \<Rightarrow> uchar list" where
  "token_uchars (TWord w) = singles w"
| "token_uchars (TTag w) = singles ('':'' @ w)"
| "token_uchars (StringLit s) = QUOT # concat (map escape_uchar (str_chars s)) @ [QUOT]"
| "token_uchars (Number n) = singles (show_nat (unat n))"
| "token_uchars LBracket = [''['']"
| "token_uchars RBracket = ['']'']"
| "token_uchars LParen = [''('']"
| "token_uchars RParen = ['')'']"
| "token_uchars LBrace = [''{'']"
| "token_uchars RBrace = [''}'']"
| "token_uchars Semicolon = ['';'']"
| "token_uchars Comma = ['','']"

definition print_uchars :: "token list \<Rightarrow> uchar list" where
  "print_uchars ts = concat (map (\<lambda>t. token_uchars t @ ['' '']) ts)"

definition print_tokens :: "token list \<Rightarrow> bytes" where
  "print_tokens ts = concat (print_uchars ts)"

definition is_ident :: "bytes \<Rightarrow> bool" where
  "is_ident w \<longleftrightarrow> w \<noteq> [] \<and> ident_start [hd w] \<and> (\<forall>c \<in> set w. ident_char [c])"

fun token_ok :: "token \<Rightarrow> bool" where
  "token_ok (TWord w) = is_ident w"
| "token_ok (TTag w) = is_ident w"
| "token_ok (StringLit s) = valid_utf8 s"
| "token_ok _ = True"

definition advance_all :: "uchar list \<Rightarrow> lex_pos \<Rightarrow> lex_pos" where
  "advance_all us p = fold advance us p"

lemma advance_all_simps [simp]:
  "advance_all [] p = p"
  "advance_all (u # us) p = advance_all us (advance u p)"
  "advance_all (us @ vs) p = advance_all vs (advance_all us p)"
  by (simp_all add: advance_all_def)

lemma singles_simps [simp]:
  "singles [] = []" "singles (c # w) = [c] # singles w" "singles (v @ w) = singles v @ singles w"
  by (simp_all add: singles_def)

lemma push_while_singles:
  "\<forall>c \<in> set w. P [c] \<Longrightarrow> \<not> P u \<Longrightarrow> push_while P p (singles w @ u # r) = (w, advance_all (singles w) p, u # r)"
  by (induction w arbitrary: p) simp_all

lemma escape_uchar_simps:
  "escape_uchar QUOT = [BACKSLASH, QUOT]" "escape_uchar BACKSLASH = [BACKSLASH, BACKSLASH]"
  "u \<noteq> QUOT \<Longrightarrow> u \<noteq> BACKSLASH \<Longrightarrow> escape_uchar u = [u]"
  by (simp_all add: escape_uchar_def)

lemma lex_quoted_escaped:
  "lex_quoted e p (concat (map escape_uchar us) @ QUOT # r) acc
     = Inr (StringLit (acc @ concat us), advance_all (concat (map escape_uchar us) @ [QUOT]) p, r)"
proof (induction us arbitrary: p acc)
  case (Cons u us)
  have ne: "QUOT \<noteq> BACKSLASH" by (simp add: QUOT_def BACKSLASH_def)
  consider "u = QUOT" | "u = BACKSLASH" | "u \<noteq> QUOT" "u \<noteq> BACKSLASH" by blast
  then show ?case
    using Cons.IH ne by cases (simp_all add: escape_uchar_simps Let_def)
qed simp

lemma digits_value_append: "digits_value (s @ [c]) = 10 * digits_value s + (of_char c - 48)"
  by (simp add: digits_value_def)

lemma digits_value_show_nat: "digits_value (show_nat n) = n"
proof (induction n rule: less_induct)
  case (less n)
  show ?case
  proof (cases "n < 10")
    case True
    then show ?thesis by (simp add: show_nat.simps [of n] digits_value_def of_char_byte)
  next
    case False
    then have "digits_value (show_nat n) = 10 * (n div 10) + n mod 10"
      using less.IH [of "n div 10"] by (simp add: show_nat.simps [of n] digits_value_append of_char_byte)
    then show ?thesis by simp
  qed
qed

lemma show_nat_digits: "c \<in> set (show_nat n) \<Longrightarrow> is_ascii_digit c"
proof (induction n rule: less_induct)
  case (less n)
  have digit: "k < 10 \<Longrightarrow> is_ascii_digit (byte (48 + k))" for k
    by (simp add: is_ascii_digit_def of_char_byte)
  show ?case
  proof (cases "n < 10 \<or> c = byte (48 + n mod 10)")
    case True
    then show ?thesis using less.prems digit by (auto simp: show_nat.simps [of n] split: if_splits)
  next
    case False
    then show ?thesis using less.prems less.IH [of "n div 10"] by (simp add: show_nat.simps [of n])
  qed
qed

lemma show_nat_not_Nil [simp]: "show_nat n \<noteq> []"
  by (simp add: show_nat.simps [of n])

definition specials :: "char list" where
  "specials = ''[](){};,#/:''"

lemma not_special:
  assumes "c \<notin> set specials"
  shows "punctuation [c] = None" "c \<noteq> CHR ''#''" "c \<noteq> CHR ''/''" "c \<noteq> CHR '':''"
  using assms by (simp_all add: specials_def punctuation_def)

lemma special_cases: "c \<in> set specials \<Longrightarrow> \<not> ident_start [c] \<and> \<not> is_ascii_digit c"
  unfolding specials_def list.set
  by (elim insertE emptyE; simp add: ident_start_def is_ascii_alphabetic_def is_ascii_digit_def)

lemma white_cases: "is_ascii_whitespace c \<Longrightarrow> \<not> is_ascii_alphabetic c \<and> \<not> is_ascii_digit c \<and> c \<noteq> CHR ''_''"
  by (auto simp: is_ascii_whitespace_def is_ascii_alphabetic_def is_ascii_digit_def Let_def)

lemma ident_start_plain:
  assumes "ident_start [c]"
  shows "\<not> is_ascii_whitespace c" "\<not> is_ascii_digit c" "c \<notin> set specials"
proof -
  show "\<not> is_ascii_whitespace c" using assms white_cases by (auto simp: ident_start_def)
  show "c \<notin> set specials" using assms special_cases by blast
  show "\<not> is_ascii_digit c" using assms
    by (auto simp: ident_start_def is_ascii_alphabetic_def is_ascii_digit_def Let_def)
qed

lemma digit_plain:
  assumes "is_ascii_digit c"
  shows "\<not> is_ascii_whitespace c" "c \<notin> set specials"
  using assms white_cases special_cases by blast+

lemma blank_plain [simp]: "\<not> ident_char '' ''" "\<not> is_ascii_digit CHR '' ''"
  by (simp_all add: ident_char_def is_ascii_alphanumeric_def is_ascii_alphabetic_def is_ascii_digit_def)

lemma parse_show_u64: "parse_u64 (show_nat (unat n)) = Some n"
  using unsigned_less [of n] by (simp add: parse_u64_def digits_value_show_nat)

lemma lex_number_print:
  "lex_number p (singles (show_nat (unat n)) @ '' '' # r)
     = Inr (Number n, advance_all (singles (show_nat (unat n))) p, '' '' # r)"
proof -
  have "push_while (uchar_is is_ascii_digit) p (singles (show_nat (unat n)) @ '' '' # r)
      = (show_nat (unat n), advance_all (singles (show_nat (unat n))) p, '' '' # r)"
    by (rule push_while_singles) (auto dest: show_nat_digits)
  moreover have "checked_mul_u64 n 1 = Some n"
    using unsigned_less [of n] by (simp add: checked_mul_u64_def)
  ultimately show ?thesis by (simp add: lex_number_def parse_show_u64)
qed

lemma lex_word_print:
  "\<forall>c \<in> set w. ident_char [c] \<Longrightarrow>
    lex_word p (singles w @ '' '' # r) = Inr (TWord w, advance_all (singles w) p, '' '' # r)"
  by (simp add: lex_word_def push_while_singles)

lemma lex_tag_print:
  "is_ident w \<Longrightarrow> lex_tag p '':'' (singles w @ '' '' # r) = Inr (TTag w, advance_all (singles ('':'' @ w)) p, '' '' # r)"
  by (cases w) (auto simp: lex_tag_def is_ident_def push_while_singles)

lemma lex_round_token:
  assumes "token_ok t"
  shows "\<exists>ch cs. token_uchars t = ch # cs
    \<and> (\<forall>p r. lex_round p ch (cs @ '' '' # r) = Inr (Some t, advance_all (token_uchars t) p, '' '' # r))"
proof (cases t)
  case (TWord w)
  with assms obtain c w' where w: "w = c # w'" "ident_start [c]" "\<forall>c \<in> set w. ident_char [c]"
    by (cases w) (auto simp: is_ident_def)
  have "lex_round p [c] (singles w' @ '' '' # r) = Inr (Some t, advance_all (singles w) p, '' '' # r)" for p r
    using lex_word_print [OF w(3), of p r] ident_start_plain [OF w(2)] w(1,2) TWord
    by (simp add: lex_round_def Let_def not_special)
  with TWord w(1) show ?thesis by simp
next
  case (TTag w)
  with assms lex_tag_print show ?thesis by (simp add: lex_round_def Let_def punctuation_def is_ascii_whitespace_def)
next
  case (Number n)
  obtain c w where w: "show_nat (unat n) = c # w" by (cases "show_nat (unat n)") auto
  then have d: "is_ascii_digit c" using show_nat_digits [of c "unat n"] by simp
  have "lex_round p [c] (singles w @ '' '' # r) = Inr (Some t, advance_all (singles (c # w)) p, '' '' # r)" for p r
    using lex_number_print [of p n r] digit_plain [OF d] d w Number
    by (simp add: lex_round_def Let_def not_special)
  with Number w show ?thesis by simp
next
  case (StringLit s)
  let ?e = "concat (map escape_uchar (str_chars s))"
  have s: "concat (str_chars s) = s" using assms StringLit str_chars_utf8 by simp
  have "lex_round p QUOT ((?e @ [QUOT]) @ '' '' # r) = Inr (Some t, advance_all (?e @ [QUOT]) (advance QUOT p), '' '' # r)" for p r
    using lex_quoted_escaped [of p "advance QUOT p" "str_chars s" "'' '' # r" "[]"] StringLit
    by (simp add: lex_round_def Let_def s)
      (simp add: QUOT_def punctuation_def is_ascii_whitespace_def is_ascii_digit_def ident_start_def is_ascii_alphabetic_def)
  with StringLit show ?thesis by simp
qed (simp_all add: lex_round_def Let_def punctuation_def is_ascii_whitespace_def)

lemma lex_round_blank: "lex_round p '' '' cs = Inr (None, advance '' '' p, cs)"
  by (simp add: lex_round_def Let_def is_ascii_whitespace_def)

lemma tokenize_loop_print:
  "\<forall>t \<in> set ts. token_ok t \<Longrightarrow> tokenize_loop p (print_uchars ts) acc = Inr (acc @ ts)"
proof (induction ts arbitrary: p acc)
  case (Cons t ts)
  then obtain ch cs where t: "token_uchars t = ch # cs"
    "\<And>p r. lex_round p ch (cs @ '' '' # r) = Inr (Some t, advance_all (token_uchars t) p, '' '' # r)"
    using lex_round_token [of t] by auto
  have "print_uchars (t # ts) = ch # cs @ '' '' # print_uchars ts" by (simp add: print_uchars_def t(1))
  with Cons show ?case by (simp add: t(2) lex_round_blank)
qed (simp add: print_uchars_def)

lemma ascii_uchar: "of_char c < (128 :: nat) \<Longrightarrow> uchar_wf [c]"
  by (simp add: uchar_wf_def utf8_width_def)

lemma ident_ascii: "ident_char [c] \<Longrightarrow> of_char c < (128 :: nat)"
  by (auto simp: ident_char_def is_ascii_alphanumeric_def is_ascii_alphabetic_def is_ascii_digit_def Let_def)

lemma token_uchars_wf: "token_ok t \<Longrightarrow> \<forall>u \<in> set (token_uchars t). uchar_wf u"
proof (cases t)
  case (StringLit s)
  assume "token_ok t"
  with StringLit have "\<forall>u \<in> set (str_chars s). uchar_wf u" using str_chars_utf8 by simp
  moreover have "uchar_wf QUOT" "uchar_wf BACKSLASH" by (simp_all add: QUOT_def BACKSLASH_def ascii_uchar)
  ultimately show ?thesis using StringLit by (auto simp: escape_uchar_def split: if_splits)
next
  case (Number n)
  have "is_ascii_digit c \<Longrightarrow> uchar_wf [c]" for c
    by (rule ascii_uchar) (simp add: is_ascii_digit_def Let_def)
  with Number show ?thesis by (auto simp: singles_def dest: show_nat_digits)
qed (auto simp: singles_def is_ident_def intro: ascii_uchar ident_ascii)

lemma tokenize_print: "\<forall>t \<in> set ts. token_ok t \<Longrightarrow> tokenize (print_tokens ts) = Inr ts"
proof -
  assume ok: "\<forall>t \<in> set ts. token_ok t"
  then have "\<forall>u \<in> set (print_uchars ts). uchar_wf u"
    using token_uchars_wf ascii_uchar by (auto simp: print_uchars_def)
  then show ?thesis
    by (simp add: tokenize_def print_tokens_def str_chars_concat tokenize_loop_print [OF ok])
qed

lemma utf8_next_take: "utf8_next c cs = (True, n) \<Longrightarrow> utf8_next c (take (n - 1) cs) = (True, n)"
  unfolding utf8_next_def nth_ok_def by (auto split: if_splits)

lemma str_chars_valid: "valid_utf8 s \<Longrightarrow> \<forall>u \<in> set (str_chars s). valid_utf8 u"
proof (induction s rule: str_chars.induct)
  case (2 c cs)
  obtain v n where u: "utf8_next c cs = (v, n)" by fastforce
  with "2.prems" have v: "utf8_next c cs = (True, n)" "valid_utf8 (drop (n - 1) cs)" by simp_all
  have n: "n = utf8_width c" using utf8_next_width [OF v(1)] by blast
  obtain k where k: "utf8_width c = Suc k" using utf8_width_pos [of c] by (cases "utf8_width c") auto
  have "valid_utf8 (c # take k cs)" using utf8_next_take [OF v(1)] by (simp add: n k)
  with "2.IH" v(2) show ?case by (simp add: n k)
qed simp

lemma valid_utf8_concat: "\<forall>u \<in> set us. valid_utf8 u \<Longrightarrow> valid_utf8 (concat us)"
  by (induction us) (simp_all add: valid_utf8_append)

lemma valid_ascii_uchar: "of_char c < (128 :: nat) \<Longrightarrow> valid_utf8 [c]"
  by (rule ascii_valid_utf8) simp

declare valid_utf8.simps(2) [simp del]

lemma token_uchars_valid: "token_ok t \<Longrightarrow> \<forall>u \<in> set (token_uchars t). valid_utf8 u"
proof (cases t)
  case (StringLit s)
  assume "token_ok t"
  with StringLit have "\<forall>u \<in> set (str_chars s). valid_utf8 u" using str_chars_valid by simp
  moreover have "valid_utf8 QUOT" "valid_utf8 BACKSLASH" by (simp_all add: QUOT_def BACKSLASH_def valid_ascii_uchar)
  ultimately show ?thesis using StringLit by (auto simp: escape_uchar_def split: if_splits)
next
  case (Number n)
  have "is_ascii_digit c \<Longrightarrow> valid_utf8 [c]" for c
    by (rule valid_ascii_uchar) (simp add: is_ascii_digit_def Let_def)
  with Number show ?thesis by (auto simp: singles_def dest: show_nat_digits)
qed (auto simp: singles_def is_ident_def intro: valid_ascii_uchar ident_ascii)

lemma print_tokens_valid: "\<forall>t \<in> set ts. token_ok t \<Longrightarrow> valid_utf8 (print_tokens ts)"
  unfolding print_tokens_def print_uchars_def
  using token_uchars_valid valid_ascii_uchar [of "CHR '' ''"]
  by (intro valid_utf8_concat) auto

declare valid_utf8.simps(2) [simp]

end
