(* ===== verification/SieveForm.thy ===== *)
theory SieveForm
  imports SieveLexer
begin

text \<open>
  The form reader of the Sieve compiler (\<^verbatim>\<open>crates/sieve-native/src/form.rs\<close>): a token list becomes a
  tree of forms. The position in the token slice is the list of the tokens still to be read, and
  every loop carries the statement built so far.
\<close>

section \<open>Forms\<close>

datatype form =
    Word bytes
  | Tag bytes
  | Str bytes
  | Num u64
  | StringList "bytes list"
  | TestList "form list list"
  | Block "form list list"

type_synonym stmt = "form list"
type_synonym script = "stmt list"

type_synonym 'a read_result = "parse_error + 'a \<times> token list"

definition form_err :: "bytes \<Rightarrow> parse_error" where
  "form_err m = \<lparr>pe_message = m, pe_line = 0, pe_col = 0\<rparr>"

fun token_char :: "token \<Rightarrow> char" where
  "token_char LBracket = CHR ''[''"
| "token_char RBracket = CHR '']''"
| "token_char LParen = CHR ''(''"
| "token_char RParen = CHR '')''"
| "token_char LBrace = CHR ''{''"
| "token_char RBrace = CHR ''}''"
| "token_char Semicolon = CHR '';''"
| "token_char Comma = CHR '',''"
| "token_char _ = CHR ''?''"

definition quoted_char :: "token \<Rightarrow> bytes" where
  "quoted_char t = [APOS, token_char t, APOS]"

definition EM_DASH :: bytes where
  "EM_DASH = map byte [226, 128, 148]"

section \<open>The reader\<close>

fun read_string_list :: "token list \<Rightarrow> bytes list \<Rightarrow> bool \<Rightarrow> bytes list read_result" where
  "read_string_list [] l expect_comma = Inl (form_err (''unclosed '' @ quoted_char LBracket @ '' in string list''))"
| "read_string_list (RBracket # ts) l expect_comma = Inr (l, ts)"
| "read_string_list (Comma # ts) l expect_comma =
     (if \<not> expect_comma then Inl (form_err (''unexpected '' @ quoted_char Comma @ '' in string list''))
      else read_string_list ts l False)"
| "read_string_list (StringLit s # ts) l expect_comma =
     (if expect_comma
      then Inl (form_err (''expected '' @ quoted_char Comma @ '' between string list elements''))
      else read_string_list ts (l @ [s]) True)"
| "read_string_list (other # ts) l expect_comma =
     Inl (form_err (''non-string token '' @ quoted_char other @ '' inside string list''))"

lemma read_string_list_shorter: "read_string_list ts l b = Inr (l', r) \<Longrightarrow> length r < length ts"
  by (induction ts l b rule: read_string_list.induct) (auto split: if_splits)

text \<open>A token that stands for a form by itself.\<close>

fun atom :: "token \<Rightarrow> form option" where
  "atom (TWord s) = Some (Word s)"
| "atom (TTag s) = Some (Tag s)"
| "atom (StringLit s) = Some (Str s)"
| "atom (Number n) = Some (Num n)"
| "atom _ = None"

text \<open>
  The mutually recursive readers. \<^verbatim>\<open>read_clauses\<close> is the loop of \<^verbatim>\<open>read_stmt\<close> that absorbs \<^verbatim>\<open>elsif\<close> and
  \<^verbatim>\<open>else\<close>, \<^verbatim>\<open>read_clause\<close> the loop inside it that reads up to the next block.
\<close>

function read_stmt :: "token list \<Rightarrow> stmt \<Rightarrow> stmt read_result"
  and read_clauses :: "token list \<Rightarrow> stmt \<Rightarrow> stmt read_result"
  and read_clause :: "token list \<Rightarrow> stmt \<Rightarrow> stmt read_result"
  and read_test_list :: "token list \<Rightarrow> stmt list \<Rightarrow> stmt list read_result"
  and read_test_stmt :: "token list \<Rightarrow> stmt \<Rightarrow> stmt read_result"
  and read_block :: "token list \<Rightarrow> stmt list \<Rightarrow> stmt list read_result"
where
  "read_stmt ts0 stmt =
     (case ts0 of
        [] \<Rightarrow> if stmt = [] then Inr (stmt, [])
              else Inl (form_err (''unexpected end of input in statement (missing '' @ quoted_char Semicolon @ ''?)''))
      | t # ts \<Rightarrow>
          (case atom t of
             Some f \<Rightarrow> read_stmt ts (stmt @ [f])
           | None \<Rightarrow>
               if t = Semicolon then Inr (stmt, ts)
               else if t = LBracket
               then (case read_string_list ts [] False of
                       Inl e \<Rightarrow> Inl e
                     | Inr (l, r) \<Rightarrow> read_stmt r (stmt @ [StringList l]))
               else if t = LParen
               then (case read_test_list ts [] of
                       Inl e \<Rightarrow> Inl e
                     | Inr (l, r) \<Rightarrow> read_stmt r (stmt @ [TestList l]))
               else if t = LBrace
               then (case read_block ts [] of
                       Inl e \<Rightarrow> Inl e
                     | Inr (b, r) \<Rightarrow> read_clauses r (stmt @ [Block b]))
               else if t = Comma
               then Inl (form_err (''unexpected '' @ quoted_char Comma @ '' outside string list or test list''))
               else Inl (form_err (''unexpected closing delimiter '' @ quoted_char t))))"
| "read_clauses ts0 stmt =
     (case ts0 of
        TWord w # ts \<Rightarrow>
          if w = ''elsif'' \<or> w = ''else''
          then (case read_clause ts (stmt @ [Word w]) of
                  Inl e \<Rightarrow> Inl e
                | Inr (stmt, r) \<Rightarrow> read_clauses r stmt)
          else Inr (stmt, ts0)
      | _ \<Rightarrow> Inr (stmt, ts0))"
| "read_clause ts0 stmt =
     (case ts0 of
        [] \<Rightarrow> Inr (stmt, [])
      | t # ts \<Rightarrow>
          (case atom t of
             Some f \<Rightarrow> read_clause ts (stmt @ [f])
           | None \<Rightarrow>
               if t = LBrace
               then (case read_block ts [] of
                       Inl e \<Rightarrow> Inl e
                     | Inr (b, r) \<Rightarrow> Inr (stmt @ [Block b], r))
               else if t = LBracket
               then (case read_string_list ts [] False of
                       Inl e \<Rightarrow> Inl e
                     | Inr (l, r) \<Rightarrow> read_clause r (stmt @ [StringList l]))
               else if t = LParen
               then (case read_test_list ts [] of
                       Inl e \<Rightarrow> Inl e
                     | Inr (l, r) \<Rightarrow> read_clause r (stmt @ [TestList l]))
               else Inr (stmt, ts0)))"
| "read_test_list ts0 tests =
     (case ts0 of
        [] \<Rightarrow> Inl (form_err (''unclosed '' @ quoted_char LParen @ '' in test list''))
      | t # ts \<Rightarrow>
          if t = RParen then Inr (tests, ts)
          else (case read_test_stmt ts0 [] of
                  Inl e \<Rightarrow> Inl e
                | Inr (test, []) \<Rightarrow> Inl (form_err (''unclosed '' @ quoted_char LParen @ '' in test list''))
                | Inr (test, u # r) \<Rightarrow>
                    if u = Comma then read_test_list r (tests @ [test])
                    else if u = RParen then Inr (tests @ [test], r)
                    else Inl (form_err (''expected '' @ quoted_char Comma @ '' or '' @ quoted_char RParen
                                        @ '' after test in test list''))))"
| "read_test_stmt ts0 stmt =
     (case ts0 of
        [] \<Rightarrow> if stmt = [] then Inr (stmt, [])
              else Inl (form_err ''unexpected end of input in test expression'')
      | t # ts \<Rightarrow>
          (case atom t of
             Some f \<Rightarrow> read_test_stmt ts (stmt @ [f])
           | None \<Rightarrow>
               if t = Comma \<or> t = RParen then Inr (stmt, ts0)
               else if t = LBracket
               then (case read_string_list ts [] False of
                       Inl e \<Rightarrow> Inl e
                     | Inr (l, r) \<Rightarrow> read_test_stmt r (stmt @ [StringList l]))
               else if t = LParen
               then (case read_test_list ts [] of
                       Inl e \<Rightarrow> Inl e
                     | Inr (l, r) \<Rightarrow> read_test_stmt r (stmt @ [TestList l]))
               else if t = LBrace
               then (case read_block ts [] of
                       Inl e \<Rightarrow> Inl e
                     | Inr (b, r) \<Rightarrow> Inr (stmt @ [Block b], r))
               else if t = Semicolon
               then Inl (form_err (''unexpected '' @ quoted_char Semicolon @ '' inside test list''))
               else Inl (form_err (''unexpected closing delimiter '' @ quoted_char t @ '' inside test expression''))))"
| "read_block ts0 stmts =
     (case ts0 of
        [] \<Rightarrow> Inl (form_err (''unclosed '' @ quoted_char LBrace @ '' '' @ EM_DASH @ '' missing '' @ quoted_char RBrace))
      | t # ts \<Rightarrow>
          if t = RBrace then Inr (stmts, ts)
          else if t = Semicolon then read_block ts stmts
          else (case read_stmt ts0 [] of
                  Inl e \<Rightarrow> Inl e
                | Inr (stmt, r) \<Rightarrow> read_block r (if stmt = [] then stmts else stmts @ [stmt])))"
  by pat_completeness auto

abbreviation "read_dom \<equiv> read_stmt_read_clauses_read_clause_read_test_list_read_test_stmt_read_block_dom"

lemma readers_shorter:
  "read_dom (Inl (Inl (ts, s))) \<Longrightarrow> read_stmt ts s = Inr (s', r) \<Longrightarrow> length r \<le> length ts \<and> (ts \<noteq> [] \<longrightarrow> length r < length ts)"
  "read_dom (Inl (Inr (Inl (ts, s)))) \<Longrightarrow> read_clauses ts s = Inr (s', r) \<Longrightarrow> length r \<le> length ts"
  "read_dom (Inl (Inr (Inr (ts, s)))) \<Longrightarrow> read_clause ts s = Inr (s', r) \<Longrightarrow> length r \<le> length ts"
  "read_dom (Inr (Inl (ts, l))) \<Longrightarrow> read_test_list ts l = Inr (l', r) \<Longrightarrow> length r \<le> length ts"
  "read_dom (Inr (Inr (Inl (ts, s)))) \<Longrightarrow> read_test_stmt ts s = Inr (s', r) \<Longrightarrow> length r \<le> length ts"
  "read_dom (Inr (Inr (Inr (ts, l)))) \<Longrightarrow> read_block ts l = Inr (l', r) \<Longrightarrow> length r \<le> length ts"
proof (induction ts s and ts s and ts s and ts l and ts s and ts l
    arbitrary: s' r and s' r and s' r and l' r and s' r and l' r
    rule: read_stmt_read_clauses_read_clause_read_test_list_read_test_stmt_read_block.pinduct)
  case (1 ts0 acc)
  note eq = "1.prems" [unfolded read_stmt.psimps [OF "1.hyps"]]
  show ?case
    using eq "1.IH" read_string_list_shorter
    by (fastforce split: list.split_asm option.split_asm if_split_asm sum.split_asm token.split_asm)
next
  case (2 ts0 acc)
  note eq = "2.prems" [unfolded read_clauses.psimps [OF "2.hyps"]]
  show ?case
    using eq "2.IH" read_string_list_shorter
    by (fastforce split: list.split_asm option.split_asm if_split_asm sum.split_asm token.split_asm)
next
  case (3 ts0 acc)
  note eq = "3.prems" [unfolded read_clause.psimps [OF "3.hyps"]]
  show ?case
    using eq "3.IH" read_string_list_shorter
    by (fastforce split: list.split_asm option.split_asm if_split_asm sum.split_asm token.split_asm)
next
  case (4 ts0 acc)
  note eq = "4.prems" [unfolded read_test_list.psimps [OF "4.hyps"]]
  show ?case
    using eq "4.IH" read_string_list_shorter
    by (fastforce split: list.split_asm option.split_asm if_split_asm sum.split_asm token.split_asm)
next
  case (5 ts0 acc)
  note eq = "5.prems" [unfolded read_test_stmt.psimps [OF "5.hyps"]]
  show ?case
    using eq "5.IH" read_string_list_shorter
    by (fastforce split: list.split_asm option.split_asm if_split_asm sum.split_asm token.split_asm)
next
  case (6 ts0 acc)
  note eq = "6.prems" [unfolded read_block.psimps [OF "6.hyps"]]
  show ?case
    using eq "6.IH" read_string_list_shorter
    by (fastforce split: list.split_asm option.split_asm if_split_asm sum.split_asm token.split_asm)
qed

fun read_measure where
  "read_measure (Inl (Inl (ts :: token list, _ :: stmt))) = 2 * length ts"
| "read_measure (Inl (Inr (Inl (ts :: token list, _ :: stmt)))) = 2 * length ts"
| "read_measure (Inl (Inr (Inr (ts :: token list, _ :: stmt)))) = 2 * length ts"
| "read_measure (Inr (Inl (ts :: token list, _ :: stmt list))) = 2 * length ts + 1"
| "read_measure (Inr (Inr (Inl (ts :: token list, _ :: stmt)))) = 2 * length ts"
| "read_measure (Inr (Inr (Inr (ts :: token list, _ :: stmt list)))) = 2 * length ts + 1"

lemma read_total: "All read_dom"
  by (rule "read_stmt_read_clauses_read_clause_read_test_list_read_test_stmt_read_block.termination"
        [of "measure read_measure"])
    (auto dest!: readers_shorter read_string_list_shorter)

termination read_stmt
  by (rule read_total)

declare read_stmt.simps [simp del] read_clauses.simps [simp del] read_clause.simps [simp del]
  read_test_list.simps [simp del] read_test_stmt.simps [simp del] read_block.simps [simp del]

lemma read_stmt_shorter: "read_stmt (t # ts) s = Inr (s', r) \<Longrightarrow> length r < length (t # ts)"
  using readers_shorter(1) [of "t # ts" s s' r] read_total by simp

function read_script_loop :: "token list \<Rightarrow> script \<Rightarrow> parse_error + script" where
  "read_script_loop [] script = Inr script"
| "read_script_loop (t # ts) script =
     (if t = Semicolon then read_script_loop ts script
      else case read_stmt (t # ts) [] of
        Inl e \<Rightarrow> Inl e
      | Inr (stmt, r) \<Rightarrow> read_script_loop r (if stmt = [] then script else script @ [stmt]))"
  by pat_completeness auto
termination
  by (relation "measure (\<lambda>(ts, _). length ts)") (auto dest: read_stmt_shorter)

definition read_script :: "token list \<Rightarrow> parse_error + script" where
  "read_script tokens = read_script_loop tokens []"

section \<open>Writing scripts\<close>

fun comma_sep :: "token list list \<Rightarrow> token list" where
  "comma_sep [] = []"
| "comma_sep [ts] = ts"
| "comma_sep (ts # us # uss) = ts @ Comma # comma_sep (us # uss)"

fun is_block :: "form \<Rightarrow> bool" where
  "is_block (Block _) = True"
| "is_block _ = False"

fun form_tokens :: "form \<Rightarrow> token list" where
  "form_tokens (Word w) = [TWord w]"
| "form_tokens (Tag w) = [TTag w]"
| "form_tokens (Str s) = [StringLit s]"
| "form_tokens (Num n) = [Number n]"
| "form_tokens (StringList l) = LBracket # comma_sep (map (\<lambda>s. [StringLit s]) l) @ [RBracket]"
| "form_tokens (TestList l) = LParen # comma_sep (map (\<lambda>t. concat (map form_tokens t)) l) @ [RParen]"
| "form_tokens (Block ss) =
     LBrace # concat (map (\<lambda>s. concat (map form_tokens s) @ (if s \<noteq> [] \<and> is_block (last s) then [] else [Semicolon])) ss)
     @ [RBrace]"

definition forms_tokens :: "stmt \<Rightarrow> token list" where
  "forms_tokens s = concat (map form_tokens s)"

definition stmt_tokens :: "stmt \<Rightarrow> token list" where
  "stmt_tokens s = forms_tokens s @ (if s \<noteq> [] \<and> is_block (last s) then [] else [Semicolon])"

definition script_tokens :: "script \<Rightarrow> token list" where
  "script_tokens ss = concat (map stmt_tokens ss)"

text \<open>
  The shape of a statement: forms up to a semicolon, or up to a block followed by \<^verbatim>\<open>elsif\<close> and \<^verbatim>\<open>else\<close>
  clauses, each up to its block.
\<close>

definition clause_word :: "bytes \<Rightarrow> bool" where
  "clause_word w \<longleftrightarrow> w = ''elsif'' \<or> w = ''else''"

fun shape_head :: "stmt \<Rightarrow> bool" and shape_after :: "stmt \<Rightarrow> bool" and shape_clause :: "stmt \<Rightarrow> bool" where
  "shape_head [] = True"
| "shape_head (f # fs) = (if is_block f then shape_after fs else shape_head fs)"
| "shape_after [] = True"
| "shape_after (f # fs) = (case f of Word w \<Rightarrow> clause_word w \<and> shape_clause fs | _ \<Rightarrow> False)"
| "shape_clause [] = False"
| "shape_clause (f # fs) = (if is_block f then shape_after fs else shape_clause fs)"

definition starts_clause :: "stmt \<Rightarrow> bool" where
  "starts_clause s = (case s of Word w # _ \<Rightarrow> clause_word w | _ \<Rightarrow> False)"

definition stmt_shape :: "stmt \<Rightarrow> bool" where
  "stmt_shape s \<longleftrightarrow> s \<noteq> [] \<and> \<not> starts_clause s \<and> shape_head s"

fun form_ok :: "form \<Rightarrow> bool" where
  "form_ok (Word w) = is_ident w"
| "form_ok (Tag w) = is_ident w"
| "form_ok (Str s) = valid_utf8 s"
| "form_ok (Num n) = True"
| "form_ok (StringList l) = (\<forall>s \<in> set l. valid_utf8 s)"
| "form_ok (TestList l) = (\<forall>t \<in> set l. t \<noteq> [] \<and> (\<forall>f \<in> set t. \<not> is_block f \<and> form_ok f))"
| "form_ok (Block ss) = (\<forall>s \<in> set ss. stmt_shape s \<and> (\<forall>f \<in> set s. form_ok f))"

definition script_ok :: "script \<Rightarrow> bool" where
  "script_ok ss \<longleftrightarrow> (\<forall>s \<in> set ss. stmt_shape s \<and> (\<forall>f \<in> set s. form_ok f))"

section \<open>Reading what was written\<close>

lemma form_tokens_Block: "form_tokens (Block ss) = LBrace # script_tokens ss @ [RBrace]"
  by (simp add: script_tokens_def stmt_tokens_def [abs_def] forms_tokens_def)

declare form_tokens.simps(7) [simp del]

lemma forms_tokens_simps [simp]:
  "forms_tokens [] = []" "forms_tokens (f # fs) = form_tokens f @ forms_tokens fs"
  by (simp_all add: forms_tokens_def)

lemma read_atom:
  assumes "atom t = Some f"
  shows "read_stmt (t # r) s = read_stmt r (s @ [f])" "read_clause (t # r) s = read_clause r (s @ [f])"
    "read_test_stmt (t # r) s = read_test_stmt r (s @ [f])"
  using assms by (simp_all add: read_stmt.simps [of "t # r" s] read_clause.simps [of "t # r" s] read_test_stmt.simps [of "t # r" s])

lemma read_bracket:
  assumes "read_string_list ts [] False = Inr (l, r)"
  shows "read_stmt (LBracket # ts) s = read_stmt r (s @ [StringList l])"
    "read_clause (LBracket # ts) s = read_clause r (s @ [StringList l])"
    "read_test_stmt (LBracket # ts) s = read_test_stmt r (s @ [StringList l])"
  using assms by (simp_all add: read_stmt.simps [of "LBracket # ts" s] read_clause.simps [of "LBracket # ts" s]
      read_test_stmt.simps [of "LBracket # ts" s])

lemma read_paren:
  assumes "read_test_list ts [] = Inr (l, r)"
  shows "read_stmt (LParen # ts) s = read_stmt r (s @ [TestList l])"
    "read_clause (LParen # ts) s = read_clause r (s @ [TestList l])"
    "read_test_stmt (LParen # ts) s = read_test_stmt r (s @ [TestList l])"
  using assms by (simp_all add: read_stmt.simps [of "LParen # ts" s] read_clause.simps [of "LParen # ts" s]
      read_test_stmt.simps [of "LParen # ts" s])

lemma read_brace:
  assumes "read_block ts [] = Inr (b, r)"
  shows "read_stmt (LBrace # ts) s = read_clauses r (s @ [Block b])"
    "read_clause (LBrace # ts) s = Inr (s @ [Block b], r)"
  using assms by (simp_all add: read_stmt.simps [of "LBrace # ts" s] read_clause.simps [of "LBrace # ts" s])

lemma read_string_list_print:
  "read_string_list (comma_sep (map (\<lambda>s. [StringLit s]) l) @ RBracket # r) acc False = Inr (acc @ l, r)"
  by (induction l arbitrary: acc rule: induct_list012) simp_all

text \<open>What reading one written form means to the three readers of forms.\<close>

definition reads_form :: "form \<Rightarrow> bool" where
  "reads_form f \<longleftrightarrow> (\<forall>r s. read_stmt (form_tokens f @ r) s = read_stmt r (s @ [f])
     \<and> read_clause (form_tokens f @ r) s = read_clause r (s @ [f])
     \<and> read_test_stmt (form_tokens f @ r) s = read_test_stmt r (s @ [f]))"

lemma reads_forms:
  assumes "\<forall>f \<in> set fs. reads_form f"
  shows "read_stmt (forms_tokens fs @ r) s = read_stmt r (s @ fs)"
    "read_test_stmt (forms_tokens fs @ r) s = read_test_stmt r (s @ fs)"
  using assms by (induction fs arbitrary: s) (simp_all add: reads_form_def)

definition reads_block :: "stmt list \<Rightarrow> bool" where
  "reads_block ss \<longleftrightarrow> (\<forall>r. read_block (script_tokens ss @ RBrace # r) [] = Inr (ss, r))"

text \<open>Every part of a statement reads back: a form by itself, a block with its contents.\<close>

definition reads_part :: "form \<Rightarrow> bool" where
  "reads_part f \<longleftrightarrow> (case f of Block ss \<Rightarrow> reads_block ss | _ \<Rightarrow> reads_form f)"

definition no_clause :: "token list \<Rightarrow> bool" where
  "no_clause r = (case r of TWord w # _ \<Rightarrow> \<not> clause_word w | _ \<Rightarrow> True)"

lemma read_clauses_stop: "no_clause r \<Longrightarrow> read_clauses r s = Inr (s, r)"
  by (auto simp: read_clauses.simps [of r s] no_clause_def clause_word_def split: list.splits token.splits)

lemma reads_part_block: "is_block f \<Longrightarrow> reads_part f \<Longrightarrow> \<exists>ss. f = Block ss \<and> reads_block ss"
  by (cases f) (auto simp: reads_part_def)

lemma reads_part_form: "\<not> is_block f \<Longrightarrow> reads_part f \<Longrightarrow> reads_form f"
  by (cases f) (auto simp: reads_part_def)

lemma shape_last:
  "shape_head fs \<Longrightarrow> (fs \<noteq> [] \<and> is_block (last fs)) \<longleftrightarrow> list_ex is_block fs"
  "shape_after fs \<Longrightarrow> fs \<noteq> [] \<Longrightarrow> is_block (last fs)"
  "shape_clause fs \<Longrightarrow> fs \<noteq> [] \<and> is_block (last fs)"
  by (induction fs and fs and fs rule: shape_head_shape_after_shape_clause.induct)
    (auto split: if_splits form.splits)

lemma reads_shape:
  "shape_head fs \<Longrightarrow> \<forall>f \<in> set fs. reads_part f \<Longrightarrow> no_clause r \<Longrightarrow>
     read_stmt (forms_tokens fs @ (if list_ex is_block fs then [] else [Semicolon]) @ r) s = Inr (s @ fs, r)"
  "shape_after fs \<Longrightarrow> \<forall>f \<in> set fs. reads_part f \<Longrightarrow> no_clause r \<Longrightarrow>
     read_clauses (forms_tokens fs @ r) s = Inr (s @ fs, r)"
  "shape_clause fs \<Longrightarrow> \<forall>f \<in> set fs. reads_part f \<Longrightarrow> no_clause r \<Longrightarrow>
     (case read_clause (forms_tokens fs @ r) s of Inl e \<Rightarrow> Inl e | Inr (s', r') \<Rightarrow> read_clauses r' s') = Inr (s @ fs, r)"
proof (induction fs and fs and fs arbitrary: s and s and s rule: shape_head_shape_after_shape_clause.induct)
  case 1
  then show ?case by (simp add: read_stmt.simps [of "Semicolon # r" s])
next
  case (2 f fs)
  show ?case
  proof (cases "is_block f")
    case True
    then obtain ss where ss: "f = Block ss" "reads_block ss" using "2.prems"(2) reads_part_block by auto
    have "read_block (script_tokens ss @ RBrace # forms_tokens fs @ r) [] = Inr (ss, forms_tokens fs @ r)"
      using ss(2) by (simp add: reads_block_def)
    from read_brace(1) [OF this] show ?thesis
      using "2.IH"(1) [OF True] "2.prems" True ss(1) by (simp add: form_tokens_Block)
  next
    case False
    then have "reads_form f" using "2.prems"(2) reads_part_form by simp
    then show ?thesis using "2.IH"(2) [OF False] "2.prems" False by (simp add: reads_form_def)
  qed
next
  case 3
  then show ?case by (simp add: read_clauses_stop)
next
  case (4 f fs)
  then obtain w where w: "f = Word w" "clause_word w" "shape_clause fs" by (auto split: form.splits)
  have "read_clauses (TWord w # forms_tokens fs @ r) s
      = (case read_clause (forms_tokens fs @ r) (s @ [Word w]) of Inl e \<Rightarrow> Inl e | Inr (s', r') \<Rightarrow> read_clauses r' s')"
    using w(2) by (subst read_clauses.simps) (simp add: clause_word_def)
  then show ?case using "4.IH" [OF w(1)] "4.prems" w by simp
next
  case 5
  then show ?case by simp
next
  case (6 f fs)
  show ?case
  proof (cases "is_block f")
    case True
    then obtain ss where ss: "f = Block ss" "reads_block ss" using "6.prems"(2) reads_part_block by auto
    have "read_block (script_tokens ss @ RBrace # forms_tokens fs @ r) [] = Inr (ss, forms_tokens fs @ r)"
      using ss(2) by (simp add: reads_block_def)
    from read_brace(2) [OF this] show ?thesis
      using "6.IH"(1) [OF True] "6.prems" True ss(1) by (simp add: form_tokens_Block)
  next
    case False
    then have "reads_form f" using "6.prems"(2) reads_part_form by simp
    then show ?thesis using "6.IH"(2) [OF False] "6.prems" False by (simp add: reads_form_def)
  qed
qed

lemma reads_stmt:
  assumes "stmt_shape s" "\<forall>f \<in> set s. reads_part f" "no_clause r"
  shows "read_stmt (stmt_tokens s @ r) [] = Inr (s, r)"
  using reads_shape(1) [of s r "[]"] shape_last(1) [of s] assms by (simp add: stmt_shape_def stmt_tokens_def)

lemma form_tokens_first:
  "\<exists>t ts. form_tokens f = t # ts \<and> t \<notin> {Semicolon, RBrace, RParen, Comma} \<and> (\<forall>w. t = TWord w \<longrightarrow> f = Word w)"
  by (cases f) (auto simp: form_tokens_Block)

lemma stmt_tokens_first:
  assumes "stmt_shape s"
  shows "\<exists>t ts. stmt_tokens s = t # ts \<and> t \<notin> {Semicolon, RBrace} \<and> no_clause (t # ts @ r)"
proof -
  obtain f fs where s: "s = f # fs" using assms by (cases s) (auto simp: stmt_shape_def)
  obtain t ts where t: "form_tokens f = t # ts" "t \<notin> {Semicolon, RBrace}" "\<forall>w. t = TWord w \<longrightarrow> f = Word w"
    using form_tokens_first [of f] by auto
  have "no_clause (t # us)" for us
    using assms s t(3) by (auto simp: no_clause_def stmt_shape_def starts_clause_def split: token.splits)
  with s t show ?thesis by (simp add: stmt_tokens_def)
qed

lemma no_clause_script: "\<forall>s \<in> set ss. stmt_shape s \<Longrightarrow> no_clause r \<Longrightarrow> no_clause (script_tokens ss @ r)"
proof (cases ss)
  case (Cons s ss')
  assume "\<forall>s \<in> set ss. stmt_shape s"
  with Cons have "stmt_shape s" by simp
  from stmt_tokens_first [OF this, of "script_tokens ss' @ r"] Cons show ?thesis by (auto simp: script_tokens_def)
qed (simp add: script_tokens_def)

lemma reads_block_stmts:
  assumes "\<forall>s \<in> set ss. stmt_shape s \<and> (\<forall>f \<in> set s. reads_part f)"
  shows "read_block (script_tokens ss @ RBrace # r) acc = Inr (acc @ ss, r)"
  using assms
proof (induction ss arbitrary: acc)
  case Nil
  then show ?case by (simp add: script_tokens_def read_block.simps [of "RBrace # r" acc])
next
  case (Cons s ss)
  let ?r = "script_tokens ss @ RBrace # r"
  have nc: "no_clause ?r" by (rule no_clause_script) (use Cons.prems in \<open>auto simp: no_clause_def\<close>)
  have s: "stmt_shape s" "s \<noteq> []" using Cons.prems by (simp_all add: stmt_shape_def)
  have rd: "read_stmt (stmt_tokens s @ ?r) [] = Inr (s, ?r)"
    using reads_stmt [OF s(1) _ nc] Cons.prems by simp
  obtain t ts where t: "stmt_tokens s = t # ts" "t \<notin> {Semicolon, RBrace}" using stmt_tokens_first [OF s(1)] by blast
  have "read_block (t # ts @ ?r) acc = read_block ?r (acc @ [s])"
    using rd t s(2) by (subst read_block.simps) simp
  with Cons show ?case by (simp add: script_tokens_def t(1))
qed

lemma read_script_stmts:
  assumes "\<forall>s \<in> set ss. stmt_shape s \<and> (\<forall>f \<in> set s. reads_part f)"
  shows "read_script_loop (script_tokens ss) acc = Inr (acc @ ss)"
  using assms
proof (induction ss arbitrary: acc)
  case Nil
  then show ?case by (simp add: script_tokens_def)
next
  case (Cons s ss)
  have nc: "no_clause (script_tokens ss)" using no_clause_script [of ss "[]"] Cons.prems by (auto simp: no_clause_def)
  have s: "stmt_shape s" "s \<noteq> []" using Cons.prems by (simp_all add: stmt_shape_def)
  have rd: "read_stmt (stmt_tokens s @ script_tokens ss) [] = Inr (s, script_tokens ss)"
    using reads_stmt [OF s(1) _ nc] Cons.prems by simp
  obtain t ts where t: "stmt_tokens s = t # ts" "t \<notin> {Semicolon, RBrace}" using stmt_tokens_first [OF s(1)] by blast
  with Cons rd s(2) show ?case by (simp add: script_tokens_def)
qed

lemma reads_test:
  assumes "\<forall>f \<in> set t. reads_form f" "u = Comma \<or> u = RParen"
  shows "read_test_stmt (forms_tokens t @ u # r) [] = Inr (t, u # r)"
  using assms(2) by (auto simp: reads_forms(2) [OF assms(1)] read_test_stmt.simps [of "u # r" t])

lemma reads_test_list:
  assumes "\<forall>t \<in> set l. t \<noteq> [] \<and> (\<forall>f \<in> set t. reads_form f)"
  shows "read_test_list (comma_sep (map forms_tokens l) @ RParen # r) acc = Inr (acc @ l, r)"
  using assms
proof (induction l arbitrary: acc rule: induct_list012)
  case 1
  then show ?case by (simp add: read_test_list.simps [of "RParen # r" acc])
next
  case (2 t)
  then obtain f fs where t: "t = f # fs" by (cases t) auto
  obtain u us where u: "form_tokens f = u # us" "u \<noteq> RParen" using form_tokens_first [of f] by auto
  have "read_test_stmt (forms_tokens t @ RParen # r) [] = Inr (t, RParen # r)" by (rule reads_test) (use 2 in auto)
  then show ?case using u t by (simp add: read_test_list.simps [of "u # us @ forms_tokens fs @ RParen # r" acc])
next
  case (3 t t' l)
  then obtain f fs where t: "t = f # fs" by (cases t) auto
  obtain u us where u: "form_tokens f = u # us" "u \<noteq> RParen" using form_tokens_first [of f] by auto
  define r' where "r' = comma_sep (map forms_tokens (t' # l)) @ RParen # r"
  have "read_test_stmt (forms_tokens t @ Comma # r') [] = Inr (t, Comma # r')" by (rule reads_test) (use 3 in auto)
  then have "read_test_list (forms_tokens t @ Comma # r') acc = read_test_list r' (acc @ [t])"
    using u t by (simp add: read_test_list.simps [of "u # us @ forms_tokens fs @ Comma # r'" acc])
  moreover have "read_test_list r' (acc @ [t]) = Inr (acc @ t # t' # l, r)"
    using 3 by (simp add: r'_def)
  ultimately show ?case by (simp add: r'_def)
qed

lemma ok_reads_part: "form_ok f \<Longrightarrow> reads_part f"
proof (induction f rule: form.induct)
  case (StringList l)
  have "read_string_list (comma_sep (map (\<lambda>s. [StringLit s]) l) @ RBracket # r) [] False = Inr (l, r)" for r
    using read_string_list_print [of l r "[]"] by simp
  then show ?case by (simp add: reads_part_def reads_form_def read_bracket)
next
  case (TestList l)
  have "\<forall>t \<in> set l. t \<noteq> [] \<and> (\<forall>f \<in> set t. reads_form f)"
    using TestList reads_part_form by auto
  from reads_test_list [OF this, of _ "[]"]
  have "read_test_list (comma_sep (map (\<lambda>t. concat (map form_tokens t)) l) @ RParen # r) [] = Inr (l, r)" for r
    by (simp add: forms_tokens_def [abs_def])
  then show ?case by (simp add: reads_part_def reads_form_def read_paren)
next
  case (Block ss)
  then show ?case by (simp add: reads_part_def reads_block_def reads_block_stmts)
qed (simp_all add: reads_part_def reads_form_def read_atom)

lemma read_script_print: "script_ok ss \<Longrightarrow> read_script (script_tokens ss) = Inr ss"
  using read_script_stmts [of ss "[]"] ok_reads_part by (simp add: read_script_def script_ok_def)

lemma comma_sep_ok: "\<forall>ts \<in> set tss. \<forall>t \<in> set ts. token_ok t \<Longrightarrow> \<forall>t \<in> set (comma_sep tss). token_ok t"
  by (induction tss rule: comma_sep.induct) auto

lemma ok_tokens: "form_ok f \<Longrightarrow> \<forall>t \<in> set (form_tokens f). token_ok t"
proof (induction f rule: form.induct)
  case (StringList l)
  then have "\<forall>t \<in> set (comma_sep (map (\<lambda>s. [StringLit s]) l)). token_ok t" by (intro comma_sep_ok) auto
  then show ?case by auto
next
  case (TestList l)
  then have "\<forall>t \<in> set (comma_sep (map (\<lambda>t. concat (map form_tokens t)) l)). token_ok t"
    by (intro comma_sep_ok) auto
  then show ?case by auto
next
  case (Block ss)
  then show ?case by (auto simp: form_tokens_Block script_tokens_def stmt_tokens_def forms_tokens_def)
qed simp_all

lemma script_tokens_ok: "script_ok ss \<Longrightarrow> \<forall>t \<in> set (script_tokens ss). token_ok t"
  using ok_tokens by (auto simp: script_ok_def script_tokens_def stmt_tokens_def forms_tokens_def)

text \<open>
  C18. The Sieve front end loses nothing: every script of well-formed statements, however deeply its
  blocks and test lists nest and whatever its strings hold, written out as text is tokenized and
  read back as the same form tree.
\<close>

theorem sieve_parse_roundtrip:
  assumes "script_ok ss"
  shows "tokenize (print_tokens (script_tokens ss)) = Inr (script_tokens ss)
    \<and> read_script (script_tokens ss) = Inr ss"
  using tokenize_print [OF script_tokens_ok [OF assms]] read_script_print [OF assms] by simp

definition demo_script :: script where
  "demo_script =
     [[Word ''require'', StringList [''fileinto'', ''variables'']],
      [Word ''if'', Word ''anyof'',
         TestList [[Word ''header'', Tag ''contains'', Str ''Subject'', Str ''a\"b''], [Word ''size'', Tag ''over'', Num 100]],
       Block [[Word ''fileinto'', Str ''x''], [Word ''stop'']],
       Word ''elsif'', Word ''true'', Block [[Word ''keep'']],
       Word ''else'', Block [[Word ''if'', Word ''false'', Block []], [Word ''discard'']]],
      [Word ''keep'']]"

theorem sieve_parse_roundtrip_witness:
  "tokenize (print_tokens (script_tokens demo_script)) = Inr (script_tokens demo_script)
    \<and> read_script (script_tokens demo_script) = Inr demo_script"
  by (rule sieve_parse_roundtrip)
    (simp add: script_ok_def demo_script_def stmt_shape_def starts_clause_def clause_word_def is_ident_def
      ident_start_def ident_char_def is_ascii_alphanumeric_def is_ascii_alphabetic_def is_ascii_digit_def
      utf8_next_def between_def)

end
