(* ===== verification/SieveEval.thy ===== *)
theory SieveEval
  imports SieveForm
begin

text \<open>
  The Sieve evaluator (\<^verbatim>\<open>crates/sieve-native/src/evaluator.rs\<close>) and the message helpers it uses
  (\<^verbatim>\<open>message.rs\<close>). The evaluation context is a record that the tests and statements thread; the
  regular-expression engine and Unicode lower-casing are parameters. The thread-local cache of
  compiled expressions is left out: it stores what compiling the same pattern again would return.
\<close>

section \<open>Message helpers\<close>

definition SP :: char where "SP = CHR '' ''"
definition HTAB :: char where "HTAB = byte 9"

definition strip_cr_suffix :: "bytes \<Rightarrow> bytes" where
  "strip_cr_suffix line = (case strip_suffix [CR] line of Some l \<Rightarrow> l | None \<Rightarrow> line)"

definition append_to_last :: "(bytes \<times> bytes) list \<Rightarrow> bytes \<Rightarrow> (bytes \<times> bytes) list" where
  "append_to_last headers line =
     (if headers = [] then headers
      else butlast headers @ [(fst (last headers), snd (last headers) @ line)])"

fun extract_headers_loop :: "bytes list \<Rightarrow> (bytes \<times> bytes) list \<Rightarrow> (bytes \<times> bytes) list" where
  "extract_headers_loop [] headers = headers"
| "extract_headers_loop (l # lines) headers =
     (let line = strip_cr_suffix l
      in if line = [] then headers
         else if hd line = SP \<or> hd line = HTAB then extract_headers_loop lines (append_to_last headers line)
         else (case split_once CHR '':'' line of
                 Some (n, v) \<Rightarrow>
                   let name = to_ascii_lowercase (str_trim n); val = str_trim v
                   in extract_headers_loop lines (if name \<noteq> [] then headers @ [(name, val)] else headers)
               | None \<Rightarrow> extract_headers_loop lines headers))"

definition extract_headers :: "bytes \<Rightarrow> (bytes \<times> bytes) list" where
  "extract_headers raw = extract_headers_loop (split_on LF (from_utf8_lossy raw)) []"

text \<open>\<^verbatim>\<open>s.rfind(c)\<close> with the parts before and behind it.\<close>

definition rsplit_once :: "char \<Rightarrow> bytes \<Rightarrow> (bytes \<times> bytes) option" where
  "rsplit_once c s = map_option (\<lambda>(a, b). (rev b, rev a)) (split_once c (rev s))"

lemma rsplit_once_shorter:
  assumes "rsplit_once c s = Some (a, b)"
  shows "length a < length s"
proof -
  obtain x y where xy: "split_once c (rev s) = Some (x, y)" "a = rev y" using assms by (auto simp: rsplit_once_def)
  then have "rev s = x @ c # y" by (simp add: split_once_Some_iff)
  then have "length (rev s) = length (x @ c # y)" by simp
  with xy(2) show ?thesis by simp
qed

function bare_address_loop :: "bytes \<Rightarrow> bytes \<Rightarrow> bytes" where
  "bare_address_loop addr rest =
     (case rsplit_once CHR ''>'' rest of
        None \<Rightarrow> addr
      | Some (prefix, _) \<Rightarrow>
          (case rsplit_once CHR ''<'' prefix of
             None \<Rightarrow> addr
           | Some (before, inner) \<Rightarrow>
               if CHR ''@'' \<in> set inner then str_trim inner else bare_address_loop addr before))"
  by pat_completeness auto
termination
  by (relation "measure (\<lambda>(_, rest). length rest)") (auto dest!: rsplit_once_shorter)

declare bare_address_loop.simps [simp del]

definition bare_address :: "bytes \<Rightarrow> bytes" where
  "bare_address addr = (let addr = str_trim addr in bare_address_loop addr addr)"

definition address_part :: "bytes \<Rightarrow> bytes \<Rightarrow> bytes" where
  "address_part addr part =
     (let bare = bare_address addr
      in if part = ''localpart'' then (case rsplit_once CHR ''@'' bare of Some (l, _) \<Rightarrow> l | None \<Rightarrow> [])
         else if part = ''domain'' then (case rsplit_once CHR ''@'' bare of Some (_, d) \<Rightarrow> d | None \<Rightarrow> [])
         else bare)"

section \<open>Parameters\<close>

text \<open>
  \<^verbatim>\<open>fancy_regex\<close>: compiling a pattern, matching (with \<^verbatim>\<open>None\<close> for a run-time error such as the
  backtracking limit), the captured groups, and escaping; and \<^verbatim>\<open>str::to_lowercase\<close>, which depends on
  Unicode's tables.
\<close>

record 're sieve_lib =
  re_new :: "bytes \<Rightarrow> 're option"
  re_is_match :: "'re \<Rightarrow> bytes \<Rightarrow> bool option"
  re_captures :: "'re \<Rightarrow> bytes \<Rightarrow> (nat \<Rightarrow> bytes option) option option"
  re_escape :: "bytes \<Rightarrow> bytes"
  to_lowercase :: "bytes \<Rightarrow> bytes"

section \<open>Context and results\<close>

definition MAX_EVAL_DEPTH :: nat where
  "MAX_EVAL_DEPTH = 32"

datatype sieve_action = Keep | FileInto bytes | Discard | Reject bytes

type_synonym sieve_env = "bytes \<rightharpoonup> bytes"

definition env_get :: "sieve_env \<Rightarrow> bytes \<Rightarrow> bytes" where
  "env_get env key = (case env key of Some v \<Rightarrow> v | None \<Rightarrow> [])"

record ctx =
  cx_headers :: "(bytes \<times> bytes) list"
  cx_message_size :: nat
  cx_envelope_from :: bytes
  cx_envelope_to :: bytes
  cx_variables :: "bytes \<rightharpoonup> bytes"
  cx_variables_enabled :: bool
  cx_environment_enabled :: bool
  cx_env :: sieve_env
  cx_last_action :: "sieve_action option"
  cx_nesting_depth :: nat

datatype stmt_result = Continue | RKeep | RDiscard | RFileInto bytes | RReject bytes | Stop

section \<open>Match types\<close>

datatype match_type = Is | Contains | Matches | Regex

datatype comparator = AsciiCasemap | Octet

fun extract_match_type :: "match_type \<Rightarrow> form list \<Rightarrow> match_type \<times> form list" where
  "extract_match_type mt [] = (mt, [])"
| "extract_match_type mt (f # fs) =
     (case f of
        Tag t \<Rightarrow>
          if t = ''is'' then extract_match_type Is fs
          else if t = ''contains'' then extract_match_type Contains fs
          else if t = ''matches'' then extract_match_type Matches fs
          else if t = ''regex'' then extract_match_type Regex fs
          else (case extract_match_type mt fs of (m, r) \<Rightarrow> (m, f # r))
      | _ \<Rightarrow> (case extract_match_type mt fs of (m, r) \<Rightarrow> (m, f # r)))"

fun extract_comparator :: "comparator \<Rightarrow> form list \<Rightarrow> comparator \<times> form list" where
  "extract_comparator cmp [] = (cmp, [])"
| "extract_comparator cmp (f # fs) =
     (if f = Tag ''comparator''
      then (case fs of
              [] \<Rightarrow> (cmp, [])
            | g # gs \<Rightarrow> extract_comparator (if g = Str ''i;octet'' then Octet else cmp) gs)
      else (case extract_comparator cmp fs of (c, r) \<Rightarrow> (c, f # r)))"

fun extract_address_part :: "bytes \<Rightarrow> form list \<Rightarrow> bytes \<times> form list" where
  "extract_address_part part [] = (part, [])"
| "extract_address_part part (f # fs) =
     (case f of
        Tag t \<Rightarrow>
          if t = ''localpart'' \<or> t = ''domain'' \<or> t = ''all'' then extract_address_part t fs
          else (case extract_address_part part fs of (p, r) \<Rightarrow> (p, f # r))
      | _ \<Rightarrow> (case extract_address_part part fs of (p, r) \<Rightarrow> (p, f # r)))"

section \<open>String matching\<close>

definition str_is :: "bytes \<Rightarrow> bytes \<Rightarrow> bool \<Rightarrow> bool" where
  "str_is a b casemap = (if casemap then eq_ignore_ascii_case a b else a = b)"

text \<open>\<^verbatim>\<open>haystack.windows(n).any(p)\<close>.\<close>

fun any_window :: "nat \<Rightarrow> (bytes \<Rightarrow> bool) \<Rightarrow> bytes \<Rightarrow> bool" where
  "any_window n p [] = False"
| "any_window n p (c # cs) = (n \<le> length (c # cs) \<and> p (take n (c # cs)) \<or> any_window n p cs)"

definition sieve_contains :: "bytes \<Rightarrow> bytes \<Rightarrow> bool \<Rightarrow> bool" where
  "sieve_contains haystack needle casemap =
     (if casemap
      then needle = [] \<or> any_window (length needle) (\<lambda>w. eq_ignore_ascii_case w needle) haystack
      else str_contains_sub needle haystack)"

fun glob_to_regex_loop :: "'re sieve_lib \<Rightarrow> uchar list \<Rightarrow> bytes \<times> nat \<Rightarrow> bytes \<times> nat" where
  "glob_to_regex_loop lib [] (out, n) = (out, n)"
| "glob_to_regex_loop lib (ch # cs) (out, n) =
     (if ch = BACKSLASH
      then (case cs of
              [] \<Rightarrow> (out @ re_escape lib BACKSLASH, n)
            | c2 # cs2 \<Rightarrow>
                if c2 = ''*'' \<or> c2 = ''?'' then glob_to_regex_loop lib cs2 (out @ re_escape lib c2, n)
                else glob_to_regex_loop lib cs2 (out @ re_escape lib ch @ re_escape lib c2, n))
      else if ch = ''*'' then glob_to_regex_loop lib cs (out @ ''(.*)'', n + 1)
      else if ch = ''?'' then glob_to_regex_loop lib cs (out @ ''.'', n)
      else glob_to_regex_loop lib cs (out @ re_escape lib ch, n))"

definition sieve_glob_to_regex_capturing :: "'re sieve_lib \<Rightarrow> bytes \<Rightarrow> bytes \<times> nat" where
  "sieve_glob_to_regex_capturing lib pattern =
     (case glob_to_regex_loop lib (str_chars pattern) (''(?s)'' @ BACKSLASH @ ''A'', 0) of
        (out, n) \<Rightarrow> (out @ BACKSLASH @ ''z'', n))"

definition casemap_pattern :: "bytes \<Rightarrow> bool \<Rightarrow> bytes" where
  "casemap_pattern pat casemap = (if casemap then ''(?i)'' @ pat else pat)"

definition str_matches_regex_pat :: "'re sieve_lib \<Rightarrow> bytes \<Rightarrow> bytes \<Rightarrow> bool \<Rightarrow> bool" where
  "str_matches_regex_pat lib val anchored casemap =
     (case re_new lib (casemap_pattern anchored casemap) of
        None \<Rightarrow> False
      | Some re \<Rightarrow> (case re_is_match lib re val of Some b \<Rightarrow> b | None \<Rightarrow> False))"

definition anchored_regex :: "bytes \<Rightarrow> bytes" where
  "anchored_regex pattern = ''(?s)'' @ BACKSLASH @ ''A(?:'' @ pattern @ '')'' @ BACKSLASH @ ''z''"

definition str_matches_regex :: "'re sieve_lib \<Rightarrow> bytes \<Rightarrow> bytes \<Rightarrow> bool \<Rightarrow> bool" where
  "str_matches_regex lib val pattern casemap = str_matches_regex_pat lib val (anchored_regex pattern) casemap"

definition str_matches_glob :: "'re sieve_lib \<Rightarrow> bytes \<Rightarrow> bytes \<Rightarrow> bool \<Rightarrow> bool" where
  "str_matches_glob lib val pattern casemap =
     str_matches_regex_pat lib val (fst (sieve_glob_to_regex_capturing lib pattern)) casemap"

text \<open>The captures to store on a match: \<^verbatim>\<open>${0}\<close> and one variable per star.\<close>

definition capture_map :: "(nat \<Rightarrow> bytes option) \<Rightarrow> nat \<Rightarrow> bytes \<rightharpoonup> bytes" where
  "capture_map caps n = map_of (map (\<lambda>i. (show_nat i, case caps i of Some v \<Rightarrow> v | None \<Rightarrow> [])) [0..<Suc n])"

definition str_matches_glob_captures :: "'re sieve_lib \<Rightarrow> bytes \<Rightarrow> bytes \<Rightarrow> bool \<Rightarrow> (bytes \<rightharpoonup> bytes) option" where
  "str_matches_glob_captures lib val pattern casemap =
     (case sieve_glob_to_regex_capturing lib pattern of (regex_pat, star_count) \<Rightarrow>
      case re_new lib (casemap_pattern regex_pat casemap) of
        None \<Rightarrow> None
      | Some re \<Rightarrow>
          (case re_captures lib re val of
             Some (Some caps) \<Rightarrow> Some (capture_map caps star_count)
           | _ \<Rightarrow> None))"

definition apply_match :: "'re sieve_lib \<Rightarrow> bytes \<Rightarrow> bytes \<Rightarrow> match_type \<Rightarrow> bool \<Rightarrow> bool" where
  "apply_match lib val key mt casemap =
     (case mt of
        Is \<Rightarrow> str_is val key casemap
      | Contains \<Rightarrow> sieve_contains val key casemap
      | Matches \<Rightarrow> str_matches_glob lib val key casemap
      | Regex \<Rightarrow> str_matches_regex lib val key casemap)"

section \<open>String operands\<close>

fun string_operand :: "form \<Rightarrow> bytes list option" where
  "string_operand (Str s) = Some [s]"
| "string_operand (StringList v) = Some v"
| "string_operand _ = None"

definition collect_two_string_lists :: "form list \<Rightarrow> bytes list \<times> bytes list" where
  "collect_two_string_lists fs =
     (case List.map_filter string_operand fs of
        [] \<Rightarrow> ([], [])
      | [names] \<Rightarrow> (names, [])
      | names # keys # _ \<Rightarrow> (names, keys))"

definition collect_one_string_list :: "form list \<Rightarrow> bytes list" where
  "collect_one_string_list fs = concat (List.map_filter string_operand fs)"

section \<open>Tests\<close>

text \<open>
  The search loops of the header, address and envelope tests over the keys: a plain match ends the
  search without captures, a match with captures ends it with them.
\<close>

datatype found = NotFound | Found "(bytes \<rightharpoonup> bytes) option"

fun search_keys :: "'re sieve_lib \<Rightarrow> bool \<Rightarrow> match_type \<Rightarrow> bool \<Rightarrow> bytes \<Rightarrow> bytes list \<Rightarrow> found" where
  "search_keys lib vars mt casemap val [] = NotFound"
| "search_keys lib vars mt casemap val (key # keys) =
     (if mt = Matches \<and> vars
      then (case str_matches_glob_captures lib val key casemap of
              Some caps \<Rightarrow> Found (Some caps)
            | None \<Rightarrow> search_keys lib vars mt casemap val keys)
      else if apply_match lib val key mt casemap then Found None
      else search_keys lib vars mt casemap val keys)"

text \<open>The outer loop over the values to look at, in order.\<close>

fun search_values :: "(bytes \<Rightarrow> found) \<Rightarrow> bytes list \<Rightarrow> found" where
  "search_values f [] = NotFound"
| "search_values f (v # vs) = (case f v of NotFound \<Rightarrow> search_values f vs | r \<Rightarrow> r)"

definition finish_search :: "found \<Rightarrow> ctx \<Rightarrow> bool \<times> ctx" where
  "finish_search r cx =
     (case r of
        NotFound \<Rightarrow> (False, cx)
      | Found None \<Rightarrow> (True, cx)
      | Found (Some caps) \<Rightarrow> (True, cx\<lparr>cx_variables := cx_variables cx ++ caps\<rparr>))"

text \<open>The values of the headers a test names: once for every name in the list that it equals.\<close>

definition named_header_values :: "(bytes \<times> bytes) list \<Rightarrow> bytes list \<Rightarrow> bytes list" where
  "named_header_values hs names =
     concat (map (\<lambda>(n, v). map (\<lambda>_. v) (filter (\<lambda>f. eq_ignore_ascii_case n f) names)) hs)"

definition eval_header_test :: "'re sieve_lib \<Rightarrow> form list \<Rightarrow> ctx \<Rightarrow> bool \<times> ctx" where
  "eval_header_test lib forms cx =
     (case extract_match_type Is forms of (mt, after_mt) \<Rightarrow>
      case extract_comparator AsciiCasemap after_mt of (cmp, after_cmp) \<Rightarrow>
      case collect_two_string_lists after_cmp of (field_names, keys) \<Rightarrow>
        finish_search
          (search_values (\<lambda>v. search_keys lib (cx_variables_enabled cx) mt (cmp = AsciiCasemap) v keys)
             (named_header_values (cx_headers cx) field_names)) cx)"

definition eval_address_test :: "'re sieve_lib \<Rightarrow> form list \<Rightarrow> ctx \<Rightarrow> bool \<times> ctx" where
  "eval_address_test lib forms cx =
     (case extract_match_type Is forms of (mt, after_mt) \<Rightarrow>
      case extract_comparator AsciiCasemap after_mt of (cmp, after_cmp) \<Rightarrow>
      case extract_address_part ''all'' after_cmp of (part, after_part) \<Rightarrow>
      case collect_two_string_lists after_part of (field_names, keys) \<Rightarrow>
        finish_search
          (search_values
             (\<lambda>v. search_keys lib (cx_variables_enabled cx) mt (cmp = AsciiCasemap) (address_part v part) keys)
             (named_header_values (cx_headers cx) field_names)) cx)"

definition envelope_value :: "ctx \<Rightarrow> bytes \<Rightarrow> bytes option" where
  "envelope_value cx pname =
     (let p = to_ascii_lowercase pname
      in if p = ''from'' then Some (cx_envelope_from cx) else if p = ''to'' then Some (cx_envelope_to cx) else None)"

definition eval_envelope_test :: "'re sieve_lib \<Rightarrow> form list \<Rightarrow> ctx \<Rightarrow> bool \<times> ctx" where
  "eval_envelope_test lib forms cx =
     (case extract_match_type Is forms of (mt, after_mt) \<Rightarrow>
      case extract_comparator AsciiCasemap after_mt of (cmp, after_cmp) \<Rightarrow>
      case extract_address_part ''all'' after_cmp of (part, after_part) \<Rightarrow>
      case collect_two_string_lists after_part of (part_names, keys) \<Rightarrow>
        finish_search
          (search_values
             (\<lambda>v. search_keys lib (cx_variables_enabled cx) mt (cmp = AsciiCasemap) (address_part v part) keys)
             (List.map_filter (envelope_value cx) part_names)) cx)"

definition eval_environment_test :: "'re sieve_lib \<Rightarrow> form list \<Rightarrow> ctx \<Rightarrow> bool" where
  "eval_environment_test lib forms cx =
     (if \<not> cx_environment_enabled cx then False
      else case extract_match_type Is forms of (mt, after_mt) \<Rightarrow>
           case extract_comparator AsciiCasemap after_mt of (cmp, after_cmp) \<Rightarrow>
           case collect_two_string_lists after_cmp of (item_names, keys) \<Rightarrow>
             list_ex (\<lambda>item. list_ex (\<lambda>key. apply_match lib (env_get (cx_env cx) item) key mt (cmp = AsciiCasemap)) keys)
               item_names)"

definition eval_exists_test :: "form list \<Rightarrow> ctx \<Rightarrow> bool" where
  "eval_exists_test forms cx =
     list_all (\<lambda>name. list_ex (\<lambda>(n, _). eq_ignore_ascii_case n name) (cx_headers cx))
       (collect_one_string_list forms)"

fun size_operands :: "form list \<Rightarrow> bool \<times> bool \<times> u64 option \<Rightarrow> bool \<times> bool \<times> u64 option" where
  "size_operands [] r = r"
| "size_operands (f # fs) (is_over, is_under, lim) =
     size_operands fs
       (if f = Tag ''over'' then (True, is_under, lim)
        else if f = Tag ''under'' then (is_over, True, lim)
        else case f of Num n \<Rightarrow> (is_over, is_under, Some n) | _ \<Rightarrow> (is_over, is_under, lim))"

definition eval_size_test :: "form list \<Rightarrow> nat \<Rightarrow> bool" where
  "eval_size_test forms message_size =
     (case size_operands forms (False, False, None) of
        (is_over, is_under, None) \<Rightarrow> False
      | (is_over, is_under, Some l) \<Rightarrow>
          if is_over then message_size > unat l else if is_under then message_size < unat l else False)"

section \<open>Variables\<close>

fun take_name :: "uchar list \<Rightarrow> bytes \<Rightarrow> bytes \<times> bool \<times> uchar list" where
  "take_name [] name = (name, False, [])"
| "take_name (c # cs) name = (if c = ''}'' then (name, True, cs) else take_name cs (name @ c))"

lemma take_name_shorter: "take_name cs name = (n, closed, r) \<Longrightarrow> length r \<le> length cs"
  by (induction cs arbitrary: name) (auto split: if_splits simp: le_SucI)

definition var_value :: "'re sieve_lib \<Rightarrow> (bytes \<rightharpoonup> bytes) \<Rightarrow> bytes \<Rightarrow> bytes" where
  "var_value lib vars name = (case vars (to_lowercase lib name) of Some v \<Rightarrow> v | None \<Rightarrow> [])"

function expand_loop :: "'re sieve_lib \<Rightarrow> (bytes \<rightharpoonup> bytes) \<Rightarrow> uchar list \<Rightarrow> bytes \<Rightarrow> bytes" where
  "expand_loop lib vars [] out = out"
| "expand_loop lib vars (ch # cs) out =
     (if ch = BACKSLASH
      then (case cs of
              c2 # cs2 \<Rightarrow> if c2 = ''$'' then expand_loop lib vars cs2 (out @ ''$'')
                          else expand_loop lib vars cs (out @ BACKSLASH)
            | [] \<Rightarrow> out @ BACKSLASH)
      else if ch = ''$'' \<and> cs \<noteq> [] \<and> hd cs = ''{''
      then (case take_name (tl cs) [] of (name, closed, r) \<Rightarrow>
              if closed then expand_loop lib vars r (out @ var_value lib vars name)
              else expand_loop lib vars r (out @ ''${'' @ name))
      else expand_loop lib vars cs (out @ ch))"
  by pat_completeness auto
termination
  by (relation "measure (\<lambda>(_, _, cs, _). length cs)")
    (auto simp: less_Suc_eq_le neq_Nil_conv le_SucI dest!: take_name_shorter [OF sym])

declare expand_loop.simps [simp del]

definition expand_vars :: "'re sieve_lib \<Rightarrow> bytes \<Rightarrow> ctx \<Rightarrow> bytes" where
  "expand_vars lib s cx =
     (if \<not> cx_variables_enabled cx then s else expand_loop lib (cx_variables cx) (str_chars s) [])"

definition precedence :: "bytes \<Rightarrow> nat" where
  "precedence m =
     (if m = ''lower'' \<or> m = ''upper'' then 40
      else if m = ''length'' then 30
      else if m = ''quotewildcard'' then 20
      else if m = ''firstline'' then 10
      else 0)"

definition replace_char :: "char \<Rightarrow> bytes \<Rightarrow> bytes \<Rightarrow> bytes" where
  "replace_char c r s = concat (map (\<lambda>x. if x = c then r else [x]) s)"

definition firstline :: "bytes \<Rightarrow> bytes" where
  "firstline v = (case split_once LF v of Some (l, _) \<Rightarrow> strip_cr_suffix l | None \<Rightarrow> v)"

definition apply_modifier :: "bytes \<Rightarrow> bytes \<Rightarrow> bytes" where
  "apply_modifier m v =
     (if m = ''lower'' then to_ascii_lowercase v
      else if m = ''upper'' then to_ascii_uppercase v
      else if m = ''length'' then show_nat (length (str_chars v))
      else if m = ''quotewildcard''
      then replace_char CHR ''?'' (BACKSLASH @ ''?'') (replace_char CHR ''*'' (BACKSLASH @ ''*'') v)
      else if m = ''firstline'' then firstline v
      else v)"

text \<open>The sort by \<^verbatim>\<open>Reverse(precedence)\<close> is stable.\<close>

definition apply_set_modifiers :: "bytes \<Rightarrow> bytes list \<Rightarrow> bytes" where
  "apply_set_modifiers v modifiers = fold apply_modifier (sort_key (\<lambda>m. 40 - precedence m) modifiers) v"

section \<open>Statements\<close>

fun split_at_block :: "form list \<Rightarrow> (form list \<times> stmt list \<times> form list) option" where
  "split_at_block [] = None"
| "split_at_block (Block b # fs) = Some ([], b, fs)"
| "split_at_block (f # fs) = map_option (\<lambda>(t, b, r). (f # t, b, r)) (split_at_block fs)"

lemma split_at_block_size:
  "split_at_block fs = Some (t, b, r) \<Longrightarrow>
     size_list size fs = size_list size t + size (Block b) + size_list size r + 1"
  by (induction fs arbitrary: t rule: split_at_block.induct) auto

fun leading_tags :: "form list \<Rightarrow> bytes list \<times> form list" where
  "leading_tags (Tag t # fs) = (case leading_tags fs of (ts, r) \<Rightarrow> (t # ts, r))"
| "leading_tags fs = ([], fs)"

definition eval_set :: "'re sieve_lib \<Rightarrow> form list \<Rightarrow> ctx \<Rightarrow> ctx" where
  "eval_set lib rest cx =
     (case leading_tags rest of
        (modifier_names, Str name # Str val # _) \<Rightarrow>
          cx\<lparr>cx_variables := (cx_variables cx)(to_lowercase lib name \<mapsto>
                apply_set_modifiers (expand_vars lib val cx) modifier_names)\<rparr>
      | _ \<Rightarrow> cx)"

text \<open>Tests; \<^verbatim>\<open>all\<close> and \<^verbatim>\<open>any\<close> stop at the first test that decides.\<close>

fun eval_test :: "'re sieve_lib \<Rightarrow> form list \<Rightarrow> ctx \<Rightarrow> bool \<times> ctx"
  and eval_all :: "'re sieve_lib \<Rightarrow> stmt list \<Rightarrow> ctx \<Rightarrow> bool \<times> ctx"
  and eval_any :: "'re sieve_lib \<Rightarrow> stmt list \<Rightarrow> ctx \<Rightarrow> bool \<times> ctx"
where
  "eval_test lib (Word w # rest) cx =
     (if w = ''header'' then eval_header_test lib rest cx
      else if w = ''address'' then eval_address_test lib rest cx
      else if w = ''envelope'' then eval_envelope_test lib rest cx
      else if w = ''environment'' then (eval_environment_test lib rest cx, cx)
      else if w = ''exists'' then (eval_exists_test rest cx, cx)
      else if w = ''size'' then (eval_size_test rest (cx_message_size cx), cx)
      else if w = ''allof'' then (case rest of [TestList tests] \<Rightarrow> eval_all lib tests cx | _ \<Rightarrow> (False, cx))
      else if w = ''anyof'' then (case rest of [TestList tests] \<Rightarrow> eval_any lib tests cx | _ \<Rightarrow> (False, cx))
      else if w = ''not'' then (case eval_test lib rest cx of (b, cx) \<Rightarrow> (\<not> b, cx))
      else if w = ''true'' then (True, cx)
      else (False, cx))"
| "eval_test lib _ cx = (False, cx)"
| "eval_all lib [] cx = (True, cx)"
| "eval_all lib (t # tests) cx = (case eval_test lib t cx of (b, cx) \<Rightarrow> if b then eval_all lib tests cx else (False, cx))"
| "eval_any lib [] cx = (False, cx)"
| "eval_any lib (t # tests) cx = (case eval_test lib t cx of (b, cx) \<Rightarrow> if b then (True, cx) else eval_any lib tests cx)"

definition leave_if :: "stmt_result \<times> ctx \<Rightarrow> stmt_result \<times> ctx" where
  "leave_if r = (fst r, (snd r)\<lparr>cx_nesting_depth := cx_nesting_depth (snd r) - 1\<rparr>)"

fun block_result :: "stmt_result option \<times> ctx \<Rightarrow> stmt_result \<times> ctx" where
  "block_result (None, cx) = (Continue, cx)"
| "block_result (Some r, cx) = (r, cx)"

function eval_stmt_list :: "'re sieve_lib \<Rightarrow> stmt list \<Rightarrow> ctx \<Rightarrow> stmt_result option \<times> ctx"
  and eval_stmt :: "'re sieve_lib \<Rightarrow> stmt \<Rightarrow> ctx \<Rightarrow> stmt_result \<times> ctx"
  and eval_if :: "'re sieve_lib \<Rightarrow> form list \<Rightarrow> ctx \<Rightarrow> stmt_result \<times> ctx"
  and eval_elsif_else :: "'re sieve_lib \<Rightarrow> form list \<Rightarrow> ctx \<Rightarrow> stmt_result \<times> ctx"
where
  "eval_stmt_list lib [] cx = (None, cx)"
| "eval_stmt_list lib (s # ss) cx =
     (case eval_stmt lib s cx of (r, cx) \<Rightarrow> if r = Continue then eval_stmt_list lib ss cx else (Some r, cx))"
| "eval_stmt lib stmt cx =
     (case stmt of
        Word w # rest \<Rightarrow>
          if w = ''require'' then (Continue, cx)
          else if w = ''if'' then eval_if lib rest cx
          else if w = ''set'' then (Continue, eval_set lib rest cx)
          else (case rest of
                  [] \<Rightarrow>
                    if w = ''discard'' then (RDiscard, cx\<lparr>cx_last_action := Some Discard\<rparr>)
                    else if w = ''keep'' then (RKeep, cx\<lparr>cx_last_action := Some Keep\<rparr>)
                    else if w = ''stop'' then (Stop, cx)
                    else (Continue, cx)
                | [Str s] \<Rightarrow>
                    if w = ''fileinto''
                    then let folder = expand_vars lib s cx in (RFileInto folder, cx\<lparr>cx_last_action := Some (FileInto folder)\<rparr>)
                    else if w = ''reject''
                    then let reason = expand_vars lib s cx in (RReject reason, cx\<lparr>cx_last_action := Some (Reject reason)\<rparr>)
                    else (Continue, cx)
                | _ \<Rightarrow> (Continue, cx))
      | _ \<Rightarrow> (Continue, cx))"
| "eval_if lib rest cx =
     (if cx_nesting_depth cx \<ge> MAX_EVAL_DEPTH then (Continue, cx)
      else let cx = cx\<lparr>cx_nesting_depth := cx_nesting_depth cx + 1\<rparr>
        in leave_if
             (case split_at_block rest of
                None \<Rightarrow> (Continue, cx)
              | Some (test_forms, block, after_block) \<Rightarrow>
                  (case eval_test lib test_forms cx of (b, cx) \<Rightarrow>
                     if b then block_result (eval_stmt_list lib block cx)
                     else eval_elsif_else lib after_block cx)))"
| "eval_elsif_else lib rest cx =
     (case rest of
        [] \<Rightarrow> (Continue, cx)
      | Word w # tl' \<Rightarrow>
          if w = ''elsif'' then eval_if lib tl' cx
          else (case tl' of
                  Block stmts # _ \<Rightarrow> if w = ''else'' then block_result (eval_stmt_list lib stmts cx) else (Continue, cx)
                | _ \<Rightarrow> (Continue, cx))
      | _ \<Rightarrow> (Continue, cx))"
  by pat_completeness auto

fun eval_measure where
  "eval_measure (Inl (Inl (_ :: 're sieve_lib, ss :: stmt list, _ :: ctx))) = size_list (size_list size) ss"
| "eval_measure (Inl (Inr (_ :: 're sieve_lib, s :: stmt, _ :: ctx))) = size_list size s"
| "eval_measure (Inr (Inl (_ :: 're sieve_lib, s :: form list, _ :: ctx))) = size_list size s"
| "eval_measure (Inr (Inr (_ :: 're sieve_lib, s :: form list, _ :: ctx))) = size_list size s"

termination eval_stmt_list
  by (relation "measure eval_measure") (auto dest!: split_at_block_size)

declare eval_stmt.simps [simp del] eval_if.simps [simp del] eval_elsif_else.simps [simp del]

section \<open>Scripts\<close>

definition stmt_requires :: "bytes \<Rightarrow> stmt \<Rightarrow> bool" where
  "stmt_requires name s =
     (case s of
        Word w # rest \<Rightarrow>
          w = ''require'' \<and>
          list_ex (\<lambda>f. case f of Str t \<Rightarrow> t = name | StringList v \<Rightarrow> name \<in> set v | _ \<Rightarrow> False) rest
      | _ \<Rightarrow> False)"

definition has_require :: "script \<Rightarrow> bytes \<Rightarrow> bool" where
  "has_require script name = list_ex (stmt_requires name) script"

definition initial_ctx :: "script \<Rightarrow> bytes \<Rightarrow> bytes \<Rightarrow> bytes \<Rightarrow> sieve_env \<Rightarrow> ctx" where
  "initial_ctx script raw_message envelope_from envelope_to env =
     \<lparr>cx_headers = extract_headers raw_message, cx_message_size = length raw_message,
      cx_envelope_from = envelope_from, cx_envelope_to = envelope_to, cx_variables = Map.empty,
      cx_variables_enabled = has_require script ''variables'',
      cx_environment_enabled = has_require script ''environment'',
      cx_env = env, cx_last_action = None, cx_nesting_depth = 0\<rparr>"

fun script_action :: "stmt_result option \<times> ctx \<Rightarrow> sieve_action" where
  "script_action (None, cx) = Keep"
| "script_action (Some Continue, cx) = Keep"
| "script_action (Some Stop, cx) = (case cx_last_action cx of Some a \<Rightarrow> a | None \<Rightarrow> Keep)"
| "script_action (Some RKeep, cx) = Keep"
| "script_action (Some RDiscard, cx) = Discard"
| "script_action (Some (RFileInto folder), cx) = FileInto folder"
| "script_action (Some (RReject reason), cx) = Reject reason"

definition eval_script :: "'re sieve_lib \<Rightarrow> script \<Rightarrow> bytes \<Rightarrow> bytes \<Rightarrow> bytes \<Rightarrow> sieve_env \<Rightarrow> sieve_action list" where
  "eval_script lib script raw_message envelope_from envelope_to env =
     [script_action (eval_stmt_list lib script (initial_ctx script raw_message envelope_from envelope_to env))]"

end
