(* ===== verification/Sieve.thy ===== *)
theory Sieve
  imports SieveEval
begin

text \<open>
  The public interface of the native Sieve crate (\<^verbatim>\<open>crates/sieve-native/src/lib.rs\<close>): compiling with
  its compile-time checks, and evaluating. Error strings are values of a datatype.
\<close>

section \<open>Compile-time checks\<close>

datatype compile_error =
    InvalidUtf8
  | Parse parse_error
  | UnsupportedExtension bytes
  | UndeclaredTest bytes
  | TooDeep
  | UnsupportedComparator bytes
  | ComparatorNotString
  | ComparatorAtEnd
  | InvalidRegex bytes

definition KNOWN :: "bytes list" where
  "KNOWN = [''fileinto'', ''reject'', ''variables'', ''regex'', ''environment'']"

definition KNOWN_COMPARATORS :: "bytes list" where
  "KNOWN_COMPARATORS = [''i;ascii-casemap'', ''i;octet'']"

definition MAX_VALIDATE_DEPTH :: nat where
  "MAX_VALIDATE_DEPTH = 32"

definition require_extensions :: "stmt \<Rightarrow> bytes list" where
  "require_extensions s =
     (case s of
        Word w # rest \<Rightarrow>
          if w = ''require''
          then concat (map (\<lambda>f. case f of Str t \<Rightarrow> [t] | StringList v \<Rightarrow> v | _ \<Rightarrow> []) rest)
          else []
      | _ \<Rightarrow> [])"

text \<open>The loop over the \<^verbatim>\<open>require\<close> statements: the declared extensions, or the first unknown one.\<close>

definition declared_extensions :: "script \<Rightarrow> compile_error + bytes list" where
  "declared_extensions script =
     (let exts = concat (map require_extensions script)
      in case List.find (\<lambda>e. e \<notin> set KNOWN) exts of
           Some e \<Rightarrow> Inl (UnsupportedExtension e)
         | None \<Rightarrow> Inr exts)"

fun check_stmt_no_test_keyword :: "bytes \<Rightarrow> form list \<Rightarrow> compile_error + unit"
  and check_no_test_keyword :: "bytes \<Rightarrow> stmt list \<Rightarrow> compile_error + unit"
where
  "check_stmt_no_test_keyword keyword [] = Inr ()"
| "check_stmt_no_test_keyword keyword (f # fs) =
     and_then
       (case f of
          Word w \<Rightarrow>
            if (w = ''if'' \<or> w = ''elsif'') \<and> fs \<noteq> [] \<and> hd fs = Word keyword then Inl (UndeclaredTest keyword)
            else Inr ()
        | Block stmts \<Rightarrow> check_no_test_keyword keyword stmts
        | TestList tests \<Rightarrow> check_no_test_keyword keyword tests
        | _ \<Rightarrow> Inr ())
       (\<lambda>_. check_stmt_no_test_keyword keyword fs)"
| "check_no_test_keyword keyword [] = Inr ()"
| "check_no_test_keyword keyword (s # ss) =
     and_then (check_stmt_no_test_keyword keyword s) (\<lambda>_. check_no_test_keyword keyword ss)"

definition check_pattern :: "'re sieve_lib \<Rightarrow> bytes \<Rightarrow> compile_error + unit" where
  "check_pattern lib pattern =
     (case re_new lib (anchored_regex pattern) of None \<Rightarrow> Inl (InvalidRegex pattern) | Some _ \<Rightarrow> Inr ())"

text \<open>The key list of a statement with \<^verbatim>\<open>:regex\<close>: its last string or string list.\<close>

definition regex_patterns :: "form list \<Rightarrow> bytes list" where
  "regex_patterns stmt =
     (case List.find (\<lambda>f. string_operand f \<noteq> None) (rev stmt) of
        Some f \<Rightarrow> the (string_operand f)
      | None \<Rightarrow> [])"

function validate_stmt :: "'re sieve_lib \<Rightarrow> form list \<Rightarrow> nat \<Rightarrow> compile_error + unit"
  and validate_forms :: "'re sieve_lib \<Rightarrow> nat \<Rightarrow> bool \<Rightarrow> form list \<Rightarrow> compile_error + bool"
  and validate_stmts :: "'re sieve_lib \<Rightarrow> stmt list \<Rightarrow> nat \<Rightarrow> compile_error + unit"
where
  "validate_stmt lib stmt depth =
     (if depth \<ge> MAX_VALIDATE_DEPTH then Inl TooDeep
      else and_then (validate_forms lib depth False stmt)
        (\<lambda>has_regex_tag. if has_regex_tag then try_each (check_pattern lib) (regex_patterns stmt) else Inr ()))"
| "validate_forms lib depth has_regex_tag [] = Inr has_regex_tag"
| "validate_forms lib depth has_regex_tag (f # fs) =
     (case f of
        Tag t \<Rightarrow>
          if t = ''comparator''
          then (case fs of
                  [] \<Rightarrow> Inl ComparatorAtEnd
                | g # gs \<Rightarrow>
                    (case g of
                       Str name \<Rightarrow>
                         if name \<notin> set KNOWN_COMPARATORS then Inl (UnsupportedComparator name)
                         else validate_forms lib depth has_regex_tag gs
                     | _ \<Rightarrow> Inl ComparatorNotString))
          else if t = ''regex'' then validate_forms lib depth True fs
          else validate_forms lib depth has_regex_tag fs
      | Block stmts \<Rightarrow>
          and_then (validate_stmts lib stmts (depth + 1)) (\<lambda>_. validate_forms lib depth has_regex_tag fs)
      | TestList tests \<Rightarrow>
          and_then (validate_stmts lib tests (depth + 1)) (\<lambda>_. validate_forms lib depth has_regex_tag fs)
      | _ \<Rightarrow> validate_forms lib depth has_regex_tag fs)"
| "validate_stmts lib [] depth = Inr ()"
| "validate_stmts lib (s # ss) depth = and_then (validate_stmt lib s depth) (\<lambda>_. validate_stmts lib ss depth)"
  by pat_completeness auto

fun validate_measure where
  "validate_measure (Inl (_ :: 're sieve_lib, s :: form list, _ :: nat)) = 2 * size_list size s + (1 :: nat)"
| "validate_measure (Inr (Inl (_ :: 're sieve_lib, _ :: nat, _ :: bool, s :: form list))) = 2 * size_list size s"
| "validate_measure (Inr (Inr (_ :: 're sieve_lib, ss :: stmt list, _ :: nat))) = 2 * size_list (size_list size) ss"

termination validate_stmt
  by (relation "measure validate_measure") auto

declare validate_stmt.simps [simp del]

definition validate_script :: "'re sieve_lib \<Rightarrow> script \<Rightarrow> compile_error + unit" where
  "validate_script lib script = try_each (\<lambda>s. validate_stmt lib s 0) script"

section \<open>The public operations\<close>

definition sieve_compile :: "'re sieve_lib \<Rightarrow> bytes \<Rightarrow> compile_error + script" where
  "sieve_compile lib source =
     (if \<not> valid_utf8 source then Inl InvalidUtf8
      else case tokenize source of
        Inl e \<Rightarrow> Inl (Parse e)
      | Inr tokens \<Rightarrow>
          (case read_script tokens of
             Inl e \<Rightarrow> Inl (Parse e)
           | Inr parsed \<Rightarrow>
               and_then (declared_extensions parsed) (\<lambda>declared.
               and_then (if ''environment'' \<notin> set declared then check_no_test_keyword ''environment'' parsed else Inr ()) (\<lambda>_.
               and_then (validate_script lib parsed) (\<lambda>_. Inr parsed)))))"

definition sieve_evaluate :: "'re sieve_lib \<Rightarrow> script \<Rightarrow> bytes \<Rightarrow> bytes \<Rightarrow> bytes \<Rightarrow> sieve_env \<Rightarrow> sieve_action list" where
  "sieve_evaluate lib script raw_message envelope_from envelope_to env =
     eval_script lib script raw_message envelope_from envelope_to env"

section \<open>What compiles\<close>

fun comparators_ok :: "form list \<Rightarrow> bool" where
  "comparators_ok [] = True"
| "comparators_ok (f # fs) =
     (if f = Tag ''comparator''
      then (case fs of
              Str name # gs \<Rightarrow> name \<in> set KNOWN_COMPARATORS \<and> comparators_ok gs
            | _ \<Rightarrow> False)
      else comparators_ok fs)"

definition regexes_ok :: "'re sieve_lib \<Rightarrow> form list \<Rightarrow> bool" where
  "regexes_ok lib s \<longleftrightarrow>
     (Tag ''regex'' \<in> set s \<longrightarrow> (\<forall>p \<in> set (regex_patterns s). re_new lib (anchored_regex p) \<noteq> None))"

fun form_valid :: "'re sieve_lib \<Rightarrow> nat \<Rightarrow> form \<Rightarrow> bool" where
  "form_valid lib d (Block ss) =
     (\<forall>s \<in> set ss. d + 1 < MAX_VALIDATE_DEPTH \<and> comparators_ok s \<and> regexes_ok lib s \<and> (\<forall>f \<in> set s. form_valid lib (d + 1) f))"
| "form_valid lib d (TestList ss) =
     (\<forall>s \<in> set ss. d + 1 < MAX_VALIDATE_DEPTH \<and> comparators_ok s \<and> regexes_ok lib s \<and> (\<forall>f \<in> set s. form_valid lib (d + 1) f))"
| "form_valid lib d _ = True"

text \<open>
  A statement the compiler accepts at a nesting depth: it and all statements nested in it stay below
  the depth limit, name only known comparators, and have key lists that are regular expressions
  where \<^verbatim>\<open>:regex\<close> is used.
\<close>

definition stmt_valid :: "'re sieve_lib \<Rightarrow> nat \<Rightarrow> stmt \<Rightarrow> bool" where
  "stmt_valid lib d s \<longleftrightarrow>
     d < MAX_VALIDATE_DEPTH \<and> comparators_ok s \<and> regexes_ok lib s \<and> (\<forall>f \<in> set s. form_valid lib d f)"

definition follows_if :: "bytes \<Rightarrow> stmt \<Rightarrow> bool" where
  "follows_if k s \<longleftrightarrow> (\<exists>i. Suc i < length s \<and> s ! i \<in> {Word ''if'', Word ''elsif''} \<and> s ! Suc i = Word k)"

fun form_uses_test :: "bytes \<Rightarrow> form \<Rightarrow> bool" where
  "form_uses_test k (Block ss) = (\<exists>s \<in> set ss. follows_if k s \<or> (\<exists>f \<in> set s. form_uses_test k f))"
| "form_uses_test k (TestList ss) = (\<exists>s \<in> set ss. follows_if k s \<or> (\<exists>f \<in> set s. form_uses_test k f))"
| "form_uses_test k _ = False"

text \<open>The test \<^verbatim>\<open>k\<close> stands right behind an \<^verbatim>\<open>if\<close> or \<^verbatim>\<open>elsif\<close> somewhere in the statement.\<close>

definition stmt_uses_test :: "bytes \<Rightarrow> stmt \<Rightarrow> bool" where
  "stmt_uses_test k s \<longleftrightarrow> follows_if k s \<or> (\<exists>f \<in> set s. form_uses_test k f)"

lemma and_then_Inr_unit: "and_then r f = Inr () \<longleftrightarrow> (\<exists>a. r = Inr a \<and> f a = Inr ())"
  by (rule and_then_eq_Inr)

lemma check_pattern_iff: "check_pattern lib p = Inr () \<longleftrightarrow> re_new lib (anchored_regex p) \<noteq> None"
  by (auto simp: check_pattern_def split: option.splits)

lemma validate_iff:
  "validate_stmt lib s d = Inr () \<longleftrightarrow> stmt_valid lib d s"
  "validate_forms lib d r fs = Inr r' \<longleftrightarrow>
     comparators_ok fs \<and> (\<forall>f \<in> set fs. form_valid lib d f) \<and> r' = (r \<or> Tag ''regex'' \<in> set fs)"
  "validate_stmts lib ss d = Inr () \<longleftrightarrow> (\<forall>s \<in> set ss. stmt_valid lib d s)"
proof (induction lib s d and lib d r fs and lib ss d arbitrary: and r' and
    rule: validate_stmt_validate_forms_validate_stmts.induct)
  case (1 lib stmt depth)
  then show ?case
    by (auto simp: validate_stmt.simps [of lib stmt depth] and_then_eq_Inr stmt_valid_def regexes_ok_def
        try_each_Inr_iff check_pattern_iff not_le)
next
  case (3 lib depth r f fs)
  then show ?case
    by (cases f) (auto simp: and_then_eq_Inr stmt_valid_def split: list.splits form.splits)
qed (auto simp: and_then_eq_Inr)

lemma follows_if_Cons:
  "follows_if k (f # fs) \<longleftrightarrow> f \<in> {Word ''if'', Word ''elsif''} \<and> fs \<noteq> [] \<and> hd fs = Word k \<or> follows_if k fs"
proof
  assume "follows_if k (f # fs)"
  then obtain i where i: "i < length fs" "(f # fs) ! i \<in> {Word ''if'', Word ''elsif''}" "fs ! i = Word k"
    by (auto simp: follows_if_def)
  then show "f \<in> {Word ''if'', Word ''elsif''} \<and> fs \<noteq> [] \<and> hd fs = Word k \<or> follows_if k fs"
    by (cases i) (auto simp: follows_if_def hd_conv_nth)
next
  assume "f \<in> {Word ''if'', Word ''elsif''} \<and> fs \<noteq> [] \<and> hd fs = Word k \<or> follows_if k fs"
  then show "follows_if k (f # fs)"
  proof
    assume "f \<in> {Word ''if'', Word ''elsif''} \<and> fs \<noteq> [] \<and> hd fs = Word k"
    then show ?thesis unfolding follows_if_def by (intro exI [of _ 0]) (auto simp: hd_conv_nth)
  next
    assume "follows_if k fs"
    then obtain i where "Suc i < length fs \<and> fs ! i \<in> {Word ''if'', Word ''elsif''} \<and> fs ! Suc i = Word k"
      unfolding follows_if_def by blast
    then show ?thesis unfolding follows_if_def by (intro exI [of _ "Suc i"]) auto
  qed
qed

lemma check_keyword_iff:
  "check_stmt_no_test_keyword k s = Inr () \<longleftrightarrow> \<not> stmt_uses_test k s"
  "check_no_test_keyword k ss = Inr () \<longleftrightarrow> (\<forall>s \<in> set ss. \<not> stmt_uses_test k s)"
proof (induction k s and k ss rule: check_stmt_no_test_keyword_check_no_test_keyword.induct)
  case (1 k)
  then show ?case by (simp add: stmt_uses_test_def follows_if_def)
next
  case (2 k f fs)
  then show ?case
    by (cases f) (auto simp: and_then_eq_Inr stmt_uses_test_def follows_if_Cons)
qed (auto simp: and_then_eq_Inr)

lemma declared_iff:
  "declared_extensions ss = Inr exts \<longleftrightarrow>
     exts = concat (map require_extensions ss) \<and> set exts \<subseteq> set KNOWN"
proof -
  define xs where "xs = concat (map require_extensions ss)"
  have known: "List.find (\<lambda>e. e \<notin> set KNOWN) xs = None \<longleftrightarrow> set xs \<subseteq> set KNOWN"
    by (auto simp: find_None_iff)
  have "declared_extensions ss = Inr exts \<longleftrightarrow> List.find (\<lambda>e. e \<notin> set KNOWN) xs = None \<and> exts = xs"
    unfolding declared_extensions_def Let_def xs_def by (auto split: option.splits)
  then show ?thesis using known unfolding xs_def [symmetric] by blast
qed


section \<open>Compiling printed scripts\<close>

lemma compile_print:
  assumes "script_ok ss" "\<forall>s \<in> set ss. set (require_extensions s) \<subseteq> set KNOWN \<and> stmt_valid lib 0 s"
    "\<forall>s \<in> set ss. \<not> stmt_uses_test ''environment'' s"
  shows "sieve_compile lib (print_tokens (script_tokens ss)) = Inr ss"
proof -
  note ok = script_tokens_ok [OF assms(1)]
  have "declared_extensions ss = Inr (concat (map require_extensions ss))"
    using assms(2) by (auto simp: declared_iff)
  moreover have "check_no_test_keyword ''environment'' ss = Inr ()" using assms(3) by (simp add: check_keyword_iff)
  moreover have "validate_script lib ss = Inr ()"
    using assms(2) by (simp add: validate_script_def try_each_Inr_iff validate_iff)
  ultimately show ?thesis
    using tokenize_print [OF ok] print_tokens_valid [OF ok] read_script_print [OF assms(1)]
    by (simp add: sieve_compile_def)
qed

lemmas ident_eval = is_ident_def ident_start_def ident_char_def is_ascii_alphanumeric_def
  is_ascii_alphabetic_def is_ascii_digit_def

section \<open>Long chains\<close>

definition elsif_clause :: "form list" where
  "elsif_clause = [Word ''elsif'', Word ''false'', Block []]"

definition chain_tail :: "nat \<Rightarrow> form list" where
  "chain_tail n = concat (replicate n elsif_clause) @ [Word ''else'', Block [[Word ''discard'']]]"

text \<open>One flat chain with \<^verbatim>\<open>n\<close> \<^verbatim>\<open>elsif\<close> clauses, all of whose tests fail, and an \<^verbatim>\<open>else\<close> that discards.\<close>

definition elsif_chain :: "nat \<Rightarrow> stmt" where
  "elsif_chain n = [Word ''if'', Word ''false'', Block []] @ chain_tail n"

lemma chain_tail_simps:
  "chain_tail 0 = [Word ''else'', Block [[Word ''discard'']]]"
  "chain_tail (Suc n) = Word ''elsif'' # Word ''false'' # Block [] # chain_tail n"
  by (simp_all add: chain_tail_def elsif_clause_def)

lemma eval_chain:
  "eval_if lib (Word ''false'' # Block [] # chain_tail n) cx =
     (if cx_nesting_depth cx + n < MAX_EVAL_DEPTH then (RDiscard, cx\<lparr>cx_last_action := Some Discard\<rparr>) else (Continue, cx))"
proof (induction n arbitrary: cx)
  case 0
  show ?case
    by (simp add: eval_if.simps eval_elsif_else.simps chain_tail_simps eval_stmt.simps leave_if_def Let_def)
next
  case (Suc n)
  then show ?case
    by (simp add: eval_if.simps [of lib "Word ''false'' # Block [] # Word ''elsif'' # Word ''false'' # Block [] # chain_tail n" cx]
        chain_tail_simps
        eval_elsif_else.simps leave_if_def Let_def)
qed

lemma chain_shape: "shape_after (chain_tail n)"
  by (induction n) (simp_all add: chain_tail_simps clause_word_def)

lemma chain_forms: "f \<in> set (chain_tail n) \<Longrightarrow> f \<in> {Word ''else'', Word ''elsif'', Word ''false'', Block [], Block [[Word ''discard'']]}"
  by (induction n) (auto simp: chain_tail_simps)

lemma chain_comparators: "comparators_ok (chain_tail n)"
  by (induction n) (simp_all add: chain_tail_simps)

lemma chain_follows: "\<not> follows_if ''environment'' (chain_tail n)"
  by (induction n) (simp_all add: chain_tail_simps follows_if_Cons, simp add: follows_if_def)

lemma chain_script_ok: "script_ok [elsif_chain n]"
proof -
  have "form_ok f" if "f \<in> set (elsif_chain n)" for f
    using that chain_forms [of f n]
    by (auto simp: elsif_chain_def ident_eval stmt_shape_def starts_clause_def clause_word_def)
  then show ?thesis
    by (simp add: script_ok_def stmt_shape_def elsif_chain_def starts_clause_def clause_word_def chain_shape)
qed

lemma chain_valid: "stmt_valid lib 0 (elsif_chain n)"
proof -
  have "form_valid lib 0 f" if "f \<in> set (elsif_chain n)" for f
    using that chain_forms [of f n] by (auto simp: elsif_chain_def MAX_VALIDATE_DEPTH_def regexes_ok_def)
  moreover have "Tag ''regex'' \<notin> set (elsif_chain n)"
    using chain_forms [of "Tag ''regex''" n] by (auto simp: elsif_chain_def)
  ultimately show ?thesis
    by (simp add: stmt_valid_def MAX_VALIDATE_DEPTH_def regexes_ok_def) (simp add: elsif_chain_def chain_comparators)
qed

text \<open>
  C20. A flat chain of \<^verbatim>\<open>elsif\<close> clauses compiles whatever its length, since its nesting depth is one,
  but the evaluator counts every \<^verbatim>\<open>elsif\<close> as a level of nesting: with 32 clauses or more the \<^verbatim>\<open>else\<close>
  branch is silently skipped and the message is kept, with fewer it is discarded as written.
\<close>

theorem sieve_elsif_chain_cut_off:
  "sieve_compile lib (print_tokens (script_tokens [elsif_chain n])) = Inr [elsif_chain n]
   \<and> sieve_evaluate lib [elsif_chain n] raw_message envelope_from envelope_to envir
     = [if n < 32 then Discard else Keep]"
proof
  have "\<not> form_uses_test ''environment'' f" if "f \<in> set (chain_tail n)" for f
    using chain_forms [OF that] by (auto simp: follows_if_def)
  then have "\<not> stmt_uses_test ''environment'' (elsif_chain n)"
    using chain_follows [of n] by (auto simp: stmt_uses_test_def elsif_chain_def follows_if_Cons)
  then show "sieve_compile lib (print_tokens (script_tokens [elsif_chain n])) = Inr [elsif_chain n]"
    using chain_valid [of lib n] by (intro compile_print chain_script_ok) (simp_all add: require_extensions_def elsif_chain_def)
next
  show "sieve_evaluate lib [elsif_chain n] raw_message envelope_from envelope_to envir = [if n < 32 then Discard else Keep]"
    using eval_chain [of lib n "initial_ctx [elsif_chain n] raw_message envelope_from envelope_to envir"]
    by (simp add: sieve_evaluate_def eval_script_def eval_stmt.simps elsif_chain_def [of n] MAX_EVAL_DEPTH_def initial_ctx_def)
qed

section \<open>The outcome of a script\<close>

definition same_but_variables :: "ctx \<Rightarrow> ctx \<Rightarrow> bool" where
  "same_but_variables cx cx' \<longleftrightarrow> (\<exists>v. cx' = cx\<lparr>cx_variables := v\<rparr>)"

lemma same_but_variables_refl [simp]: "same_but_variables cx cx"
  unfolding same_but_variables_def by (rule exI [of _ "cx_variables cx"]) simp

lemma same_but_variables_trans:
  "same_but_variables a b \<Longrightarrow> same_but_variables b c \<Longrightarrow> same_but_variables a c"
  by (auto simp: same_but_variables_def)

lemma same_but_variables_last: "same_but_variables cx cx' \<Longrightarrow> cx_last_action cx' = cx_last_action cx"
  by (auto simp: same_but_variables_def)

lemma finish_search_frame: "same_but_variables cx (snd (finish_search r cx))"
  by (auto simp: finish_search_def same_but_variables_def split: found.splits option.splits
      intro: exI [of _ "cx_variables cx"])

lemma basic_test_frame:
  "same_but_variables cx (snd (eval_header_test lib fs cx))"
  "same_but_variables cx (snd (eval_address_test lib fs cx))"
  "same_but_variables cx (snd (eval_envelope_test lib fs cx))"
  by (auto simp: eval_header_test_def eval_address_test_def eval_envelope_test_def finish_search_frame split: prod.splits)

lemma single_test_list:
  "(case rest of [TestList tests] \<Rightarrow> f tests | _ \<Rightarrow> d) = (if \<exists>tests. rest = [TestList tests] then f (THE tests. rest = [TestList tests]) else d)"
  by (auto split: list.splits form.splits)

lemma eval_test_frame:
  "same_but_variables cx (snd (eval_test lib fs cx))"
  "same_but_variables cx (snd (eval_all lib ts cx))"
  "same_but_variables cx (snd (eval_any lib us cx))"
proof (induction lib fs cx and lib ts cx and lib us cx rule: eval_test_eval_all_eval_any.induct)
  case (1 lib w rest cx)
  show ?case
  proof (cases "w \<in> {''allof'', ''anyof'', ''not''}")
    case False
    then show ?thesis by (simp add: basic_test_frame)
  next
    case True
    then consider "w = ''allof''" | "w = ''anyof''" | "w = ''not''" by blast
    then show ?thesis
    proof cases
      case 1
      then show ?thesis using "1.IH"(1) by (cases "\<exists>tests. rest = [TestList tests]") (auto simp: single_test_list)
    next
      case 2
      then show ?thesis using "1.IH"(2) by (cases "\<exists>tests. rest = [TestList tests]") (auto simp: single_test_list)
    next
      case 3
      then show ?thesis using "1.IH"(3) by (cases "eval_test lib rest cx") simp
    qed
  qed
qed (auto split: prod.splits intro: same_but_variables_trans)

lemma eval_set_last [simp]: "cx_last_action (eval_set lib rest cx) = cx_last_action cx"
  by (auto simp: eval_set_def split: prod.splits list.splits form.splits)

lemma eval_stmt_last_action:
  assumes "\<not> (\<exists>rest. stmt = Word ''if'' # rest)" "fst (eval_stmt lib stmt cx) \<in> {Continue, Stop}"
  shows "cx_last_action (snd (eval_stmt lib stmt cx)) = cx_last_action cx"
  using assms
  by (auto simp: eval_stmt.simps [of lib stmt cx] Let_def split: list.splits form.splits if_splits)

lemma eval_not_Some_Continue: "eval_stmt_list lib ss cx = (ro, cx') \<Longrightarrow> ro \<noteq> Some Continue"
  by (induction ss arbitrary: cx) (auto split: prod.splits if_splits)

text \<open>A step that does not end in an action leaves the last action alone.\<close>

lemma eval_last_action:
  "fst (eval_stmt_list lib ss cx) \<in> {None, Some Stop} \<Longrightarrow>
     cx_last_action (snd (eval_stmt_list lib ss cx)) = cx_last_action cx"
  "fst (eval_stmt lib s cx) \<in> {Continue, Stop} \<Longrightarrow> cx_last_action (snd (eval_stmt lib s cx)) = cx_last_action cx"
  "fst (eval_if lib fs cx) \<in> {Continue, Stop} \<Longrightarrow> cx_last_action (snd (eval_if lib fs cx)) = cx_last_action cx"
  "fst (eval_elsif_else lib gs cx) \<in> {Continue, Stop} \<Longrightarrow>
     cx_last_action (snd (eval_elsif_else lib gs cx)) = cx_last_action cx"
proof (induction lib ss cx and lib s cx and lib fs cx and lib gs cx
    rule: eval_stmt_list_eval_stmt_eval_if_eval_elsif_else.induct)
  case (1 lib cx)
  then show ?case by simp
next
  case (2 lib s ss cx)
  obtain r cx1 where s: "eval_stmt lib s cx = (r, cx1)" by fastforce
  show ?case
  proof (cases "r = Continue")
    case True
    then show ?thesis using 2 s by simp
  next
    case False
    then show ?thesis using "2.prems" "2.IH"(1) s by simp
  qed
next
  case (3 lib stmt cx)
  show ?case
  proof (cases "\<exists>rest. stmt = Word ''if'' # rest")
    case True
    then obtain rest where rest: "stmt = Word ''if'' # rest" by blast
    then have "eval_stmt lib stmt cx = eval_if lib rest cx" by (simp add: eval_stmt.simps)
    then show ?thesis using "3.IH" [OF rest] "3.prems" by simp
  next
    case False
    then show ?thesis using "3.prems" by (rule eval_stmt_last_action)
  qed
next
  case (4 lib rest cx)
  let ?cx = "cx\<lparr>cx_nesting_depth := cx_nesting_depth cx + 1\<rparr>"
  show ?case
  proof (cases "MAX_EVAL_DEPTH \<le> cx_nesting_depth cx \<or> split_at_block rest = None")
    case True
    then show ?thesis by (auto simp: eval_if.simps [of lib rest cx] leave_if_def Let_def)
  next
    case False
    then obtain t b a where sp: "split_at_block rest = Some (t, b, a)" by (cases "split_at_block rest") auto
    obtain v cx1 where t: "eval_test lib t ?cx = (v, cx1)" by fastforce
    have l1: "cx_last_action cx1 = cx_last_action cx"
      using same_but_variables_last [OF eval_test_frame(1) [of ?cx lib t]] t by simp
    have ev: "eval_if lib rest cx = leave_if (if v then block_result (eval_stmt_list lib b cx1) else eval_elsif_else lib a cx1)"
      using False sp t by (simp add: eval_if.simps [of lib rest cx] Let_def)
    show ?thesis
    proof (cases v)
      case True
      obtain ro cx2 where b: "eval_stmt_list lib b cx1 = (ro, cx2)" by fastforce
      have "ro \<in> {None, Some Stop} \<Longrightarrow> cx_last_action cx2 = cx_last_action cx1"
        using "4.IH"(1) [OF _ refl sp refl refl t [symmetric] True] False b by simp
      then show ?thesis using "4.prems" ev b True l1
        by (cases ro) (auto simp: leave_if_def eval_not_Some_Continue [OF b])
    next
      case v: False
      have "fst (eval_elsif_else lib a cx1) \<in> {Continue, Stop} \<Longrightarrow>
          cx_last_action (snd (eval_elsif_else lib a cx1)) = cx_last_action cx1"
        using "4.IH"(2) [OF _ refl sp refl refl t [symmetric] v] False by simp
      then show ?thesis using "4.prems" ev v l1 by (simp add: leave_if_def)
    qed
  qed
next
  case (5 lib rest cx)
  show ?case
  proof (cases "\<exists>tl'. rest = Word ''elsif'' # tl'")
    case True
    then obtain tl' where tl': "rest = Word ''elsif'' # tl'" by blast
    then show ?thesis using "5.IH"(1) [OF tl' refl] "5.prems" by (simp add: eval_elsif_else.simps)
  next
    case no_elsif: False
    show ?thesis
    proof (cases "\<exists>ss r. rest = Word ''else'' # Block ss # r")
      case True
      then obtain ss r where ss: "rest = Word ''else'' # Block ss # r" by blast
      obtain ro cx2 where b: "eval_stmt_list lib ss cx = (ro, cx2)" by fastforce
      have "ro \<in> {None, Some Stop} \<Longrightarrow> cx_last_action cx2 = cx_last_action cx"
        using "5.IH"(2) [OF ss refl _ refl refl] b by simp
      then show ?thesis using "5.prems" ss b
        by (cases ro) (auto simp: eval_elsif_else.simps eval_not_Some_Continue [OF b])
    next
      case False
      with no_elsif have "eval_elsif_else lib rest cx = (Continue, cx)"
        by (auto simp: eval_elsif_else.simps [of lib rest cx] split: list.splits form.splits)
      then show ?thesis by simp
    qed
  qed
qed

fun result_action :: "stmt_result option \<Rightarrow> sieve_action" where
  "result_action (Some RDiscard) = Discard"
| "result_action (Some (RFileInto folder)) = FileInto folder"
| "result_action (Some (RReject reason)) = Reject reason"
| "result_action _ = Keep"

lemma eval_stmt_list_append:
  "eval_stmt_list lib (ss @ ts) cx =
     (case eval_stmt_list lib ss cx of (None, cx') \<Rightarrow> eval_stmt_list lib ts cx' | r \<Rightarrow> r)"
  by (induction ss arbitrary: cx) (auto split: prod.splits)

text \<open>
  A script has exactly one outcome, the first action it executes: a statement behind it is never
  run, and \<^verbatim>\<open>stop\<close> always means the implicit keep, because no action can have been recorded before it.
\<close>

lemma sieve_first_action_wins:
  "sieve_evaluate lib ss raw_message envelope_from envelope_to envir
     = [result_action (fst (eval_stmt_list lib ss (initial_ctx ss raw_message envelope_from envelope_to envir)))]
   \<and> eval_stmt_list lib (ss @ ts) cx
     = (case eval_stmt_list lib ss cx of (None, cx') \<Rightarrow> eval_stmt_list lib ts cx' | r \<Rightarrow> r)"
proof
  define cx0 where "cx0 = initial_ctx ss raw_message envelope_from envelope_to envir"
  obtain ro cx' where r: "eval_stmt_list lib ss cx0 = (ro, cx')" by fastforce
  have "ro = Some Stop \<Longrightarrow> cx_last_action cx' = None"
    using eval_last_action(1) [of lib ss cx0] r by (simp add: cx0_def initial_ctx_def)
  then have "script_action (ro, cx') = result_action ro"
    by (cases "(ro, cx')" rule: script_action.cases) auto
  then show "sieve_evaluate lib ss raw_message envelope_from envelope_to envir
     = [result_action (fst (eval_stmt_list lib ss (initial_ctx ss raw_message envelope_from envelope_to envir)))]"
    using r by (simp add: sieve_evaluate_def eval_script_def cx0_def)
qed (rule eval_stmt_list_append)

section \<open>The environment test\<close>

text \<open>
  C21. The compile-time check of the environment test looks only at the word right behind \<^verbatim>\<open>if\<close> or
  \<^verbatim>\<open>elsif\<close>. A script that negates the test compiles without requiring the extension; the test is then
  always false at run time, so its negation holds and the branch is taken whatever the environment.
\<close>

theorem sieve_negated_environment_unchecked:
  assumes "valid_utf8 item" "valid_utf8 key"
  shows "sieve_compile lib (print_tokens (script_tokens
      [[Word ''if'', Word ''not'', Word ''environment'', Str item, Str key, Block [[Word ''discard'']]]]))
    = Inr [[Word ''if'', Word ''not'', Word ''environment'', Str item, Str key, Block [[Word ''discard'']]]]
   \<and> sieve_evaluate lib [[Word ''if'', Word ''not'', Word ''environment'', Str item, Str key, Block [[Word ''discard'']]]]
       raw_message envelope_from envelope_to envir = [Discard]"
proof
  let ?s = "[Word ''if'', Word ''not'', Word ''environment'', Str item, Str key, Block [[Word ''discard'']]]"
  have "script_ok [?s]"
    using assms by (simp add: script_ok_def stmt_shape_def starts_clause_def clause_word_def ident_eval)
  moreover have "stmt_valid lib 0 ?s" by (simp add: stmt_valid_def MAX_VALIDATE_DEPTH_def regexes_ok_def)
  moreover have "\<not> stmt_uses_test ''environment'' ?s"
    by (simp add: stmt_uses_test_def follows_if_Cons) (simp add: follows_if_def)
  ultimately show "sieve_compile lib (print_tokens (script_tokens [?s])) = Inr [?s]"
    by (intro compile_print) (simp_all add: require_extensions_def)
next
  let ?s = "[Word ''if'', Word ''not'', Word ''environment'', Str item, Str key, Block [[Word ''discard'']]]"
  show "sieve_evaluate lib [?s] raw_message envelope_from envelope_to envir = [Discard]"
    by (simp add: sieve_evaluate_def eval_script_def eval_stmt.simps eval_if.simps leave_if_def Let_def
        eval_environment_test_def initial_ctx_def has_require_def stmt_requires_def MAX_EVAL_DEPTH_def)
qed

text \<open>A concrete engine: every pattern compiles to itself and matches only itself.\<close>

definition demo_sieve_lib :: "bytes sieve_lib" where
  "demo_sieve_lib = \<lparr>re_new = Some, re_is_match = (\<lambda>re s. Some (re = s)), re_captures = (\<lambda>re s. Some None),
     re_escape = (\<lambda>s. s), to_lowercase = to_ascii_lowercase\<rparr>"

theorem sieve_negated_environment_unchecked_witness:
  "sieve_compile demo_sieve_lib (print_tokens (script_tokens
      [[Word ''if'', Word ''not'', Word ''environment'', Str ''name'', Str ''stoa'', Block [[Word ''discard'']]]]))
    = Inr [[Word ''if'', Word ''not'', Word ''environment'', Str ''name'', Str ''stoa'', Block [[Word ''discard'']]]]
   \<and> sieve_evaluate demo_sieve_lib [[Word ''if'', Word ''not'', Word ''environment'', Str ''name'', Str ''stoa'', Block [[Word ''discard'']]]]
       ''Subject: x'' ''a'' ''b'' [''name'' \<mapsto> ''stoa''] = [Discard]"
  by (rule sieve_negated_environment_unchecked) (rule ascii_valid_utf8, simp)+


section \<open>Substring tests\<close>

lemma any_window_iff:
  "n \<noteq> 0 \<Longrightarrow> any_window n p s \<longleftrightarrow> (\<exists>u w v. s = u @ w @ v \<and> length w = n \<and> p w)"
proof (induction s)
  case (Cons c s)
  have "(\<exists>u w v. c # s = u @ w @ v \<and> length w = n \<and> p w) \<longleftrightarrow>
      (\<exists>w v. c # s = w @ v \<and> length w = n \<and> p w) \<or> (\<exists>u w v. s = u @ w @ v \<and> length w = n \<and> p w)"
    by (auto simp: Cons_eq_append_conv) blast+
  moreover have "(\<exists>w v. c # s = w @ v \<and> length w = n \<and> p w) \<longleftrightarrow> n \<le> length (c # s) \<and> p (take n (c # s))"
    by (metis append_eq_conv_conj append_take_drop_id length_append length_take le_add1 min.absorb2)
  ultimately show ?case using Cons by auto
qed auto

text \<open>
  The default \<^verbatim>\<open>:contains\<close> comparison, a search by windows that compares bytes case-insensitively,
  decides whether the lower-cased key occurs in the lower-cased value.
\<close>

lemma sieve_contains_casemap:
  "sieve_contains haystack needle True
     \<longleftrightarrow> sieve_contains (to_ascii_lowercase haystack) (to_ascii_lowercase needle) False"
proof (cases "needle = []")
  case True
  then show ?thesis by (auto simp: sieve_contains_def str_contains_sub_iff to_ascii_lowercase_def intro: exI [of _ "[]"])
next
  case False
  have "(\<exists>u w v. haystack = u @ w @ v \<and> length w = length needle \<and> to_ascii_lowercase w = to_ascii_lowercase needle)
      \<longleftrightarrow> (\<exists>u v. to_ascii_lowercase haystack = u @ to_ascii_lowercase needle @ v)" (is "?A \<longleftrightarrow> ?B")
  proof
    assume ?A
    then show ?B by (auto simp: to_ascii_lowercase_def) blast
  next
    assume ?B
    then obtain u v where "map ascii_lower haystack = u @ map ascii_lower needle @ v"
      by (auto simp: to_ascii_lowercase_def)
    then obtain u' r where r: "haystack = u' @ r" "map ascii_lower r = map ascii_lower needle @ v"
      using map_eq_append_conv [of ascii_lower haystack u] by metis
    then obtain w v' where "haystack = u' @ w @ v'" "map ascii_lower w = map ascii_lower needle"
      using map_eq_append_conv [of ascii_lower r] by metis
    then show ?A using map_eq_imp_length_eq by (fastforce simp: to_ascii_lowercase_def)
  qed
  with False show ?thesis
    by (simp add: sieve_contains_def any_window_iff str_contains_sub_iff eq_ignore_ascii_case_def)
qed

end
