(* ===== verification/MsgIdMap.thy ===== *)
theory MsgIdMap
  imports SqliteLog
begin

text \<open>
  The store of Message-IDs and CIDs (\<^verbatim>\<open>crates/core/src/msgid_map.rs\<close>, table \<^verbatim>\<open>msgid_map\<close> with the
  Message-ID as its primary key) and that it implements a map that never changes a binding. The
  table is its list of rows; failures of the database engine are not modelled.
\<close>

section \<open>Formatting\<close>

text \<open>
  \<^verbatim>\<open>format!("{s:?}")\<close>: quotes, backslashes and control characters are escaped. Characters outside
  ASCII are printable here and stay as they are.
\<close>

definition hex_digit :: "nat \<Rightarrow> char" where
  "hex_digit n = byte (if n < 10 then 48 + n else 87 + n)"

definition escape_debug :: "char \<Rightarrow> bytes" where
  "escape_debug c =
     (let n = of_char c :: nat in
      if n = 0 then [byte 92, CHR ''0'']
      else if n = 9 then [byte 92, CHR ''t'']
      else if n = 10 then [byte 92, CHR ''n'']
      else if n = 13 then [byte 92, CHR ''r'']
      else if n = 34 \<or> n = 92 then [byte 92, c]
      else if n < 32 \<or> n = 127 then
        [byte 92] @ ''u{'' @ (if n < 16 then [hex_digit n] else [hex_digit (n div 16), hex_digit (n mod 16)]) @ ''}''
      else [c])"

definition str_debug :: "bytes \<Rightarrow> bytes" where
  "str_debug s = [byte 34] @ concat (map escape_debug s) @ [byte 34]"

section \<open>Operations\<close>

type_synonym msgid_rows = "(bytes \<times> bytes) list"

definition msgid_wf :: "msgid_rows \<Rightarrow> bool" where
  "msgid_wf rows \<longleftrightarrow> distinct (map fst rows)"

definition msgid_insert :: "'cid lib \<Rightarrow> msgid_rows \<Rightarrow> bytes \<Rightarrow> 'cid \<Rightarrow> (storage_error + unit) \<times> msgid_rows" where
  "msgid_insert L rows message_id cid =
     (let cid_bytes = cid_to_bytes L cid
      in case map_of rows message_id of
           None \<Rightarrow> (Inr (), rows @ [(message_id, cid_bytes)])
         | Some stored_bytes \<Rightarrow>
             if stored_bytes = cid_bytes then (Inr (), rows)
             else (Inl (Database (''message-id '' @ str_debug message_id @ '' already mapped to a different CID'')), rows))"

definition lookup_by_msgid :: "'cid lib \<Rightarrow> msgid_rows \<Rightarrow> bytes \<Rightarrow> storage_error + 'cid option" where
  "lookup_by_msgid L rows message_id =
     (case map_of rows message_id of
        None \<Rightarrow> Inr None
      | Some bs \<Rightarrow> (case cid_try_from L bs of Inl e \<Rightarrow> Inl (Database e) | Inr c \<Rightarrow> Inr (Some c)))"

text \<open>Several Message-IDs may map to one CID; the engine returns whichever row it finds first.\<close>

definition lookup_by_cid :: "'cid lib \<Rightarrow> sqlx \<Rightarrow> msgid_rows \<Rightarrow> 'cid \<Rightarrow> storage_error + bytes option" where
  "lookup_by_cid L q rows cid =
     (case scan_rows q (map fst (filter (\<lambda>r. snd r = cid_to_bytes L cid) rows)) of
        [] \<Rightarrow> Inr None
      | message_id # _ \<Rightarrow> Inr (Some message_id))"

definition delete_by_cid :: "'cid lib \<Rightarrow> msgid_rows \<Rightarrow> 'cid \<Rightarrow> (storage_error + unit) \<times> msgid_rows" where
  "delete_by_cid L rows cid = (Inr (), filter (\<lambda>r. snd r \<noteq> cid_to_bytes L cid) rows)"

section \<open>The map it implements\<close>

text \<open>What the table holds: the CID each Message-ID is bound to.\<close>

definition msgid_abs :: "'cid lib \<Rightarrow> msgid_rows \<Rightarrow> bytes \<Rightarrow> 'cid option" where
  "msgid_abs L rows m = (case map_of rows m of None \<Rightarrow> None
     | Some bs \<Rightarrow> (case cid_try_from L bs of Inl _ \<Rightarrow> None | Inr c \<Rightarrow> Some c))"

definition msgid_valid :: "'cid lib \<Rightarrow> msgid_rows \<Rightarrow> bool" where
  "msgid_valid L rows \<longleftrightarrow> msgid_wf rows \<and> (\<forall>bs \<in> snd ` set rows. \<exists>c. bs = cid_to_bytes L c)"

datatype 'cid msgid_op = Insert bytes 'cid | Delete 'cid

definition run_msgid_op :: "'cid lib \<Rightarrow> msgid_rows \<Rightarrow> 'cid msgid_op \<Rightarrow> (storage_error + unit) \<times> msgid_rows" where
  "run_msgid_op L rows op = (case op of Insert m c \<Rightarrow> msgid_insert L rows m c | Delete c \<Rightarrow> delete_by_cid L rows c)"

text \<open>The contract: an insertion binds a free Message-ID and changes no binding, a deletion frees a CID.\<close>

definition spec_msgid_op :: "(bytes \<Rightarrow> 'cid option) \<Rightarrow> 'cid msgid_op \<Rightarrow> bool \<times> (bytes \<Rightarrow> 'cid option)" where
  "spec_msgid_op m op = (case op of
     Insert i c \<Rightarrow> (case m i of None \<Rightarrow> (True, m(i \<mapsto> c)) | Some d \<Rightarrow> (d = c, m))
   | Delete c \<Rightarrow> (True, (\<lambda>i. if m i = Some c then None else m i)))"

lemma cid_bytes_inj: "cid_parses L \<Longrightarrow> cid_to_bytes L c = cid_to_bytes L d \<longleftrightarrow> c = d"
  by (metis cid_parses_def sum.inject(2))

lemma msgid_valid_empty [simp]: "msgid_valid L []"
  by (simp add: msgid_valid_def msgid_wf_def)

lemma msgid_valid_row:
  assumes "msgid_valid L rows" "map_of rows m = Some bs"
  shows "\<exists>c. bs = cid_to_bytes L c"
proof -
  have "bs \<in> snd ` set rows" using map_of_SomeD [OF assms(2)] by (metis image_eqI snd_conv)
  with assms(1) show ?thesis unfolding msgid_valid_def by blast
qed

lemma lookup_abs:
  assumes "cid_parses L" "msgid_valid L rows"
  shows "lookup_by_msgid L rows m = Inr (msgid_abs L rows m)"
proof (cases "map_of rows m")
  case (Some bs)
  then obtain c where "bs = cid_to_bytes L c" using msgid_valid_row [OF assms(2)] by blast
  with Some assms(1) show ?thesis by (simp add: lookup_by_msgid_def msgid_abs_def cid_parses_def)
qed (simp add: lookup_by_msgid_def msgid_abs_def)

lemma map_of_filter_value:
  "distinct (map fst rows) \<Longrightarrow>
     map_of (filter (\<lambda>r. snd r \<noteq> b) rows) m = (if map_of rows m = Some b then None else map_of rows m)"
proof (induction rows)
  case (Cons r rows)
  obtain k v where r: "r = (k, v)" by fastforce
  have "map_of rows k = None" using Cons.prems by (simp add: r map_of_eq_None_iff)
  moreover have "(k, b) \<notin> set rows" using Cons.prems by (auto simp: r rev_image_eqI)
  ultimately show ?case using Cons by (auto simp: r)
qed simp

lemma msgid_insert_valid [inv_intros]:
  "msgid_valid L rows \<Longrightarrow> msgid_valid L (snd (msgid_insert L rows m c))"
  by (auto simp: msgid_insert_def msgid_valid_def msgid_wf_def map_of_eq_None_iff Let_def split: option.splits)

lemma delete_by_cid_valid [inv_intros]:
  "msgid_valid L rows \<Longrightarrow> msgid_valid L (snd (delete_by_cid L rows c))"
  by (auto simp: delete_by_cid_def msgid_valid_def msgid_wf_def distinct_map_filter)

lemma msgid_insert_abs:
  assumes "cid_parses L" "msgid_valid L rows"
  shows "(isl (fst (msgid_insert L rows m c)) \<longleftrightarrow> \<not> fst (spec_msgid_op (msgid_abs L rows) (Insert m c)))
    \<and> msgid_abs L (snd (msgid_insert L rows m c)) = snd (spec_msgid_op (msgid_abs L rows) (Insert m c))"
proof (cases "map_of rows m")
  case None
  then show ?thesis using assms(1)
    by (auto simp: msgid_insert_def spec_msgid_op_def msgid_abs_def cid_parses_def map_add_def fun_eq_iff split: option.splits)
next
  case (Some bs)
  then obtain d where "bs = cid_to_bytes L d" using msgid_valid_row [OF assms(2)] by blast
  with Some assms(1) show ?thesis
    by (auto simp: msgid_insert_def spec_msgid_op_def msgid_abs_def cid_parses_def cid_bytes_inj [OF assms(1)])
qed

lemma delete_by_cid_abs:
  assumes "cid_parses L" "msgid_valid L rows"
  shows "msgid_abs L (snd (delete_by_cid L rows c)) = snd (spec_msgid_op (msgid_abs L rows) (Delete c))"
proof
  fix m
  have wf: "distinct (map fst rows)" using assms(2) by (simp add: msgid_valid_def msgid_wf_def)
  show "msgid_abs L (snd (delete_by_cid L rows c)) m = snd (spec_msgid_op (msgid_abs L rows) (Delete c)) m"
  proof (cases "map_of rows m")
    case (Some bs)
    then obtain d where "bs = cid_to_bytes L d" using msgid_valid_row [OF assms(2)] by blast
    with Some assms(1) show ?thesis
      by (simp add: delete_by_cid_def spec_msgid_op_def msgid_abs_def map_of_filter_value [OF wf] cid_parses_def
          cid_bytes_inj [OF assms(1)])
  qed (simp add: delete_by_cid_def spec_msgid_op_def msgid_abs_def map_of_filter_value [OF wf])
qed

fun run_msgid_ops :: "'cid lib \<Rightarrow> msgid_rows \<Rightarrow> 'cid msgid_op list \<Rightarrow> bool list \<times> msgid_rows" where
  "run_msgid_ops L rows [] = ([], rows)"
| "run_msgid_ops L rows (op # ops) =
     (let (r, rows') = run_msgid_op L rows op; (oks, rows'') = run_msgid_ops L rows' ops
      in ((\<not> isl r) # oks, rows''))"

fun spec_msgid_ops :: "(bytes \<Rightarrow> 'cid option) \<Rightarrow> 'cid msgid_op list \<Rightarrow> bool list \<times> (bytes \<Rightarrow> 'cid option)" where
  "spec_msgid_ops m [] = ([], m)"
| "spec_msgid_ops m (op # ops) =
     (let (ok, m') = spec_msgid_op m op; (oks, m'') = spec_msgid_ops m' ops in (ok # oks, m''))"

lemma run_msgid_op_abs:
  assumes "cid_parses L" "msgid_valid L rows" "run_msgid_op L rows op = (r, rows')"
  shows "msgid_valid L rows' \<and> spec_msgid_op (msgid_abs L rows) op = (\<not> isl r, msgid_abs L rows')"
proof (cases op)
  case (Insert m c)
  then show ?thesis using assms msgid_insert_abs [OF assms(1,2), of m c] msgid_insert_valid [OF assms(2), of m c]
    by (auto simp: run_msgid_op_def prod_eq_iff)
next
  case (Delete c)
  moreover have "\<not> isl (fst (delete_by_cid L rows c))" by (simp add: delete_by_cid_def)
  ultimately show ?thesis
    using assms delete_by_cid_abs [OF assms(1,2), of c] delete_by_cid_valid [OF assms(2), of c]
    by (auto simp: run_msgid_op_def prod_eq_iff spec_msgid_op_def)
qed

lemma run_msgid_ops_abs:
  assumes "cid_parses L" "msgid_valid L rows" "run_msgid_ops L rows ops = (oks, rows')"
  shows "msgid_valid L rows' \<and> spec_msgid_ops (msgid_abs L rows) ops = (oks, msgid_abs L rows')"
  using assms(2,3)
proof (induction ops arbitrary: rows oks rows')
  case (Cons op ops)
  obtain r rows1 where 1: "run_msgid_op L rows op = (r, rows1)" by fastforce
  obtain oks1 rows2 where 2: "run_msgid_ops L rows1 ops = (oks1, rows2)" by fastforce
  from run_msgid_op_abs [OF assms(1) Cons.prems(1) 1] Cons.IH [OF _ 2] Cons.prems(2) 1 2 show ?case by auto
qed simp

lemma msgid_abs_row:
  assumes "cid_parses L" "msgid_valid L rows"
  shows "msgid_abs L rows m = Some c \<longleftrightarrow> (m, cid_to_bytes L c) \<in> set rows"
proof -
  have "map_of rows m = Some (cid_to_bytes L c) \<longleftrightarrow> (m, cid_to_bytes L c) \<in> set rows"
    using assms(2) by (intro map_of_eq_Some_iff) (simp add: msgid_valid_def msgid_wf_def)
  moreover have "msgid_abs L rows m = Some c \<longleftrightarrow> map_of rows m = Some (cid_to_bytes L c)"
  proof (cases "map_of rows m")
    case (Some bs)
    then obtain d where "bs = cid_to_bytes L d" using msgid_valid_row [OF assms(2)] by blast
    with Some show ?thesis using assms(1) by (simp add: msgid_abs_def cid_parses_def cid_bytes_inj [OF assms(1)])
  qed (simp add: msgid_abs_def)
  ultimately show ?thesis by simp
qed

text \<open>
  C22. The Message-ID table implements a map under any sequence of insertions and deletions: an
  insertion succeeds exactly when the Message-ID is free or already bound to that CID and never
  changes a binding, a deletion frees every Message-ID of its CID and nothing else, and afterwards
  both lookups answer from that map, the one by CID with some Message-ID bound to it when there is
  one, whatever order the engine scans its rows in.
\<close>

theorem msgid_map_refines:
  assumes "cid_parses L" "scan_permutes q"
  shows "case run_msgid_ops L [] ops of (oks, rows) \<Rightarrow>
      spec_msgid_ops Map.empty ops = (oks, msgid_abs L rows)
    \<and> (\<forall>m. lookup_by_msgid L rows m = Inr (msgid_abs L rows m))
    \<and> (\<forall>c. (\<exists>m. msgid_abs L rows m = Some c \<and> lookup_by_cid L q rows c = Inr (Some m))
         \<or> c \<notin> ran (msgid_abs L rows) \<and> lookup_by_cid L q rows c = Inr None)"
proof -
  obtain oks rows where run: "run_msgid_ops L [] ops = (oks, rows)" by fastforce
  from run_msgid_ops_abs [OF assms(1) _ run]
  have valid: "msgid_valid L rows" and spec: "spec_msgid_ops (msgid_abs L []) ops = (oks, msgid_abs L rows)" by simp_all
  have "msgid_abs L [] = Map.empty" by (simp add: msgid_abs_def fun_eq_iff)
  moreover have "(\<exists>m. msgid_abs L rows m = Some c \<and> lookup_by_cid L q rows c = Inr (Some m))
      \<or> c \<notin> ran (msgid_abs L rows) \<and> lookup_by_cid L q rows c = Inr None" for c
  proof -
    define found where "found = map fst (filter (\<lambda>r. snd r = cid_to_bytes L c) rows)"
    have "set found = {m. msgid_abs L rows m = Some c}"
      by (auto simp: found_def msgid_abs_row [OF assms(1) valid] image_iff)
    moreover have "set (scan_rows q found) = set found"
      using assms(2) by (metis scan_permutes_def mset_eq_setD)
    ultimately show ?thesis
      by (cases "scan_rows q found") (auto simp: lookup_by_cid_def ran_def simp flip: found_def)
  qed
  ultimately show ?thesis using run spec lookup_abs [OF assms(1) valid] by simp
qed

theorem msgid_map_refines_witness:
  "case run_msgid_ops demo_lib [] [Insert ''m'' ''c'', Insert ''m'' ''d'', Delete ''c'', Insert ''m'' ''d''] of (oks, rows) \<Rightarrow>
     oks = [True, False, True, True] \<and> lookup_by_msgid demo_lib rows ''m'' = Inr (Some ''d'')
     \<and> lookup_by_cid demo_lib demo_sqlx rows ''c'' = Inr None"
proof -
  obtain oks rows where run: "run_msgid_ops demo_lib [] [Insert ''m'' ''c'', Insert ''m'' ''d'', Delete ''c'', Insert ''m'' ''d'']
    = (oks, rows)" by fastforce
  have refines: "spec_msgid_ops Map.empty [Insert ''m'' ''c'', Insert ''m'' ''d'', Delete ''c'', Insert ''m'' ''d'']
      = (oks, msgid_abs demo_lib rows)"
    "lookup_by_msgid demo_lib rows ''m'' = Inr (msgid_abs demo_lib rows ''m'')"
    "(\<exists>m. msgid_abs demo_lib rows m = Some ''c'' \<and> lookup_by_cid demo_lib demo_sqlx rows ''c'' = Inr (Some m))
      \<or> ''c'' \<notin> ran (msgid_abs demo_lib rows) \<and> lookup_by_cid demo_lib demo_sqlx rows ''c'' = Inr None"
    using msgid_map_refines [OF demo_cid_parses demo_scan,
      of "[Insert ''m'' ''c'', Insert ''m'' ''d'', Delete ''c'', Insert ''m'' ''d'']"] unfolding run by simp_all
  have steps: "spec_msgid_op Map.empty (Insert ''m'' ''c'') = (True, [''m'' \<mapsto> ''c''])"
    "spec_msgid_op [''m'' \<mapsto> ''c''] (Insert ''m'' ''d'') = (False, [''m'' \<mapsto> ''c''])"
    "spec_msgid_op [''m'' \<mapsto> ''c''] (Delete ''c'') = (True, Map.empty)"
    "spec_msgid_op Map.empty (Insert ''m'' ''d'') = (True, [''m'' \<mapsto> ''d''])"
    by (auto simp: spec_msgid_op_def)
  have spec: "oks = [True, False, True, True]" "msgid_abs demo_lib rows = [''m'' \<mapsto> ''d'']"
    using refines(1) by (simp_all add: steps del: fun_upd_apply)
  have "lookup_by_cid demo_lib demo_sqlx rows ''c'' = Inr None"
    using refines(3) by (auto simp: spec(2) split: if_splits)
  with refines(2) spec show ?thesis unfolding run by simp
qed

end
