(* ===== verification/Ingest.thy ===== *)
theory Ingest
  imports MsgIdMap Wire
begin

text \<open>
  What the transit daemon checks of an article before it takes it, and what it reads from its
  headers (\<^verbatim>\<open>crates/transit/src/peering/ingestion.rs\<close>, \<^verbatim>\<open>mode_stream.rs\<close>, and
  \<^verbatim>\<open>parse_message_id_and_newsgroups\<close> of \<^verbatim>\<open>pipeline.rs\<close>). The texts of the reasons are kept as the
  values they are formatted from; metrics counters are not modelled.
\<close>

declare valid_utf8.simps(2) [simp del]

section \<open>Modes and responses\<close>

datatype peering_mode = Ihave | Streaming

definition handle_mode_stream :: "peering_mode \<Rightarrow> bytes \<times> peering_mode" where
  "handle_mode_stream current_mode = (''203 Streaming permitted'' @ CRLF, Streaming)"

definition capabilities_response :: bytes where
  "capabilities_response = ''101 Capability list:'' @ CRLF @ ''VERSION 2'' @ CRLF @ ''IHAVE'' @ CRLF @ ''STREAMING'' @ CRLF
     @ ''.'' @ CRLF"

datatype reject_reason =
    InvalidEnvelopeId validation_error
  | InvalidMsgid
  | TooManyBytes nat nat
  | MissingHeader bytes

datatype transient_reason = DuplicateCheck storage_error | Lookup storage_error

datatype ingest_result = Accepted | Duplicate | Rejected reject_reason | TransientError transient_reason

fun ihave_response :: "ingest_result \<Rightarrow> bytes" where
  "ihave_response Accepted = ''235 Article transferred OK'' @ CRLF"
| "ihave_response Duplicate = ''435 Duplicate'' @ CRLF"
| "ihave_response (Rejected _) = ''437 Article rejected'' @ CRLF"
| "ihave_response (TransientError _) = ''436 Transfer failed, try again later'' @ CRLF"

fun takethis_response :: "ingest_result \<Rightarrow> bytes" where
  "takethis_response Accepted = ''239 Article transferred OK'' @ CRLF"
| "takethis_response Duplicate = ''438 Already have it'' @ CRLF"
| "takethis_response (Rejected _) = ''439 Article not wanted'' @ CRLF"
| "takethis_response (TransientError _) = ''431 Try sending it again later'' @ CRLF"

fun check_response :: "ingest_result \<Rightarrow> bytes" where
  "check_response Accepted = ''238 Send it'' @ CRLF"
| "check_response Duplicate = ''438 Already have it'' @ CRLF"
| "check_response (Rejected _) = ''438 Article not wanted'' @ CRLF"
| "check_response (TransientError _) = ''431 Try sending it again later'' @ CRLF"

fun check_mode_guard :: "peering_mode \<Rightarrow> bytes option" where
  "check_mode_guard Streaming = None"
| "check_mode_guard Ihave = Some (''401 This command is only allowed in streaming mode'' @ CRLF)"

fun takethis_mode_guard :: "peering_mode \<Rightarrow> bytes option" where
  "takethis_mode_guard Streaming = None"
| "takethis_mode_guard Ihave = Some (''500 Command not available in current mode'' @ CRLF)"

section \<open>Reading headers\<close>

definition HT :: char where
  "HT = byte 9"

definition MID :: bytes where
  "MID = ''message-id:''"

definition NG :: bytes where
  "NG = ''newsgroups:''"

lemma length_MID [simp]: "length MID = 11" "length NG = 11"
  by (simp_all add: MID_def NG_def)

text \<open>A line that continues the header before it.\<close>

fun folded :: "bytes \<Rightarrow> bool" where
  "folded [] = False"
| "folded (c # _) = (c = CHR '' '' \<or> c = HT)"

fun msgid_continuation :: "bytes \<Rightarrow> bytes list \<Rightarrow> bytes option" where
  "msgid_continuation val [] = Some val"
| "msgid_continuation val (cont # lines) =
     (let ct = strip_cr cont
      in if ct = [] then Some val
         else if folded ct then
           (if valid_utf8 ct then msgid_continuation (val @ trim_ascii ct) lines else None)
         else Some val)"

fun extract_msgid_loop :: "bytes list \<Rightarrow> bytes option outcome" where
  "extract_msgid_loop [] = Return None"
| "extract_msgid_loop (line # lines) =
     (let trimmed = strip_cr line
      in if trimmed = [] then Return None
         else if folded trimmed then extract_msgid_loop lines
         else if \<not> valid_utf8 trimmed then extract_msgid_loop lines
         else if length trimmed < length MID then extract_msgid_loop lines
         else if \<not> is_char_boundary trimmed (length MID) then Panic
         else if \<not> eq_ignore_ascii_case (take (length MID) trimmed) MID
           then extract_msgid_loop lines
         else Return (map_option trim_ascii
                (msgid_continuation (trim_ascii_start (drop (length MID) trimmed)) lines)))"

definition extract_body_msgid :: "bytes \<Rightarrow> bytes option outcome" where
  "extract_body_msgid article_bytes = extract_msgid_loop (split_on LF article_bytes)"

fun has_header_loop :: "bytes \<Rightarrow> bytes list \<Rightarrow> bool" where
  "has_header_loop name [] = False"
| "has_header_loop name (line # lines) =
     (let trimmed = strip_cr line
      in if trimmed = [] then False
         else if length trimmed > length name \<and> eq_ignore_ascii_case (take (length name) trimmed) name
           \<and> trimmed ! length name = CHR '':'' then True
         else has_header_loop name lines)"

definition has_header :: "bytes \<Rightarrow> bytes \<Rightarrow> bool" where
  "has_header article_bytes name = has_header_loop name (split_on LF article_bytes)"

section \<open>Acceptance\<close>

definition MANDATORY :: "bytes list" where
  "MANDATORY = [''From'', ''Date'', ''Message-ID'', ''Newsgroups'', ''Subject'']"

fun check_headers :: "bytes \<Rightarrow> bytes list \<Rightarrow> ingest_result" where
  "check_headers article_bytes [] = Accepted"
| "check_headers article_bytes (name # names) =
     (if \<not> has_header article_bytes name then Rejected (MissingHeader name)
      else check_headers article_bytes names)"

definition check_ingest :: "'cid lib \<Rightarrow> bytes \<Rightarrow> bytes \<Rightarrow> msgid_rows \<Rightarrow> ingest_result outcome" where
  "check_ingest L envelope_msgid article_bytes msgid_map =
     (case validate_message_id envelope_msgid of
        Inl e \<Rightarrow> Return (Rejected (InvalidEnvelopeId e))
      | Inr _ \<Rightarrow>
          if length article_bytes > MAX_ARTICLE_BYTES
          then Return (Rejected (TooManyBytes (length article_bytes) MAX_ARTICLE_BYTES))
          else case extract_body_msgid article_bytes of
            Panic \<Rightarrow> Panic
          | Return found \<Rightarrow>
              let body_msgid = (case found of None \<Rightarrow> [] | Some m \<Rightarrow> m)
              in if body_msgid \<noteq> []
                 then case lookup_by_msgid L msgid_map body_msgid of
                    Inl e \<Rightarrow> Return (TransientError (DuplicateCheck e))
                  | Inr (Some _) \<Rightarrow> Return Duplicate
                  | Inr None \<Rightarrow> Return (check_headers article_bytes MANDATORY)
                 else Return (check_headers article_bytes MANDATORY))"

section \<open>The Path header\<close>

fun prepend_path_loop :: "bytes \<Rightarrow> bool \<Rightarrow> bool \<Rightarrow> bytes \<Rightarrow> bytes list \<Rightarrow> bytes" where
  "prepend_path_loop hostname path_found in_body out [] = out"
| "prepend_path_loop hostname path_found in_body out (line # lines) =
     (if line = [] \<and> lines = [] then out
      else if in_body then prepend_path_loop hostname path_found in_body (out @ line @ [LF]) lines
      else let trimmed = strip_cr line
        in if trimmed = []
           then prepend_path_loop hostname path_found True
                  (out @ (if path_found then [] else ''Path: '' @ hostname @ CRLF) @ CRLF) lines
           else if length trimmed \<ge> 5 \<and> eq_ignore_ascii_case (take 5 trimmed) ''path:''
           then let old_val = str_trim (from_utf8_lossy (drop 5 trimmed))
                in prepend_path_loop hostname True in_body (out @ ''Path: '' @ hostname @ ''!'' @ old_val @ CRLF) lines
           else prepend_path_loop hostname path_found in_body (out @ trimmed @ CRLF) lines)"

definition prepend_path_header :: "bytes \<Rightarrow> bytes \<Rightarrow> bytes" where
  "prepend_path_header article_bytes hostname = prepend_path_loop hostname False False [] (split_on LF article_bytes)"

section \<open>The key and the groups an article is stored under\<close>

text \<open>\<^verbatim>\<open>current\<close>: which header is being accumulated, 1 for Message-ID and 2 for Newsgroups.\<close>

fun parse_headers_loop ::
  "bytes option \<Rightarrow> bytes option \<Rightarrow> nat \<Rightarrow> bytes list \<Rightarrow> (bytes option \<times> bytes option) outcome" where
  "parse_headers_loop message_id newsgroups_val current [] = Return (message_id, newsgroups_val)"
| "parse_headers_loop message_id newsgroups_val current (line # lines) =
     (let trimmed = strip_cr line
      in if trimmed = [] then Return (message_id, newsgroups_val)
         else if folded trimmed then
           (if \<not> valid_utf8 trimmed then parse_headers_loop message_id newsgroups_val 0 lines
            else if current = 1
            then parse_headers_loop (map_option (\<lambda>v. v @ str_trim trimmed) message_id) newsgroups_val current lines
            else if current = 2
            then parse_headers_loop message_id (map_option (\<lambda>v. v @ '','' @ str_trim trimmed) newsgroups_val) current lines
            else parse_headers_loop message_id newsgroups_val current lines)
         else if current = 0 \<and> message_id \<noteq> None \<and> newsgroups_val \<noteq> None then Return (message_id, newsgroups_val)
         else if \<not> valid_utf8 trimmed then parse_headers_loop message_id newsgroups_val 0 lines
         else if message_id = None \<and> length trimmed \<ge> length MID
           \<and> \<not> is_char_boundary trimmed (length MID) then Panic
         else if message_id = None \<and> length trimmed \<ge> length MID
           \<and> eq_ignore_ascii_case (take (length MID) trimmed) MID
           then parse_headers_loop (Some (str_trim (drop (length MID) trimmed))) newsgroups_val 1 lines
         else if newsgroups_val = None \<and> length trimmed \<ge> length NG
           \<and> \<not> is_char_boundary trimmed (length NG) then Panic
         else if newsgroups_val = None \<and> length trimmed \<ge> length NG
           \<and> eq_ignore_ascii_case (take (length NG) trimmed) NG
           then parse_headers_loop message_id (Some (str_trim (drop (length NG) trimmed))) 2 lines
         else parse_headers_loop message_id newsgroups_val 0 lines)"

definition split_groups :: "bytes option \<Rightarrow> bytes list" where
  "split_groups newsgroups_val =
     filter (\<lambda>s. s \<noteq> []) (map str_trim (split_on (CHR '','') (case newsgroups_val of None \<Rightarrow> [] | Some v \<Rightarrow> v)))"

definition parse_message_id_and_newsgroups :: "bytes \<Rightarrow> (bytes \<times> bytes list) option outcome" where
  "parse_message_id_and_newsgroups article_bytes =
     (case parse_headers_loop None None 0 (split_on LF article_bytes) of
        Panic \<Rightarrow> Panic
      | Return (None, _) \<Rightarrow> Return None
      | Return (Some mid, newsgroups_val) \<Rightarrow> Return (Some (mid, split_groups newsgroups_val)))"

section \<open>Trimming ASCII\<close>

text \<open>On ASCII the two trims differ in one character, the vertical tab.\<close>

definition VT :: char where
  "VT = byte 11"

lemma strip_any_ascii:
  assumes "of_char c < (128 :: nat)"
  shows "strip_any white_space (c # cs) = (if of_char c \<in> {9, 10, 11, 12, 13, 32 :: nat} then Some cs else None)"
    "strip_any (map rev white_space) (c # cs) = (if of_char c \<in> {9, 10, 11, 12, 13, 32 :: nat} then Some cs else None)"
  using assms by (auto simp: white_space_def byte_eval)

lemma trim_start_of_ascii:
  assumes "is_ascii s" "VT \<notin> set s" "ws = white_space \<or> ws = map rev white_space"
  shows "trim_start_of ws s = dropWhile is_ascii_whitespace s"
  using assms(1,2)
proof (induction s)
  case Nil
  have "strip_any ws [] = None" using assms(3) by (auto simp: white_space_def)
  then show ?case by (simp add: trim_start_of.simps [of ws "[]"])
next
  case (Cons c cs)
  from Cons.prems have "of_char c \<noteq> (11 :: nat)" by (auto simp: VT_def byte_eval)
  then have "strip_any ws (c # cs) = (if is_ascii_whitespace c then Some cs else None)"
    using assms(3) Cons.prems(1) by (auto simp: strip_any_ascii is_ascii_whitespace_def)
  with Cons show ?case by (simp add: trim_start_of.simps [of ws "c # cs"])
qed

lemma dropWhile_subset: "set (dropWhile P s) \<subseteq> set s"
  by (auto dest: set_dropWhileD)

lemma str_trim_ascii:
  assumes "is_ascii s" "VT \<notin> set s"
  shows "str_trim s = trim_ascii s"
proof -
  let ?t = "dropWhile is_ascii_whitespace s"
  have "is_ascii (rev ?t)" "VT \<notin> set (rev ?t)"
    using assms by (auto simp: is_ascii_def dest: set_dropWhileD)
  then show ?thesis using assms
    by (simp add: str_trim_def str_trim_start_def str_trim_end_def trim_ascii_def trim_ascii_start_def trim_ascii_end_def
        trim_start_of_ascii)
qed

lemma str_trim_Nil [simp]: "str_trim [] = []"
  using str_trim_ascii [of "[]"] by (simp add: trim_ascii_def trim_ascii_start_def trim_ascii_end_def)

definition trimmed_value :: "bytes \<Rightarrow> bool" where
  "trimmed_value v \<longleftrightarrow> v = [] \<or> \<not> is_ascii_whitespace (hd v) \<and> \<not> is_ascii_whitespace (last v)"

lemma trim_ascii_trimmed:
  assumes "trimmed_value v"
  shows "trim_ascii v = v"
proof -
  have "dropWhile is_ascii_whitespace v = v" "dropWhile is_ascii_whitespace (rev v) = rev v"
    using assms by (auto simp: trimmed_value_def dropWhile_eq_self_iff hd_rev)
  then show ?thesis by (simp add: trim_ascii_def trim_ascii_start_def trim_ascii_end_def)
qed

lemma trimmed_value_append: "trimmed_value v \<Longrightarrow> trimmed_value w \<Longrightarrow> trimmed_value (v @ w)"
  by (auto simp: trimmed_value_def hd_append last_append)

lemma trim_start_trimmed:
  assumes "s = [] \<or> \<not> is_ascii_whitespace (last s)"
  shows "trimmed_value (trim_ascii_start s)" "trim_ascii s = trim_ascii_start s"
proof -
  let ?t = "dropWhile is_ascii_whitespace s"
  have "?t \<noteq> [] \<Longrightarrow> last ?t = last s" by (metis dropWhile_eq_Nil_conv last_append takeWhile_dropWhile_id)
  then show t: "trimmed_value (trim_ascii_start s)"
    using assms hd_dropWhile [of is_ascii_whitespace s]
    by (cases "?t = []") (auto simp: trimmed_value_def trim_ascii_start_def simp del: dropWhile_eq_Nil_conv)
  have "trim_ascii (trim_ascii_start s) = trim_ascii s"
    by (simp add: trim_ascii_def trim_ascii_start_def dropWhile_idem)
  with trim_ascii_trimmed [OF t] show "trim_ascii s = trim_ascii_start s" by simp
qed

lemma is_ascii_drop: "is_ascii s \<Longrightarrow> is_ascii (drop n s)"
  by (auto simp: is_ascii_def dest: in_set_dropD)

section \<open>The duplicate check and the storage key\<close>

definition header_lines :: "bytes \<Rightarrow> bytes list" where
  "header_lines article_bytes = map strip_cr (takeWhile (\<lambda>l. strip_cr l \<noteq> []) (split_on LF article_bytes))"

definition plain_line :: "bytes \<Rightarrow> bool" where
  "plain_line l \<longleftrightarrow> is_ascii l \<and> VT \<notin> set l \<and> (l = [] \<or> \<not> is_ascii_whitespace (last l))"

lemma plain_no_panic: "plain_line l \<Longrightarrow> valid_utf8 l \<and> (n \<le> length l \<longrightarrow> is_char_boundary l n)"
  by (auto simp: plain_line_def ascii_valid_utf8 ascii_char_boundary)

lemma plain_drop: "plain_line l \<Longrightarrow> plain_line (drop n l)"
  by (auto simp: plain_line_def is_ascii_drop last_drop dest: in_set_dropD)

lemma plain_trim:
  assumes "plain_line l"
  shows "str_trim l = trim_ascii_start l" "trim_ascii l = trim_ascii_start l" "trimmed_value (trim_ascii_start l)"
proof -
  have l: "l = [] \<or> \<not> is_ascii_whitespace (last l)" using assms by (auto simp: plain_line_def)
  show "trim_ascii l = trim_ascii_start l" "trimmed_value (trim_ascii_start l)" using trim_start_trimmed [OF l] by auto
  then show "str_trim l = trim_ascii_start l" using assms by (simp add: plain_line_def str_trim_ascii)
qed

abbreviation headers_plain :: "bytes list \<Rightarrow> bool" where
  "headers_plain ls \<equiv> \<forall>l \<in> set (takeWhile (\<lambda>l. strip_cr l \<noteq> []) ls). plain_line (strip_cr l)"

definition parsed_id :: "(bytes option \<times> bytes option) outcome \<Rightarrow> bytes option outcome" where
  "parsed_id r = (case r of Return (m, _) \<Rightarrow> Return m | Panic \<Rightarrow> Panic)"

lemma parsed_id_simps [simp]: "parsed_id (Return (m, ng)) = Return m" "parsed_id Panic = Panic"
  by (simp_all add: parsed_id_def)

lemma parse_keeps_id:
  "headers_plain ls \<Longrightarrow> cur \<noteq> 1 \<Longrightarrow> parsed_id (parse_headers_loop (Some v) ng cur ls) = Return (Some v)"
proof (induction ls arbitrary: ng cur)
  case (Cons l ls)
  show ?case
  proof (cases "strip_cr l = []")
    case False
    with Cons.prems have "plain_line (strip_cr l)" "headers_plain ls" by simp_all
    with False Cons.IH Cons.prems(2) plain_no_panic [of "strip_cr l" 11] show ?thesis
      by (cases "11 \<le> length (strip_cr l)") (simp_all add: Let_def)
  qed simp
qed simp

lemma continuation_agrees:
  "headers_plain ls \<Longrightarrow> trimmed_value v \<Longrightarrow>
     parsed_id (parse_headers_loop (Some v) ng 1 ls) = Return (map_option trim_ascii (msgid_continuation v ls))"
proof (induction ls arbitrary: v)
  case (Cons l ls)
  show ?case
  proof (cases "strip_cr l = []")
    case True
    with Cons.prems show ?thesis by (simp add: trim_ascii_trimmed)
  next
    case False
    with Cons.prems have l: "plain_line (strip_cr l)" "headers_plain ls" by simp_all
    then show ?thesis
      using False Cons.IH [OF l(2), of "v @ trim_ascii_start (strip_cr l)"] Cons.prems(2) plain_trim [OF l(1)]
        plain_no_panic [OF l(1), of 11] parse_keeps_id [OF l(2), of _ v]
      by (cases "11 \<le> length (strip_cr l)") (simp_all add: Let_def trimmed_value_append trim_ascii_trimmed)
  qed
qed (simp add: trim_ascii_trimmed)

lemma loops_agree:
  "headers_plain ls \<Longrightarrow> cur \<noteq> 1 \<Longrightarrow>
     parsed_id (parse_headers_loop None ng cur ls) = extract_msgid_loop ls \<and> extract_msgid_loop ls \<noteq> Panic"
proof (induction ls arbitrary: ng cur)
  case (Cons l ls)
  show ?case
  proof (cases "strip_cr l = []")
    case False
    with Cons.prems have l: "plain_line (strip_cr l)" "headers_plain ls" by simp_all
    let ?x = "drop 11 (strip_cr l)"
    have x: "str_trim ?x = trim_ascii_start ?x" "trimmed_value (trim_ascii_start ?x)"
      using plain_trim [OF plain_drop [OF l(1), of 11]] by simp_all
    show ?thesis
      using False Cons.IH [OF l(2)] Cons.prems(2) plain_no_panic [OF l(1), of 11] continuation_agrees [OF l(2) x(2)]
      by (cases "11 \<le> length (strip_cr l)") (simp_all add: Let_def x(1))
  qed simp
qed simp

section \<open>Articles as lines\<close>

definition is_path :: "bytes \<Rightarrow> bool" where
  "is_path h \<longleftrightarrow> length h \<ge> 5 \<and> eq_ignore_ascii_case (take 5 h) ''path:''"

definition path_line :: "bytes \<Rightarrow> bytes \<Rightarrow> bytes" where
  "path_line hostname h = (if is_path h then ''Path: '' @ hostname @ ''!'' @ str_trim (from_utf8_lossy (drop 5 h)) else h)"

definition with_path :: "bytes \<Rightarrow> bytes list \<Rightarrow> bytes list" where
  "with_path hostname hs =
     map (path_line hostname) hs @ (if \<exists>h \<in> set hs. is_path h then [] else [''Path: '' @ hostname])"

definition end_line :: "bytes \<Rightarrow> bytes" where
  "end_line body = (if body = [] \<or> last body = LF then body else body @ [LF])"

definition header_line_ok :: "bytes \<Rightarrow> bool" where
  "header_line_ok h \<longleftrightarrow> h \<noteq> [] \<and> clean_line h"

abbreviation raw_lines :: "bytes list \<Rightarrow> bytes list" where
  "raw_lines hs \<equiv> map (\<lambda>h. h @ [CR]) hs"

lemma split_crlf_article:
  "\<forall>h \<in> set hs. clean_line h \<Longrightarrow> split_on LF (crlf_article hs @ rest) = raw_lines hs @ split_on LF rest"
proof (induction hs)
  case (Cons h hs)
  then have "LF \<notin> set (h @ [CR])" by (simp add: clean_line_def)
  from split_on_append [OF this, of "crlf_article hs @ rest"] Cons show ?case by (simp add: CRLF_def)
qed simp

lemma crlf_article_append [simp]: "crlf_article (a @ b) = crlf_article a @ crlf_article b"
  by (simp add: crlf_article_def)

lemma strip_cr_CR [simp]: "strip_cr [CR] = []"
  using strip_cr_append [of "[]"] by simp

lemma strip_cr_Cons [simp]:
  "strip_cr (c # d # l) = c # strip_cr (d # l)" "strip_cr (c # l @ [CR]) = c # l" "strip_cr [c] = (if c = CR then [] else [c])"
proof -
  have last: "strip_cr s = (if s \<noteq> [] \<and> last s = CR then butlast s else s)" for s
    by (cases s rule: rev_cases) (auto simp: strip_cr_other)
  show "strip_cr (c # d # l) = c # strip_cr (d # l)" "strip_cr (c # l @ [CR]) = c # l" "strip_cr [c] = (if c = CR then [] else [c])"
    by (simp_all add: last butlast_append)
qed

lemma split_article:
  "\<forall>h \<in> set hs. clean_line h \<Longrightarrow>
     split_on LF (crlf_article hs @ CRLF @ body) = raw_lines hs @ [CR] # split_on LF body"
  using split_crlf_article [of hs "CRLF @ body"] split_on_append [of LF "[CR]" body] by (simp add: CRLF_def)

lemma takeWhile_raw_lines: "\<forall>h \<in> set hs. h \<noteq> [] \<Longrightarrow> takeWhile (\<lambda>l. strip_cr l \<noteq> []) (raw_lines hs @ [CR] # ls) = raw_lines hs"
  by (induction hs) auto

lemma header_lines_article:
  assumes "\<forall>h \<in> set hs. header_line_ok h"
  shows "header_lines (crlf_article hs @ CRLF @ body) = hs"
proof -
  have "\<forall>h \<in> set hs. clean_line h" "\<forall>h \<in> set hs. h \<noteq> []" using assms by (auto simp: header_line_ok_def)
  then show ?thesis by (simp add: header_lines_def split_article takeWhile_raw_lines comp_def)
qed

lemma prepend_path_headers:
  "\<forall>h \<in> set hs. h \<noteq> [] \<Longrightarrow>
     prepend_path_loop hostname found False out (raw_lines hs @ ls) =
     prepend_path_loop hostname (found \<or> (\<exists>h \<in> set hs. is_path h)) False (out @ crlf_article (map (path_line hostname) hs)) ls"
proof (induction hs arbitrary: found out)
  case (Cons h hs)
  then show ?case by (auto simp: Let_def path_line_def is_path_def [symmetric])
qed simp

lemma prepend_path_body_lines:
  "ps \<noteq> [] \<Longrightarrow> prepend_path_loop hostname found True out ps =
     out @ concat (map (\<lambda>p. p @ [LF]) (butlast ps)) @ (if last ps = [] then [] else last ps @ [LF])"
  by (induction ps arbitrary: out) auto

lemma join_lines_end:
  "ps \<noteq> [] \<Longrightarrow> concat (map (\<lambda>p. p @ [LF]) (butlast ps)) @ last ps = join [LF] ps"
  by (induction ps) (auto simp: join_Cons)

lemma split_on_last: "last (split_on c s) = [] \<longleftrightarrow> s = [] \<or> last s = c"
proof (induction s)
  case (Cons x xs)
  then show ?case using join_split_on [of c xs] by (cases "split_on c xs") (auto split: if_splits)
qed simp

lemma prepend_path_body: "prepend_path_loop hostname found True out (split_on LF body) = out @ end_line body"
proof -
  let ?ps = "split_on LF body"
  have "concat (map (\<lambda>p. p @ [LF]) (butlast ?ps)) @ last ?ps = body"
    using join_lines_end [of ?ps] by (simp add: join_split_on)
  then show ?thesis
    using prepend_path_body_lines [of ?ps hostname found out] split_on_last [of LF body]
    by (auto simp: end_line_def)
qed

lemma prepend_lines:
  assumes "\<forall>h \<in> set hs. header_line_ok h"
  shows "prepend_path_header (crlf_article hs @ CRLF @ body) hostname
    = crlf_article (with_path hostname hs) @ CRLF @ end_line body"
proof -
  have clean: "\<forall>h \<in> set hs. clean_line h" "\<forall>h \<in> set hs. h \<noteq> []" using assms by (auto simp: header_line_ok_def)
  have "[CR] \<noteq> []" by simp
  then show ?thesis
    by (auto simp: prepend_path_header_def split_article [OF clean(1)] prepend_path_headers [OF clean(2)] prepend_path_body
        with_path_def)
qed



section \<open>The key survives the Path header\<close>

text \<open>What a scan for another header sees of a line is the same before and after the Path header is written.\<close>

lemma ascii_lower_cases: "to_ascii_lowercase a = to_ascii_lowercase b \<Longrightarrow> to_ascii_lowercase (take n a) = to_ascii_lowercase (take n b)"
  by (metis take_map to_ascii_lowercase_def)

lemma is_path_not_msgid:
  assumes "is_path h"
  shows "\<not> eq_ignore_ascii_case (take 11 h) MID" "\<not> folded h" "h \<noteq> []"
proof -
  have p: "to_ascii_lowercase (take 5 h) = ''path:''"
    using assms by (simp add: is_path_def eq_ignore_ascii_case_def) (simp add: to_ascii_lowercase_def ascii_lower_def)
  have "to_ascii_lowercase (take 5 MID) = ''messa''" by (simp add: MID_def to_ascii_lowercase_def ascii_lower_def)
  moreover have "take 5 (take 11 h) = take 5 h" by simp
  ultimately show "\<not> eq_ignore_ascii_case (take 11 h) MID"
    using p ascii_lower_cases [of "take 11 h" MID 5] by (auto simp: eq_ignore_ascii_case_def)
  show "h \<noteq> []" using p by (auto simp: to_ascii_lowercase_def)
  show "\<not> folded h"
    using p by (cases h) (auto simp: to_ascii_lowercase_def ascii_lower_def HT_def byte_eval)
qed

lemma path_line_plain:
  assumes "plain_line h" "plain_line hostname" "hostname \<noteq> []"
  shows "plain_line (path_line hostname h)"
proof (cases "is_path h")
  case True
  have d: "plain_line (drop 5 h)" using plain_drop [OF assms(1)] .
  then have "from_utf8_lossy (drop 5 h) = drop 5 h" using plain_no_panic [OF d] by (simp add: valid_utf8_lossy)
  then have val: "str_trim (from_utf8_lossy (drop 5 h)) = trim_ascii_start (drop 5 h)" using plain_trim [OF d] by simp
  have sub: "set (trim_ascii_start (drop 5 h)) \<subseteq> set (drop 5 h)"
    by (auto simp: trim_ascii_start_def dest: set_dropWhileD)
  have "is_ascii (trim_ascii_start (drop 5 h))" "VT \<notin> set (trim_ascii_start (drop 5 h))"
    using d sub by (auto simp: plain_line_def is_ascii_def)
  moreover have "trim_ascii_start (drop 5 h) = [] \<or> \<not> is_ascii_whitespace (last (trim_ascii_start (drop 5 h)))"
    using plain_trim(3) [OF d] by (auto simp: trimmed_value_def)
  ultimately show ?thesis using True assms(2)
    by (auto simp: path_line_def val plain_line_def VT_def byte_eval is_ascii_whitespace_def last_append)
qed (simp add: path_line_def assms(1))

lemma is_path_Path [simp]: "is_path (CHR ''P'' # CHR ''a'' # CHR ''t'' # CHR ''h'' # CHR '':'' # x)"
proof -
  have "eq_ignore_ascii_case ''Path:'' ''path:''" by code_simp
  then show ?thesis by (simp add: is_path_def)
qed

lemma path_line_scan:
  assumes "plain_line h" "plain_line hostname" "hostname \<noteq> []"
  shows "path_line hostname h = [] \<longleftrightarrow> h = []" "folded (path_line hostname h) \<longleftrightarrow> folded h"
    "\<not> is_path h \<Longrightarrow> path_line hostname h = h" "is_path h \<Longrightarrow> is_path (path_line hostname h)"
  using is_path_not_msgid(2,3) [of h]
  by (auto simp: path_line_def HT_def byte_eval)

lemma continuation_with_path:
  assumes "plain_line hostname" "hostname \<noteq> []" "\<forall>h \<in> set hs. plain_line h"
  shows "msgid_continuation v (raw_lines (map (path_line hostname) hs) @ tail) = msgid_continuation v (raw_lines hs @ tail)"
  using assms(3)
proof (induction hs arbitrary: v)
  case (Cons h hs)
  then show ?case using path_line_scan [OF _ assms(1,2), of h] is_path_not_msgid(2) [of h]
    by (cases "is_path h") (simp_all add: Let_def)
qed simp

lemma extract_with_path:
  assumes "plain_line hostname" "hostname \<noteq> []" "\<forall>h \<in> set hs. plain_line h"
  shows "extract_msgid_loop (raw_lines (map (path_line hostname) hs) @ tail) = extract_msgid_loop (raw_lines hs @ tail)"
  using assms(3)
proof (induction hs)
  case (Cons h hs)
  let ?p = "path_line hostname h"
  have h: "plain_line h" "plain_line ?p" using Cons.prems path_line_plain [OF _ assms(1,2)] by simp_all
  have rest: "\<forall>h \<in> set hs. plain_line h" using Cons.prems by simp
  show ?case
  proof (cases "is_path h")
    case True
    with path_line_scan [OF h(1) assms(1,2)] have "is_path ?p" by simp
    with True Cons.IH [OF rest] is_path_not_msgid [of h] is_path_not_msgid [of ?p] plain_no_panic [OF h(1), of 11]
      plain_no_panic [OF h(2), of 11]
    show ?thesis by (cases "11 \<le> length h"; cases "11 \<le> length ?p") (simp_all add: Let_def)
  next
    case False
    then show ?thesis using path_line_scan(3) [OF h(1) assms(1,2)] Cons.IH [OF rest] continuation_with_path [OF assms(1,2) rest]
      by (simp add: Let_def)
  qed
qed simp

lemma extract_tail:
  assumes "extract_msgid_loop t = extract_msgid_loop u" "\<And>v. msgid_continuation v t = msgid_continuation v u"
  shows "extract_msgid_loop (hs @ t) = extract_msgid_loop (hs @ u)"
proof -
  have "msgid_continuation v (hs @ t) = msgid_continuation v (hs @ u)" for hs v
    by (induction hs arbitrary: v) (simp_all add: assms(2) Let_def)
  then show ?thesis by (induction hs) (simp_all add: assms(1) Let_def)
qed

lemma path_header_plain: "plain_line hostname \<Longrightarrow> hostname \<noteq> [] \<Longrightarrow> plain_line (''Path: '' @ hostname)"
  by (auto simp: plain_line_def VT_def byte_eval)

lemma path_header_scan:
  assumes "plain_line p" "is_path p"
  shows "extract_msgid_loop ((p @ [CR]) # [CR] # x) = extract_msgid_loop ([CR] # y)"
    "msgid_continuation v ((p @ [CR]) # [CR] # x) = msgid_continuation v ([CR] # y)"
  using is_path_not_msgid [OF assms(2)] plain_no_panic [OF assms(1), of 11]
  by (cases "11 \<le> length p"; simp add: Let_def)+

lemma path_line_ok:
  assumes "plain_line h" "header_line_ok h" "plain_line hostname" "header_line_ok hostname"
  shows "header_line_ok (path_line hostname h)"
proof (cases "is_path h")
  case True
  have d: "plain_line (drop 5 h)" using plain_drop [OF assms(1)] .
  then have "from_utf8_lossy (drop 5 h) = drop 5 h" using plain_no_panic [OF d] by (simp add: valid_utf8_lossy)
  then have "set (str_trim (from_utf8_lossy (drop 5 h))) \<subseteq> set h"
    using plain_trim(1) [OF d] by (auto simp: trim_ascii_start_def dest: set_dropWhileD in_set_dropD)
  with assms(2,4) True show ?thesis
    by (auto simp: header_line_ok_def clean_line_def path_line_def CR_def LF_def byte_eval)
qed (simp add: path_line_def assms(2))

lemma with_path_ok:
  assumes "\<forall>h \<in> set hs. header_line_ok h \<and> plain_line h" "header_line_ok hostname" "plain_line hostname"
  shows "\<forall>h \<in> set (with_path hostname hs). header_line_ok h \<and> plain_line h"
proof -
  have "hostname \<noteq> []" using assms(2) by (simp add: header_line_ok_def)
  moreover have "header_line_ok (''Path: '' @ hostname)"
    using assms(2) by (auto simp: header_line_ok_def clean_line_def CR_def LF_def byte_eval)
  ultimately show ?thesis
    using assms path_line_ok path_line_plain path_header_plain by (auto simp: with_path_def)
qed

lemma extract_prepended:
  assumes "\<forall>h \<in> set hs. header_line_ok h \<and> plain_line h" "header_line_ok hostname" "plain_line hostname"
  shows "extract_body_msgid (crlf_article (with_path hostname hs) @ CRLF @ body')
    = extract_body_msgid (crlf_article hs @ CRLF @ body)"
proof -
  have ne: "hostname \<noteq> []" and hs: "\<forall>h \<in> set hs. clean_line h" "\<forall>h \<in> set hs. plain_line h"
    and ws: "\<forall>h \<in> set (with_path hostname hs). clean_line h"
    using assms with_path_ok [OF assms] by (auto simp: header_line_ok_def)
  have "extract_msgid_loop (raw_lines (with_path hostname hs) @ [CR] # split_on LF body')
      = extract_msgid_loop (raw_lines (map (path_line hostname) hs) @ [CR] # split_on LF body)"
  proof (cases "\<exists>h \<in> set hs. is_path h")
    case False
    let ?p = "''Path: '' @ hostname"
    have p: "plain_line ?p" "is_path ?p" using path_header_plain [OF assms(3) ne] by simp_all
    have "raw_lines (with_path hostname hs) @ [CR] # split_on LF body'
        = raw_lines (map (path_line hostname) hs) @ (?p @ [CR]) # [CR] # split_on LF body'"
      using False by (simp add: with_path_def)
    then show ?thesis using path_header_scan [OF p] by (simp only:) (rule extract_tail)
  next
    case True
    have "extract_msgid_loop ([CR] # split_on LF body') = extract_msgid_loop ([CR] # split_on LF body)"
      "\<And>v. msgid_continuation v ([CR] # split_on LF body') = msgid_continuation v ([CR] # split_on LF body)" by simp_all
    with True show ?thesis by (simp only: with_path_def if_True append_Nil2) (rule extract_tail)
  qed
  then show ?thesis
    using extract_with_path [OF assms(3) ne hs(2), of "[CR] # split_on LF body"]
    by (simp add: extract_body_msgid_def split_article [OF ws] split_article [OF hs(1)] comp_def)
qed

text \<open>
  C24. The Message-ID an article is checked for duplicates under is the one it is stored under. On
  header lines in ASCII (with no vertical tab) that do not end in white space, folded or not, the
  check of the received article and the pipeline's parse of the article with its new Path header do
  not panic and read the same Message-ID.
\<close>

theorem dedup_key_is_storage_key:
  assumes "\<forall>h \<in> set hs. header_line_ok h \<and> plain_line h" "header_line_ok hostname" "plain_line hostname"
  shows "\<exists>key gs. extract_body_msgid (crlf_article hs @ CRLF @ body) = Return key
    \<and> parse_message_id_and_newsgroups (prepend_path_header (crlf_article hs @ CRLF @ body) hostname)
        = Return (map_option (\<lambda>m. (m, gs)) key)"
proof -
  let ?a = "crlf_article (with_path hostname hs) @ CRLF @ end_line body"
  have ws: "\<forall>h \<in> set (with_path hostname hs). header_line_ok h \<and> plain_line h" by (rule with_path_ok [OF assms])
  then have "header_lines ?a = with_path hostname hs" by (intro header_lines_article) simp
  then have "\<forall>l \<in> set (header_lines ?a). plain_line l" using ws by simp
  then have "headers_plain (split_on LF ?a)" by (simp only: header_lines_def set_map ball_simps)
  from loops_agree [OF this, of 0 None] obtain m ng where
    "parse_headers_loop None None 0 (split_on LF ?a) = Return (m, ng)" "extract_body_msgid ?a = Return m"
    by (cases "parse_headers_loop None None 0 (split_on LF ?a)") (auto simp: extract_body_msgid_def)
  moreover have "prepend_path_header (crlf_article hs @ CRLF @ body) hostname = ?a"
    using assms(1) prepend_lines [of hs body hostname] by simp
  ultimately show ?thesis using extract_prepended [OF assms, of "end_line body" body]
    by (intro exI [of _ m] exI [of _ "split_groups ng"]) (cases m; simp add: parse_message_id_and_newsgroups_def)
qed

lemma msgid_name [simp]:
  "eq_ignore_ascii_case (CHR ''M'' # CHR ''e'' # CHR ''s'' # CHR ''s'' # CHR ''a'' # CHR ''g'' # CHR ''e'' # CHR ''-'' # CHR ''I''
     # CHR ''D'' # CHR '':'' # []) MID"
  by code_simp

lemma extract_msgid_line:
  assumes "valid_utf8 v" "is_char_boundary (''Message-ID:'' @ v) 11"
  shows "extract_msgid_loop (((''Message-ID:'' @ v) @ [CR]) # lines)
    = Return (map_option trim_ascii (msgid_continuation (trim_ascii_start v) lines))"
proof -
  have "valid_utf8 (''Message-ID:'' @ v)" by (rule valid_utf8_append [OF ascii_valid_utf8 assms(1)]) simp
  moreover have "\<not> folded (''Message-ID:'' @ v)" by (simp add: HT_def byte_eval)
  ultimately show ?thesis using assms(2)
    unfolding extract_msgid_loop.simps strip_cr_append Let_def by simp
qed

lemmas line_eval = plain_line_def header_line_ok_def clean_line_def VT_def CR_def LF_def byte_eval is_ascii_whitespace_def

theorem dedup_key_is_storage_key_witness:
  "extract_body_msgid (crlf_article [''Message-ID:'', '' <x@y>'', ''Newsgroups: g''] @ CRLF @ ''text'') = Return (Some ''<x@y>'')
   \<and> (\<exists>gs. parse_message_id_and_newsgroups
        (prepend_path_header (crlf_article [''Message-ID:'', '' <x@y>'', ''Newsgroups: g''] @ CRLF @ ''text'') ''host'')
        = Return (Some (''<x@y>'', gs)))"
proof -
  let ?hs = "[''Message-ID:'', '' <x@y>'', ''Newsgroups: g'']"
  have ok: "\<forall>h \<in> set ?hs. header_line_ok h \<and> plain_line h" "header_line_ok ''host''" "plain_line ''host''"
    by (simp_all add: line_eval)
  obtain key gs where k: "extract_body_msgid (crlf_article ?hs @ CRLF @ ''text'') = Return key"
    "parse_message_id_and_newsgroups (prepend_path_header (crlf_article ?hs @ CRLF @ ''text'') ''host'')
      = Return (map_option (\<lambda>m. (m, gs)) key)"
    using dedup_key_is_storage_key [OF ok, of "''text''"] by blast
  have clean: "\<forall>h \<in> set ?hs. clean_line h" using ok(1) by (simp add: header_line_ok_def)
  have trim: "trim_ascii '' <x@y>'' = ''<x@y>''" "trim_ascii ''<x@y>'' = ''<x@y>''" "trim_ascii_start [] = []"
    by (simp_all add: trim_ascii_def trim_ascii_start_def trim_ascii_end_def is_ascii_whitespace_def)
  have "extract_msgid_loop (((''Message-ID:'' @ []) @ [CR]) # raw_lines ['' <x@y>'', ''Newsgroups: g''] @ [CR] # split_on LF ''text'')
      = Return (Some ''<x@y>'')"
    by (subst extract_msgid_line) (simp_all add: is_char_boundary_def trim HT_def CR_def byte_eval between_def utf8_next_def valid_utf8.simps(2) Let_def)
  then have "extract_body_msgid (crlf_article ?hs @ CRLF @ ''text'') = Return (Some ''<x@y>'')"
    unfolding extract_body_msgid_def split_article [OF clean] by simp
  with k show ?thesis by auto
qed

section \<open>What is accepted\<close>

definition header_named :: "bytes \<Rightarrow> bytes \<Rightarrow> bool" where
  "header_named name h \<longleftrightarrow> length h > length name \<and> eq_ignore_ascii_case (take (length name) h) name
     \<and> h ! length name = CHR '':''"

lemma header_named_colon: "header_named name (name @ CHR '':'' # v)"
  by (simp add: header_named_def eq_ignore_ascii_case_def)

lemma has_header_article:
  assumes "\<forall>h \<in> set hs. header_line_ok h"
  shows "has_header (crlf_article hs @ CRLF @ body) name \<longleftrightarrow> (\<exists>h \<in> set hs. header_named name h)"
proof -
  have clean: "\<forall>h \<in> set hs. clean_line h" "\<forall>h \<in> set hs. h \<noteq> []" using assms by (auto simp: header_line_ok_def)
  have "has_header_loop name (raw_lines hs @ [CR] # x) \<longleftrightarrow> (\<exists>h \<in> set hs. header_named name h)" for x
    using clean(2) by (induction hs) (auto simp: Let_def header_named_def)
  then show ?thesis by (simp add: has_header_def split_article [OF clean(1)])
qed

lemma check_headers_iff: "check_headers a names = Accepted \<longleftrightarrow> (\<forall>n \<in> set names. has_header a n)"
  by (induction names) auto

lemma check_ingest_Accepted:
  assumes "validate_message_id envelope = Inr ()" "length a \<le> MAX_ARTICLE_BYTES" "\<forall>n \<in> set MANDATORY. has_header a n"
    "extract_body_msgid a = Return (Some m)" "lookup_by_msgid L rows m = Inr None"
  shows "check_ingest L envelope a rows = Return Accepted"
proof -
  have "check_headers a MANDATORY = Accepted" using assms(3) by (simp only: check_headers_iff)
  with assms show ?thesis by (simp add: check_ingest_def)
qed

section \<open>Headers that are not ASCII\<close>

text \<open>
  Both scans compare the first eleven bytes of a header line with a name, and slice the line there
  without asking whether a character ends at that byte.
\<close>

definition subject_headers :: "bytes \<Rightarrow> bytes \<Rightarrow> bytes list" where
  "subject_headers m v = [''From: a@b'', ''Date: d'', ''Message-ID: '' @ m, ''Subject: '' @ v, ''Newsgroups: g'']"

lemma subject_headers_ok:
  "clean_line m \<Longrightarrow> clean_line v \<Longrightarrow> \<forall>h \<in> set (subject_headers m v). header_line_ok h"
  by (auto simp: subject_headers_def line_eval)

lemma subject_headers_mandatory: "n \<in> set MANDATORY \<Longrightarrow> \<exists>h \<in> set (subject_headers m v). header_named n h"
  using header_named_colon [of "''From''" "'' a@b''"] header_named_colon [of "''Date''" "'' d''"]
    header_named_colon [of "''Message-ID''" "'' '' @ m"] header_named_colon [of "''Subject''" "'' '' @ v"]
    header_named_colon [of "''Newsgroups''" "'' g''"]
  by (auto simp: MANDATORY_def subject_headers_def)

lemma subject_headers_path: "with_path hostname (subject_headers m v) = subject_headers m v @ [''Path: '' @ hostname]"
proof -
  have "\<not> eq_ignore_ascii_case ''From:'' ''path:''" "\<not> eq_ignore_ascii_case ''Date:'' ''path:''"
    "\<not> eq_ignore_ascii_case ''Messa'' ''path:''" "\<not> eq_ignore_ascii_case ''Subje'' ''path:''"
    "\<not> eq_ignore_ascii_case ''Newsg'' ''path:''" by code_simp+
  then have "\<forall>h \<in> set (subject_headers m v). \<not> is_path h" by (auto simp: subject_headers_def is_path_def)
  then show ?thesis by (auto simp: with_path_def path_line_def intro!: map_idI)
qed

lemma short_line_skipped: 
  assumes "h \<noteq> []" "\<not> folded h" "length h < 11"
  shows "extract_msgid_loop ((h @ [CR]) # lines) = extract_msgid_loop lines"
    "parse_headers_loop None None cur ((h @ [CR]) # lines) = parse_headers_loop None None 0 lines"
  using assms by (simp_all add: Let_def)

lemma subject_headers_extract:
  assumes "clean_line m" "clean_line v" "plain_line m" "trimmed_value m"
  shows "extract_body_msgid (crlf_article (subject_headers m v) @ CRLF @ body) = Return (Some m)"
proof -
  have clean: "\<forall>h \<in> set (subject_headers m v). clean_line h"
    using subject_headers_ok [OF assms(1,2)] by (simp add: header_line_ok_def)
  have utf8: "valid_utf8 ('' '' @ m)" "is_char_boundary (''Message-ID:'' @ '' '' @ m) 11"
    using assms(3) by (auto simp: plain_line_def intro!: ascii_valid_utf8 ascii_char_boundary)
  have start: "trim_ascii_start ('' '' @ m) = m"
    using assms(4) by (cases m) (simp_all add: trim_ascii_start_def trimmed_value_def is_ascii_whitespace_def)
  have stop: "msgid_continuation m ((''Subject: '' @ v @ [CR]) # ls) = Some m" for ls
    by (cases v) (simp_all add: Let_def HT_def byte_eval)
  have "extract_msgid_loop (raw_lines (subject_headers m v) @ [CR] # x) = Return (Some m)" for x
  proof -
    have "extract_msgid_loop (((''Message-ID:'' @ ('' '' @ m)) @ [CR]) # (''Subject: '' @ v @ [CR]) # ls) = Return (Some m)" for ls
      using stop [of ls] start trim_ascii_trimmed [OF assms(4)] extract_msgid_line [OF utf8] by simp
    then show ?thesis
      using short_line_skipped(1) [of "''From: a@b''"] short_line_skipped(1) [of "''Date: d''"]
      by (simp add: subject_headers_def HT_def byte_eval)
  qed
  then show ?thesis unfolding extract_body_msgid_def split_article [OF clean] .
qed

lemma parse_reaches_subject:
  assumes "plain_line m" "valid_utf8 v" "2 < length v" "continuation (v ! 2)"
  shows "parse_headers_loop None None 0 (raw_lines (subject_headers m v) @ ls) = Panic"
proof -
  let ?s = "''Subject: '' @ v"
  have "valid_utf8 ?s" by (rule valid_utf8_append [OF ascii_valid_utf8 assms(2)]) simp
  moreover have "\<not> is_char_boundary ?s 11" "11 \<le> length ?s" using assms(3,4) by (simp_all add: is_char_boundary_def nth_Cons')
  moreover have "\<not> folded ?s" by (simp add: HT_def byte_eval)
  ultimately have panic: "parse_headers_loop (Some k) None 1 ((?s @ [CR]) # lines) = Panic" for k lines
    unfolding parse_headers_loop.simps strip_cr_append Let_def by simp
  let ?m = "''Message-ID: '' @ m"
  have "valid_utf8 ?m" "is_char_boundary ?m 11" using assms(1)
    by (auto simp: plain_line_def intro!: ascii_valid_utf8 ascii_char_boundary)
  moreover have "\<not> folded ?m" by (simp add: HT_def byte_eval)
  ultimately have "parse_headers_loop None None 0 ((?m @ [CR]) # (?s @ [CR]) # lines) = Panic" for lines
    unfolding parse_headers_loop.simps(2) [of None] strip_cr_append Let_def using panic by simp
  then show ?thesis
    using short_line_skipped(2) [of "''From: a@b''"] short_line_skipped(2) [of "''Date: d''"]
    by (simp add: subject_headers_def HT_def byte_eval)
qed


text \<open>The subject of the witness is the words deja vu with their accents, in UTF-8.\<close>

definition deja_vu :: bytes where
  "deja_vu = CHR ''d'' # byte 195 # byte 169 # CHR ''j'' # byte 195 # byte 160 # '' vu''"


section \<open>A fold behind a space\<close>

text \<open>
  Without the condition on white space the two keys can differ: the check keeps the space before a
  fold, the pipeline drops it.
\<close>

theorem folded_msgid_keys_differ:
  assumes "plain_line a" "trimmed_value a" "a \<noteq> []" "clean_line a" "plain_line b" "trimmed_value b" "b \<noteq> []" "clean_line b"
  shows "extract_body_msgid (crlf_article [''Message-ID: '' @ a @ '' '', '' '' @ b] @ CRLF @ body) = Return (Some (a @ '' '' @ b))
    \<and> parse_message_id_and_newsgroups (crlf_article [''Message-ID: '' @ a @ '' '', '' '' @ b] @ CRLF @ body) = Return (Some (a @ b, []))"
proof -
  let ?hs = "[''Message-ID: '' @ a @ '' '', '' '' @ b]"
  have clean: "\<forall>h \<in> set ?hs. clean_line h" using assms(4,8) by (simp add: clean_line_def CR_def LF_def byte_eval)
  have asc: "is_ascii ('' '' @ a @ '' '')" "is_ascii ('' '' @ b)" "VT \<notin> set ('' '' @ a @ '' '')" "VT \<notin> set ('' '' @ b)"
    using assms(1,5) by (auto simp: plain_line_def VT_def byte_eval)
  have start: "trim_ascii_start ('' '' @ a @ '' '') = a @ '' ''"
    using assms(2,3) by (cases a) (simp_all add: trim_ascii_start_def trimmed_value_def is_ascii_whitespace_def)
  have ta: "trim_ascii ('' '' @ a @ '' '') = a" "trim_ascii ('' '' @ b) = b"
  proof -
    have "dropWhile is_ascii_whitespace (rev a) = rev a" "dropWhile is_ascii_whitespace b = b" "dropWhile is_ascii_whitespace (rev b) = rev b"
      using assms(2,6) by (auto simp: trimmed_value_def dropWhile_eq_self_iff hd_rev)
    moreover have "is_ascii_whitespace (CHR '' '')" by (simp add: is_ascii_whitespace_def)
    ultimately show "trim_ascii ('' '' @ a @ '' '') = a" "trim_ascii ('' '' @ b) = b"
      using start by (simp_all add: trim_ascii_def trim_ascii_end_def trim_ascii_start_def)
  qed
  have joined: "trim_ascii (a @ '' '' @ b) = a @ '' '' @ b"
    using assms(2,3,6,7) by (intro trim_ascii_trimmed) (auto simp: trimmed_value_def)
  have fold: "folded ('' '' @ b)" "valid_utf8 ('' '' @ b)" using asc(2) by (auto intro: ascii_valid_utf8)
  have "extract_msgid_loop (((''Message-ID:'' @ '' '' @ a @ '' '') @ [CR]) # ('' '' @ b @ [CR]) # [CR] # x) = Return (Some (a @ '' '' @ b))" for x
    using asc(1) fold start ta(2) joined
    by (subst extract_msgid_line) (auto intro!: ascii_valid_utf8 ascii_char_boundary simp: Let_def)
  moreover have "parse_headers_loop None None 0 (((''Message-ID:'' @ '' '' @ a @ '' '') @ [CR]) # ('' '' @ b @ [CR]) # [CR] # x)
      = Return (Some (a @ b), None)" for x
  proof -
    let ?m = "''Message-ID:'' @ '' '' @ a @ '' ''"
    have "valid_utf8 ?m" "is_char_boundary ?m 11" using asc(1) by (auto intro!: ascii_valid_utf8 ascii_char_boundary)
    moreover have "str_trim ('' '' @ a @ '' '') = a" "str_trim ('' '' @ b) = b"
      using str_trim_ascii [OF asc(1,3)] str_trim_ascii [OF asc(2,4)] ta by simp_all
    moreover have "\<not> folded ?m" by (simp add: HT_def byte_eval)
    ultimately show ?thesis
      using fold unfolding parse_headers_loop.simps(2) [of None] strip_cr_append Let_def by simp
  qed
  ultimately show ?thesis
    by (simp add: extract_body_msgid_def parse_message_id_and_newsgroups_def split_article [OF clean, simplified] split_groups_def)
qed

end
