(* ===== verification/IngestQueue.thy ===== *)
theory IngestQueue
  imports Prelude
begin

text \<open>
  The queue between the peer sessions and the pipeline
  (\<^verbatim>\<open>crates/transit/src/peering/ingestion_queue.rs\<close>): the operations as a session runs them, their
  atomic steps, and any interleaving of those steps by a number of sessions and the one receiver.
  The channel of the tokio crate is a parameter. \<^verbatim>\<open>usize\<close> is 64 bits wide and additions wrap, as in a
  release build.
\<close>

section \<open>The channel\<close>

record queued_article =
  qa_bytes :: bytes
  qa_message_id :: bytes

datatype send_result = SendOk | SendFull | SendClosed

text \<open>\<^verbatim>\<open>mpsc_recv\<close> is \<^verbatim>\<open>None\<close> where the receiver would wait.\<close>

record 'c mpsc =
  mpsc_channel :: "nat \<Rightarrow> 'c"
  mpsc_try_send :: "'c \<Rightarrow> queued_article \<Rightarrow> send_result \<times> 'c"
  mpsc_recv :: "'c \<Rightarrow> (queued_article \<times> 'c) option"
  mpsc_items :: "'c \<Rightarrow> queued_article list"
  mpsc_capacity :: "'c \<Rightarrow> nat"
  mpsc_closed :: "'c \<Rightarrow> bool"

text \<open>What tokio documents of a bounded channel whose receiver is not dropped.\<close>

definition bounded_fifo :: "'c mpsc \<Rightarrow> bool" where
  "bounded_fifo C \<longleftrightarrow>
     (\<forall>n. 0 < n \<longrightarrow> mpsc_items C (mpsc_channel C n) = [] \<and> mpsc_capacity C (mpsc_channel C n) = n
        \<and> \<not> mpsc_closed C (mpsc_channel C n))
   \<and> (\<forall>c a. case mpsc_try_send C c a of (r, c') \<Rightarrow>
        mpsc_capacity C c' = mpsc_capacity C c \<and> (mpsc_closed C c' \<longleftrightarrow> mpsc_closed C c)
        \<and> r = (if mpsc_closed C c then SendClosed
               else if length (mpsc_items C c) < mpsc_capacity C c then SendOk else SendFull)
        \<and> mpsc_items C c' = mpsc_items C c @ (if r = SendOk then [a] else []))
   \<and> (\<forall>c. case mpsc_recv C c of None \<Rightarrow> mpsc_items C c = []
        | Some (a, c') \<Rightarrow> mpsc_items C c = a # mpsc_items C c' \<and> mpsc_capacity C c' = mpsc_capacity C c
            \<and> (mpsc_closed C c' \<longleftrightarrow> mpsc_closed C c))"

section \<open>The queue\<close>

record queue_metrics =
  depth_current :: u64
  depth_max :: u64
  bytes_current :: u64
  bytes_max :: u64
  accepted_total :: u64
  rejected_full_total :: u64

record 'c ingest_queue =
  iq_chan :: 'c
  iq_metrics :: queue_metrics

definition metrics_new :: "u64 \<Rightarrow> u64 \<Rightarrow> queue_metrics" where
  "metrics_new max_depth max_bytes = \<lparr>depth_current = 0, depth_max = max_depth, bytes_current = 0, bytes_max = max_bytes,
     accepted_total = 0, rejected_full_total = 0\<rparr>"

definition ingestion_queue :: "'c mpsc \<Rightarrow> u64 \<Rightarrow> u64 \<Rightarrow> 'c ingest_queue" where
  "ingestion_queue C max_depth max_bytes =
     \<lparr>iq_chan = mpsc_channel C (unat max_depth), iq_metrics = metrics_new max_depth max_bytes\<rparr>"

definition is_full :: "queue_metrics \<Rightarrow> bool" where
  "is_full m \<longleftrightarrow> depth_current m \<ge> depth_max m"

definition is_bytes_overloaded :: "queue_metrics \<Rightarrow> nat \<Rightarrow> bool" where
  "is_bytes_overloaded m article_bytes \<longleftrightarrow> bytes_current m + of_nat article_bytes > bytes_max m"

definition below_drain_threshold :: "queue_metrics \<Rightarrow> bool" where
  "below_drain_threshold m \<longleftrightarrow> depth_current m * 10 < depth_max m * 8"

definition resp_436 :: bytes where
  "resp_436 = ''436 Transfer not possible; try again later'' @ [CHR 0x0D, CHR 0x0A]"

definition resp_431 :: bytes where
  "resp_431 = ''431 Ingestion queue unavailable'' @ [CHR 0x0D, CHR 0x0A]"

abbreviation alen :: "queued_article \<Rightarrow> nat" where
  "alen a \<equiv> length (qa_bytes a)"

definition add_bytes :: "u64 \<Rightarrow> 'c ingest_queue \<Rightarrow> 'c ingest_queue" where
  "add_bytes n q = q\<lparr>iq_metrics := (iq_metrics q)\<lparr>bytes_current := bytes_current (iq_metrics q) + n\<rparr>\<rparr>"

definition add_depth :: "u64 \<Rightarrow> 'c ingest_queue \<Rightarrow> 'c ingest_queue" where
  "add_depth n q = q\<lparr>iq_metrics := (iq_metrics q)\<lparr>depth_current := depth_current (iq_metrics q) + n\<rparr>\<rparr>"

definition add_accepted :: "'c ingest_queue \<Rightarrow> 'c ingest_queue" where
  "add_accepted q = q\<lparr>iq_metrics := (iq_metrics q)\<lparr>accepted_total := accepted_total (iq_metrics q) + 1\<rparr>\<rparr>"

definition add_rejected :: "'c ingest_queue \<Rightarrow> 'c ingest_queue" where
  "add_rejected q = q\<lparr>iq_metrics := (iq_metrics q)\<lparr>rejected_full_total := rejected_full_total (iq_metrics q) + 1\<rparr>\<rparr>"

definition try_enqueue :: "'c mpsc \<Rightarrow> 'c ingest_queue \<Rightarrow> queued_article \<Rightarrow> (bytes + unit) \<times> 'c ingest_queue" where
  "try_enqueue C q article =
     (let article_bytes = of_nat (alen article);
          prev = bytes_current (iq_metrics q);
          q = add_bytes article_bytes q
      in if prev + article_bytes > bytes_max (iq_metrics q)
         then (Inl resp_436, add_rejected (add_bytes (- article_bytes) q))
         else case mpsc_try_send C (iq_chan q) article of
            (SendOk, c) \<Rightarrow> (Inr (), add_accepted (add_depth 1 (q\<lparr>iq_chan := c\<rparr>)))
          | (SendFull, c) \<Rightarrow> (Inl resp_436, add_rejected (add_bytes (- article_bytes) (q\<lparr>iq_chan := c\<rparr>)))
          | (SendClosed, c) \<Rightarrow> (Inl resp_431, add_bytes (- article_bytes) (q\<lparr>iq_chan := c\<rparr>)))"

text \<open>\<^verbatim>\<open>recv\<close> when the channel has an article.\<close>

definition queue_recv :: "'c mpsc \<Rightarrow> 'c ingest_queue \<Rightarrow> (queued_article \<times> 'c ingest_queue) option" where
  "queue_recv C q = (case mpsc_recv C (iq_chan q) of
     None \<Rightarrow> None
   | Some (article, c) \<Rightarrow>
       Some (article, add_bytes (- of_nat (alen article)) (add_depth (- 1) (q\<lparr>iq_chan := c\<rparr>))))"

section \<open>Atomic steps\<close>

text \<open>
  A session inside \<^verbatim>\<open>try_enqueue\<close>: between any two of its operations on shared memory other tasks may
  run. \<^verbatim>\<open>Reserved\<close> holds what \<^verbatim>\<open>fetch_add\<close> returned.
\<close>

datatype sender =
    Idle
  | Reserved queued_article u64
  | SentOk
  | NotSent queued_article bytes
  | Refunded
  | Counted
  | Done "bytes + unit"

fun sender_step :: "'c mpsc \<Rightarrow> 'c ingest_queue \<Rightarrow> sender \<Rightarrow> 'c ingest_queue \<times> sender" where
  "sender_step C q (Reserved article prev) =
     (if prev + of_nat (alen article) > bytes_max (iq_metrics q)
      then (add_bytes (- of_nat (alen article)) q, Refunded)
      else case mpsc_try_send C (iq_chan q) article of
         (SendOk, c) \<Rightarrow> (q\<lparr>iq_chan := c\<rparr>, SentOk)
       | (SendFull, c) \<Rightarrow> (q\<lparr>iq_chan := c\<rparr>, NotSent article resp_436)
       | (SendClosed, c) \<Rightarrow> (q\<lparr>iq_chan := c\<rparr>, NotSent article resp_431))"
| "sender_step C q SentOk = (add_depth 1 q, Counted)"
| "sender_step C q (NotSent article resp) =
     (add_bytes (- of_nat (alen article)) q, if resp = resp_431 then Done (Inl resp_431) else Refunded)"
| "sender_step C q Refunded = (add_rejected q, Done (Inl resp_436))"
| "sender_step C q Counted = (add_accepted q, Done (Inr ()))"
| "sender_step C q pc = (q, pc)"

definition sender_begin :: "'c ingest_queue \<Rightarrow> queued_article \<Rightarrow> 'c ingest_queue \<times> sender" where
  "sender_begin q article = (add_bytes (of_nat (alen article)) q, Reserved article (bytes_current (iq_metrics q)))"

datatype receiver = Waiting | Taken queued_article | Uncounted queued_article | Got queued_article

fun receiver_step :: "'c mpsc \<Rightarrow> 'c ingest_queue \<Rightarrow> receiver \<Rightarrow> ('c ingest_queue \<times> receiver) option" where
  "receiver_step C q (Taken article) = Some (add_depth (- 1) q, Uncounted article)"
| "receiver_step C q (Uncounted article) = Some (add_bytes (- of_nat (alen article)) q, Got article)"
| "receiver_step C q pc =
     (case mpsc_recv C (iq_chan q) of None \<Rightarrow> None | Some (article, c) \<Rightarrow> Some (q\<lparr>iq_chan := c\<rparr>, Taken article))"

text \<open>Run alone, the steps are the operations.\<close>

fun run_sender :: "nat \<Rightarrow> 'c mpsc \<Rightarrow> 'c ingest_queue \<Rightarrow> sender \<Rightarrow> 'c ingest_queue \<times> sender" where
  "run_sender 0 C q pc = (q, pc)"
| "run_sender (Suc n) C q pc = (case sender_step C q pc of (q', pc') \<Rightarrow> run_sender n C q' pc')"

lemma try_enqueue_steps:
  "(case try_enqueue C q a of (r, q') \<Rightarrow> (q', Done r)) = (case sender_begin q a of (q', pc) \<Rightarrow> run_sender 3 C q' pc)"
  by (auto simp: try_enqueue_def sender_begin_def Let_def numeral_3_eq_3 add_bytes_def resp_436_def resp_431_def
      split: prod.splits send_result.splits)

section \<open>Interleavings\<close>

record 'c queue_system =
  qs_queue :: "'c ingest_queue"
  qs_senders :: "sender list"
  qs_receiver :: receiver

datatype queue_event = Internal | Sent queued_article | Received queued_article

fun sender_event :: "sender \<Rightarrow> sender \<Rightarrow> queue_event" where
  "sender_event (Reserved a prev) SentOk = Sent a"
| "sender_event pc pc' = Internal"

fun receiver_event :: "receiver \<Rightarrow> queue_event" where
  "receiver_event (Taken a) = Received a"
| "receiver_event pc = Internal"

text \<open>
  One step of the whole system: an idle session offers an article of at most \<^verbatim>\<open>limit\<close> bytes, a session
  inside \<^verbatim>\<open>try_enqueue\<close> does its next operation, or the receiver does.
\<close>

inductive queue_step ::
  "'c mpsc \<Rightarrow> nat \<Rightarrow> 'c queue_system \<Rightarrow> queue_event \<Rightarrow> 'c queue_system \<Rightarrow> bool" for C limit where
  offer: "i < length (qs_senders s) \<Longrightarrow> (qs_senders s ! i = Idle \<or> (\<exists>r. qs_senders s ! i = Done r)) \<Longrightarrow> alen a \<le> limit \<Longrightarrow>
    sender_begin (qs_queue s) a = (q, pc) \<Longrightarrow>
    queue_step C limit s Internal (s\<lparr>qs_queue := q, qs_senders := (qs_senders s)[i := pc]\<rparr>)"
| send: "i < length (qs_senders s) \<Longrightarrow> sender_step C (qs_queue s) (qs_senders s ! i) = (q, pc) \<Longrightarrow>
    queue_step C limit s (sender_event (qs_senders s ! i) pc) (s\<lparr>qs_queue := q, qs_senders := (qs_senders s)[i := pc]\<rparr>)"
| receive: "receiver_step C (qs_queue s) (qs_receiver s) = Some (q, pc) \<Longrightarrow>
    queue_step C limit s (receiver_event pc) (s\<lparr>qs_queue := q, qs_receiver := pc\<rparr>)"

inductive queue_run ::
  "'c mpsc \<Rightarrow> nat \<Rightarrow> 'c queue_system \<Rightarrow> queue_event list \<Rightarrow> 'c queue_system \<Rightarrow> bool" for C limit where
  stop: "queue_run C limit s [] s"
| step: "queue_run C limit s evs t \<Longrightarrow> queue_step C limit t e u \<Longrightarrow> queue_run C limit s (evs @ [e]) u"

definition queue_start :: "'c mpsc \<Rightarrow> u64 \<Rightarrow> u64 \<Rightarrow> nat \<Rightarrow> 'c queue_system" where
  "queue_start C max_depth max_bytes sessions =
     \<lparr>qs_queue = ingestion_queue C max_depth max_bytes, qs_senders = replicate sessions Idle, qs_receiver = Waiting\<rparr>"

section \<open>What the counters count\<close>

text \<open>
  Bytes a session has reserved and not yet given back or handed over; those of a session that saw
  room for its article; the articles in the channel and the one the receiver has not yet deducted.
\<close>

fun reserved :: "sender \<Rightarrow> nat" where
  "reserved (Reserved a prev) = alen a"
| "reserved (NotSent a r) = alen a"
| "reserved pc = 0"

fun granted :: "u64 \<Rightarrow> sender \<Rightarrow> nat" where
  "granted bmax (Reserved a prev) = (if unat prev + alen a \<le> unat bmax then alen a else 0)"
| "granted bmax (NotSent a r) = alen a"
| "granted bmax pc = 0"

fun undeducted :: "receiver \<Rightarrow> nat" where
  "undeducted (Taken a) = alen a"
| "undeducted (Uncounted a) = alen a"
| "undeducted pc = 0"

fun uncounted :: "sender \<Rightarrow> nat" where
  "uncounted SentOk = 1"
| "uncounted pc = 0"

abbreviation total :: "queued_article list \<Rightarrow> nat" where
  "total as \<equiv> sum_list (map alen as)"

abbreviation items :: "'c mpsc \<Rightarrow> 'c queue_system \<Rightarrow> queued_article list" where
  "items C s \<equiv> mpsc_items C (iq_chan (qs_queue s))"

definition sender_ok :: "nat \<Rightarrow> nat \<Rightarrow> sender \<Rightarrow> bool" where
  "sender_ok limit lim pc = (case pc of Reserved a prev \<Rightarrow> alen a \<le> limit \<and> unat prev + alen a < lim
     | NotSent a r \<Rightarrow> alen a \<le> limit | _ \<Rightarrow> True)"

definition queue_inv :: "'c mpsc \<Rightarrow> nat \<Rightarrow> u64 \<Rightarrow> u64 \<Rightarrow> nat \<Rightarrow> 'c queue_system \<Rightarrow> bool" where
  "queue_inv C limit dmax bmax n s \<longleftrightarrow>
     (let m = iq_metrics (qs_queue s); c = iq_chan (qs_queue s); ss = qs_senders s in
        length ss = n \<and> bytes_max m = bmax \<and> depth_max m = dmax \<and> mpsc_capacity C c = unat dmax \<and> \<not> mpsc_closed C c
      \<and> length (mpsc_items C c) \<le> unat dmax
      \<and> list_all (sender_ok limit (2 ^ 64)) ss
      \<and> unat (bytes_current m) = total (mpsc_items C c) + sum_list (map reserved ss) + undeducted (qs_receiver s)
      \<and> total (mpsc_items C c) + sum_list (map (granted bmax) ss) + undeducted (qs_receiver s) \<le> unat bmax
      \<and> depth_current m + of_nat (sum_list (map uncounted ss))
          = of_nat (length (mpsc_items C c) + (case qs_receiver s of Taken _ \<Rightarrow> 1 | _ \<Rightarrow> 0)))"

lemma sum_list_update:
  "i < length xs \<Longrightarrow> sum_list (map f (xs[i := x])) + (f (xs ! i) :: nat) = sum_list (map f xs) + f x"
  by (induction xs arbitrary: i) (auto split: nat.split)

lemma list_all_update: "list_all P xs \<Longrightarrow> P x \<Longrightarrow> list_all P (xs[i := x])"
  by (induction xs arbitrary: i) (auto split: nat.split)

lemma unat_add_nat: "unat b + n < 2 ^ 64 \<Longrightarrow> unat (b + of_nat n :: u64) = unat b + n"
  by (simp add: unat_word_ariths unat_of_nat)

lemma unat_sub_nat:
  assumes "n \<le> unat b"
  shows "unat (b - of_nat n :: u64) = unat b - n"
proof -
  have "unat b < 2 ^ 64" by (rule order_less_le_trans [OF unsigned_less]) simp
  then have "n < 2 ^ 64" using assms by simp
  then have n: "unat (of_nat n :: u64) = n" by (simp add: unat_of_nat)
  have "(of_nat n :: u64) \<le> b" using assms n by (simp add: word_le_nat_alt)
  then show ?thesis using n by (simp add: unat_sub)
qed

lemma fits_iff:
  "unat prev + n < 2 ^ 64 \<Longrightarrow> (prev + of_nat n > (bmax :: u64)) = (unat prev + n > unat bmax)"
  by (simp add: word_less_nat_alt unat_add_nat)

lemmas queue_ops = add_bytes_def add_depth_def add_accepted_def add_rejected_def

lemma try_send_cases:
  assumes "bounded_fifo C" "\<not> mpsc_closed C c" "mpsc_try_send C c a = (r, c')"
  shows "mpsc_capacity C c' = mpsc_capacity C c \<and> \<not> mpsc_closed C c' \<and>
    (r = SendOk \<and> length (mpsc_items C c) < mpsc_capacity C c \<and> mpsc_items C c' = mpsc_items C c @ [a]
     \<or> r = SendFull \<and> mpsc_items C c' = mpsc_items C c)"
proof -
  have "case mpsc_try_send C c a of (r, c') \<Rightarrow>
      mpsc_capacity C c' = mpsc_capacity C c \<and> (mpsc_closed C c' \<longleftrightarrow> mpsc_closed C c)
      \<and> r = (if mpsc_closed C c then SendClosed else if length (mpsc_items C c) < mpsc_capacity C c then SendOk else SendFull)
      \<and> mpsc_items C c' = mpsc_items C c @ (if r = SendOk then [a] else [])"
    by (rule assms(1) [unfolded bounded_fifo_def, THEN conjunct2, THEN conjunct1, THEN spec, THEN spec])
  then show ?thesis using assms(2,3) by (auto split: if_splits)
qed

lemma recv_cases:
  assumes "bounded_fifo C" "mpsc_recv C c = Some (a, c')"
  shows "mpsc_items C c = a # mpsc_items C c'" "mpsc_capacity C c' = mpsc_capacity C c" "mpsc_closed C c' = mpsc_closed C c"
proof -
  have "case mpsc_recv C c of None \<Rightarrow> mpsc_items C c = []
        | Some (a, c') \<Rightarrow> mpsc_items C c = a # mpsc_items C c' \<and> mpsc_capacity C c' = mpsc_capacity C c
            \<and> (mpsc_closed C c' \<longleftrightarrow> mpsc_closed C c)"
    by (rule assms(1) [unfolded bounded_fifo_def, THEN conjunct2, THEN conjunct2, THEN spec])
  then show "mpsc_items C c = a # mpsc_items C c'" "mpsc_capacity C c' = mpsc_capacity C c" "mpsc_closed C c' = mpsc_closed C c"
    using assms(2) by auto
qed

lemma reserved_bound:
  "list_all (sender_ok limit lim) ss \<Longrightarrow> sum_list (map reserved ss) \<le> sum_list (map (granted bmax) ss) + length ss * limit"
  by (induction ss) (auto simp: sender_ok_def split: sender.splits)

lemma reserved_bound_idle:
  assumes "list_all (sender_ok limit lim) ss" "i < length ss" "reserved (ss ! i) = 0"
  shows "sum_list (map reserved ss) + limit \<le> sum_list (map (granted bmax) ss) + length ss * limit"
  using assms
proof (induction ss arbitrary: i)
  case (Cons pc ss)
  show ?case
  proof (cases i)
    case 0
    with Cons.prems show ?thesis using reserved_bound [of limit lim ss bmax] by simp
  next
    case (Suc j)
    moreover have "reserved pc \<le> granted bmax pc + limit" using Cons.prems(1) by (cases pc) (auto simp: sender_ok_def)
    ultimately show ?thesis using Cons.IH [of j] Cons.prems by simp
  qed
qed simp

lemma granted_le_reserved: "sum_list (map (granted bmax) ss) \<le> sum_list (map reserved ss)"
proof (induction ss)
  case (Cons pc ss)
  moreover have "granted bmax pc \<le> reserved pc" by (cases pc) auto
  ultimately show ?case by simp
qed simp

lemma member_le_sum: "i < length xs \<Longrightarrow> (f (xs ! i) :: nat) \<le> sum_list (map f xs)"
  by (simp add: member_le_sum_list)

lemma depth_balance:
  fixes d d' u u' p p' l l' r :: u64
  assumes "u' + p = u + p'" "d + u = l + r" "d' + p' + l = d + p + l'"
  shows "d' + u' = l' + r"
proof -
  have u: "u' = u + p' - p" by (simp add: assms(1) [symmetric])
  have d: "d' = d + p + l' - p' - l" using assms(3) by (simp add: algebra_simps)
  have "d' + u' = (d + u) - l + l'" unfolding u d by (simp add: algebra_simps)
  also have "\<dots> = l' + r" unfolding assms(2) by (simp add: algebra_simps)
  finally show ?thesis .
qed

lemma sender_update_inv:
  fixes s q i pc C
  defines "old \<equiv> qs_senders s ! i" and "q0 \<equiv> qs_queue s"
  assumes inv: "queue_inv C limit dmax bmax n s" and i: "i < n"
    and limits: "bytes_max (iq_metrics q) = bytes_max (iq_metrics q0)" "depth_max (iq_metrics q) = depth_max (iq_metrics q0)"
      "mpsc_capacity C (iq_chan q) = mpsc_capacity C (iq_chan q0)" "\<not> mpsc_closed C (iq_chan q)"
      "length (mpsc_items C (iq_chan q)) \<le> unat dmax"
    and ok: "sender_ok limit (2 ^ 64) pc"
    and bytes: "unat (bytes_current (iq_metrics q)) + reserved old + total (mpsc_items C (iq_chan q0))
      = unat (bytes_current (iq_metrics q0)) + reserved pc + total (mpsc_items C (iq_chan q))"
    and room: "total (mpsc_items C (iq_chan q)) + sum_list (map (granted bmax) (qs_senders s)) + granted bmax pc
      + undeducted (qs_receiver s) \<le> unat bmax + granted bmax old"
    and depth: "depth_current (iq_metrics q) + of_nat (uncounted pc) + of_nat (length (mpsc_items C (iq_chan q0)))
      = depth_current (iq_metrics q0) + of_nat (uncounted old) + of_nat (length (mpsc_items C (iq_chan q)))"
  shows "queue_inv C limit dmax bmax n (s\<lparr>qs_queue := q, qs_senders := (qs_senders s)[i := pc]\<rparr>)"
proof -
  let ?ss = "qs_senders s"
  have len: "i < length ?ss" using inv i by (simp add: queue_inv_def Let_def)
  note upd = sum_list_update [OF len, of reserved pc] sum_list_update [OF len, of "granted bmax" pc]
    sum_list_update [OF len, of uncounted pc]
  note le = member_le_sum [OF len, of reserved] member_le_sum [OF len, of "granted bmax"] member_le_sum [OF len, of uncounted]
  let ?u = "sum_list (map uncounted (?ss[i := pc]))"
  have "of_nat ?u + (of_nat (uncounted old) :: u64) = of_nat (sum_list (map uncounted ?ss)) + of_nat (uncounted pc)"
    unfolding of_nat_add [symmetric] old_def upd(3) ..
  moreover have "depth_current (iq_metrics q0) + of_nat (sum_list (map uncounted ?ss))
      = of_nat (length (mpsc_items C (iq_chan q0))) + of_nat (case qs_receiver s of Taken _ \<Rightarrow> 1 | _ \<Rightarrow> 0)"
    using inv unfolding queue_inv_def Let_def q0_def of_nat_add by blast
  ultimately have "depth_current (iq_metrics q) + of_nat ?u
      = of_nat (length (mpsc_items C (iq_chan q))) + of_nat (case qs_receiver s of Taken _ \<Rightarrow> 1 | _ \<Rightarrow> 0)"
    using depth by (rule depth_balance)
  then show ?thesis
    using inv limits ok bytes room upd(1,2) le list_all_update [of "sender_ok limit (2 ^ 64)" ?ss pc i]
    unfolding queue_inv_def Let_def q0_def old_def by simp
qed

lemma inv_facts:
  assumes "queue_inv C limit dmax bmax n s"
  shows "length (qs_senders s) = n" "bytes_max (iq_metrics (qs_queue s)) = bmax" "mpsc_capacity C (iq_chan (qs_queue s)) = unat dmax"
    "\<not> mpsc_closed C (iq_chan (qs_queue s))" "length (items C s) \<le> unat dmax" "list_all (sender_ok limit (2 ^ 64)) (qs_senders s)"
    "unat (bytes_current (iq_metrics (qs_queue s))) = total (items C s) + sum_list (map reserved (qs_senders s)) + undeducted (qs_receiver s)"
    "total (items C s) + sum_list (map (granted bmax) (qs_senders s)) + undeducted (qs_receiver s) \<le> unat bmax"
  using assms by (simp_all add: queue_inv_def Let_def)

lemma offer_inv:
  assumes inv: "queue_inv C limit dmax bmax n s" and i: "i < n" "qs_senders s ! i = Idle \<or> (\<exists>r. qs_senders s ! i = Done r)"
    and a: "alen a \<le> limit" and q: "sender_begin (qs_queue s) a = (q, pc)" and fits: "unat bmax + n * limit < 2 ^ 64"
  shows "queue_inv C limit dmax bmax n (s\<lparr>qs_queue := q, qs_senders := (qs_senders s)[i := pc]\<rparr>)"
proof (rule sender_update_inv [OF inv i(1)])
  note f = inv_facts [OF inv]
  let ?prev = "bytes_current (iq_metrics (qs_queue s))"
  have old: "reserved (qs_senders s ! i) = 0" "granted bmax (qs_senders s ! i) = 0" "uncounted (qs_senders s ! i) = 0"
    using i(2) by auto
  have pc: "q = add_bytes (of_nat (alen a)) (qs_queue s)" "pc = Reserved a ?prev" using q by (auto simp: sender_begin_def)
  have "unat ?prev + limit \<le> unat bmax + n * limit"
    using reserved_bound_idle [OF f(6) _ old(1), of bmax] i(1) f(1,7,8) by simp
  with fits a have lt: "unat ?prev + alen a < 2 ^ 64" by simp
  note added = unat_add_nat [OF lt]
  show "sender_ok limit (2 ^ 64) pc" using a lt by (simp add: pc sender_ok_def)
  show "unat (bytes_current (iq_metrics q)) + reserved (qs_senders s ! i) + total (items C s)
      = unat ?prev + reserved pc + total (mpsc_items C (iq_chan q))"
    using added old by (simp add: pc add_bytes_def)
  show "total (mpsc_items C (iq_chan q)) + sum_list (map (granted bmax) (qs_senders s)) + granted bmax pc + undeducted (qs_receiver s)
      \<le> unat bmax + granted bmax (qs_senders s ! i)"
    using f(7,8) old granted_le_reserved [of bmax "qs_senders s"] by (simp add: pc add_bytes_def)
  show "depth_current (iq_metrics q) + of_nat (uncounted pc) + of_nat (length (items C s))
      = depth_current (iq_metrics (qs_queue s)) + of_nat (uncounted (qs_senders s ! i)) + of_nat (length (mpsc_items C (iq_chan q)))"
    using old by (simp add: pc add_bytes_def)
qed (use inv_facts [OF inv] q in \<open>auto simp: sender_begin_def add_bytes_def\<close>)

lemma sender_ok_simps: "sender_ok limit lim Idle" "sender_ok limit lim SentOk" "sender_ok limit lim Refunded"
    "sender_ok limit lim Counted" "sender_ok limit lim (Done r)"
  by (simp_all add: sender_ok_def)

lemma send_inv:
  assumes C: "bounded_fifo C" and inv: "queue_inv C limit dmax bmax n s" and i: "i < n"
    and q: "sender_step C (qs_queue s) (qs_senders s ! i) = (q, pc)"
  shows "queue_inv C limit dmax bmax n (s\<lparr>qs_queue := q, qs_senders := (qs_senders s)[i := pc]\<rparr>)"
proof -
  note f = inv_facts [OF inv]
  let ?old = "qs_senders s ! i"
  have len: "i < length (qs_senders s)" using i f(1) by simp
  have ok: "sender_ok limit (2 ^ 64) ?old" using f(6) len by (simp add: list_all_length)
  have le: "reserved ?old \<le> unat (bytes_current (iq_metrics (qs_queue s)))" using member_le_sum [OF len, of reserved] f(7) by simp
  show ?thesis
  proof (cases ?old)
    case (Reserved a prev)
    have lt: "unat prev + alen a < 2 ^ 64" using ok Reserved by (simp add: sender_ok_def)
    show ?thesis
    proof (cases "unat prev + alen a > unat bmax")
      case True
      then have "q = add_bytes (- of_nat (alen a)) (qs_queue s)" "pc = Refunded"
        using q Reserved f(2) by (simp_all add: fits_iff [OF lt])
      then show ?thesis using f le Reserved True
        by (intro sender_update_inv [OF inv i]) (simp_all add: add_bytes_def sender_ok_def unat_sub_nat)
    next
      case False
      obtain r c where ts: "mpsc_try_send C (iq_chan (qs_queue s)) a = (r, c)" by fastforce
      note cases = try_send_cases [OF C f(4) ts]
      then have "q = (qs_queue s)\<lparr>iq_chan := c\<rparr>" "pc = (if r = SendOk then SentOk else NotSent a resp_436)"
        using q Reserved f(2) False ts by (auto simp: fits_iff [OF lt])
      then show ?thesis using f le Reserved False cases ok
        by (intro sender_update_inv [OF inv i]) (auto simp: sender_ok_def)
    qed
  next
    case (NotSent a r)
    with q have "q = add_bytes (- of_nat (alen a)) (qs_queue s)" "pc = Refunded \<or> (\<exists>r. pc = Done r)" by (auto split: if_splits)
    with f le NotSent show ?thesis
      by (intro sender_update_inv [OF inv i]) (auto simp: add_bytes_def sender_ok_def unat_sub_nat)
  qed (use f q ok in \<open>intro sender_update_inv [OF inv i]; auto simp: queue_ops sender_ok_simps\<close>)+
qed

lemma receive_inv:
  assumes C: "bounded_fifo C" and inv: "queue_inv C limit dmax bmax n s"
    and q: "receiver_step C (qs_queue s) (qs_receiver s) = Some (q, pc)"
  shows "queue_inv C limit dmax bmax n (s\<lparr>qs_queue := q, qs_receiver := pc\<rparr>)"
proof -
  have take: ?thesis if nt: "\<forall>a. qs_receiver s \<noteq> Taken a \<and> qs_receiver s \<noteq> Uncounted a"
  proof -
    have "undeducted (qs_receiver s) = 0" "(case qs_receiver s of Taken _ \<Rightarrow> 1 | _ \<Rightarrow> 0) = (0 :: nat)"
      using nt by (cases "qs_receiver s"; simp)+
    moreover obtain a c where r: "mpsc_recv C (iq_chan (qs_queue s)) = Some (a, c)"
      and pc: "q = (qs_queue s)\<lparr>iq_chan := c\<rparr>" "pc = Taken a"
      using q nt by (cases "qs_receiver s") (auto split: option.splits)
    ultimately show ?thesis using inv recv_cases [OF C r] unfolding queue_inv_def Let_def by simp
  qed
  show ?thesis
  proof (cases "qs_receiver s")
    case (Taken a)
    with q have "q = add_depth (- 1) (qs_queue s)" "pc = Uncounted a" by simp_all
    with Taken inv show ?thesis unfolding queue_inv_def Let_def by (simp add: add_depth_def algebra_simps)
  next
    case (Uncounted a)
    with q have "q = add_bytes (- of_nat (alen a)) (qs_queue s)" "pc = Got a" by simp_all
    with Uncounted inv show ?thesis unfolding queue_inv_def Let_def by (simp add: add_bytes_def unat_sub_nat)
  qed (use take in simp_all)
qed

lemma queue_step_inv:
  assumes "bounded_fifo C" "unat bmax + n * limit < 2 ^ 64" "queue_step C limit s e t" "queue_inv C limit dmax bmax n s"
  shows "queue_inv C limit dmax bmax n t"
  using assms(3,4)
proof cases
  case (offer i a q pc)
  with assms(2,4) inv_facts(1) [OF assms(4)] show ?thesis by (auto intro: offer_inv)
next
  case (send i q pc)
  with assms(1,4) inv_facts(1) [OF assms(4)] show ?thesis by (auto intro: send_inv)
next
  case (receive q pc)
  with assms(1,4) show ?thesis by (auto intro: receive_inv)
qed

lemma queue_start_inv:
  assumes "bounded_fifo C" "0 < unat dmax"
  shows "queue_inv C limit dmax bmax n (queue_start C dmax bmax n)"
proof -
  have "mpsc_items C (mpsc_channel C (unat dmax)) = []" "mpsc_capacity C (mpsc_channel C (unat dmax)) = unat dmax"
    "\<not> mpsc_closed C (mpsc_channel C (unat dmax))"
    using assms unfolding bounded_fifo_def by blast+
  then show ?thesis
    by (simp add: queue_inv_def queue_start_def ingestion_queue_def metrics_new_def sum_list_replicate sender_ok_simps list_all_iff)
qed

lemma queue_run_inv:
  assumes "bounded_fifo C" "0 < unat dmax" "unat bmax + n * limit < 2 ^ 64" "queue_run C limit (queue_start C dmax bmax n) evs s"
  shows "queue_inv C limit dmax bmax n s"
  using assms(4)
proof (induction "queue_start C dmax bmax n" evs s rule: queue_run.induct)
  case stop
  show ?case by (rule queue_start_inv [OF assms(1,2)])
next
  case (step evs t e u)
  then show ?case using queue_step_inv [OF assms(1,3)] by blast
qed

section \<open>What the queue implements\<close>

text \<open>The specification: a queue of at most \<^verbatim>\<open>cap\<close> articles with at most \<^verbatim>\<open>bmax\<close> bytes in all, first in, first out.\<close>

inductive fifo_run :: "nat \<Rightarrow> nat \<Rightarrow> queue_event list \<Rightarrow> queued_article list \<Rightarrow> bool" for cap bmax where
  start: "fifo_run cap bmax [] []"
| put: "fifo_run cap bmax evs xs \<Longrightarrow> length xs < cap \<Longrightarrow> total xs + alen a \<le> bmax \<Longrightarrow> fifo_run cap bmax (evs @ [Sent a]) (xs @ [a])"
| get: "fifo_run cap bmax evs (a # xs) \<Longrightarrow> fifo_run cap bmax (evs @ [Received a]) xs"

abbreviation visible :: "queue_event list \<Rightarrow> queue_event list" where
  "visible \<equiv> filter (\<lambda>e. e \<noteq> Internal)"

lemma step_not_reserved:
  "\<forall>a prev. pc0 \<noteq> Reserved a prev \<Longrightarrow> sender_step C q0 pc0 = (q, pc) \<Longrightarrow> sender_event pc0 pc = Internal \<and> iq_chan q = iq_chan q0"
  by (cases pc0) (auto simp: queue_ops)

lemma send_event_spec:
  assumes C: "bounded_fifo C" and inv: "queue_inv C limit dmax bmax n s" and i: "i < n"
    and q: "sender_step C (qs_queue s) (qs_senders s ! i) = (q, pc)"
  shows "(sender_event (qs_senders s ! i) pc = Internal \<and> mpsc_items C (iq_chan q) = items C s)
    \<or> (\<exists>a. sender_event (qs_senders s ! i) pc = Sent a \<and> length (items C s) < unat dmax \<and> total (items C s) + alen a \<le> unat bmax
        \<and> mpsc_items C (iq_chan q) = items C s @ [a])"
proof (cases "\<exists>a prev. qs_senders s ! i = Reserved a prev")
  case True
  then obtain a prev where Reserved: "qs_senders s ! i = Reserved a prev" by blast
  note f = inv_facts [OF inv]
  have len: "i < length (qs_senders s)" using i f(1) by simp
  have "sender_ok limit (2 ^ 64) (qs_senders s ! i)" using f(6) len by (simp add: list_all_length)
  then have lt: "unat prev + alen a < 2 ^ 64" using Reserved by (simp add: sender_ok_def)
  show ?thesis
  proof (cases "unat prev + alen a > unat bmax")
    case True
    then show ?thesis using q Reserved f(2) by (auto simp: fits_iff [OF lt] add_bytes_def)
  next
    case False
    obtain r c where ts: "mpsc_try_send C (iq_chan (qs_queue s)) a = (r, c)" by fastforce
    have "alen a \<le> sum_list (map (granted bmax) (qs_senders s))"
      using member_le_sum [OF len, of "granted bmax"] Reserved False by simp
    then have "total (items C s) + alen a \<le> unat bmax" using f(8) by simp
    with try_send_cases [OF C f(4) ts] q Reserved f(2,3) False ts show ?thesis by (auto simp: fits_iff [OF lt])
  qed
next
  case False
  then show ?thesis using step_not_reserved [OF _ q] by auto
qed

lemma receive_event_spec:
  assumes "bounded_fifo C" "receiver_step C (qs_queue s) (qs_receiver s) = Some (q, pc)"
  shows "(receiver_event pc = Internal \<and> mpsc_items C (iq_chan q) = items C s)
    \<or> (\<exists>a. receiver_event pc = Received a \<and> items C s = a # mpsc_items C (iq_chan q))"
proof (cases "qs_receiver s")
  case (Taken a)
  with assms(2) show ?thesis by (auto simp: add_depth_def)
next
  case (Uncounted a)
  with assms(2) show ?thesis by (auto simp: add_bytes_def)
qed (use assms(2) recv_cases(1) [OF assms(1)] in \<open>auto split: option.splits\<close>)

text \<open>
  C26. The ingestion queue is a bounded FIFO whatever the interleaving: any number of sessions inside
  \<^verbatim>\<open>try_enqueue\<close> and the receiver, stopped between any two of their atomic operations, put and take
  articles as one queue would that holds at most the configured number of articles and bytes. No
  article is lost, duplicated or reordered, and neither limit is ever exceeded.
\<close>

theorem queue_refines_bounded_fifo:
  assumes "bounded_fifo C" "0 < unat dmax" "unat bmax + sessions * limit < 2 ^ 64"
    "queue_run C limit (queue_start C dmax bmax sessions) evs s"
  shows "fifo_run (unat dmax) (unat bmax) (visible evs) (mpsc_items C (iq_chan (qs_queue s)))"
  using assms(4)
proof (induction "queue_start C dmax bmax sessions" evs s rule: queue_run.induct)
  case stop
  have "mpsc_items C (mpsc_channel C (unat dmax)) = []" using assms(1,2) unfolding bounded_fifo_def by blast
  then show ?case by (simp add: queue_start_def ingestion_queue_def fifo_run.start)
next
  case (step evs t e u)
  have inv: "queue_inv C limit dmax bmax sessions t" by (rule queue_run_inv [OF assms(1-3) step(1)])
  from step(3) show ?case
  proof cases
    case (offer i a q pc)
    with step(2) show ?thesis by (auto simp: sender_begin_def add_bytes_def)
  next
    case (send i q pc)
    with step(2) send_event_spec [OF assms(1) inv _ send(4)] inv_facts(1) [OF inv] show ?thesis
      by (auto intro: fifo_run.put)
  next
    case (receive q pc)
    with step(2) receive_event_spec [OF assms(1) receive(3)] show ?thesis by (auto intro: fifo_run.get)
  qed
qed

text \<open>A concrete channel: its capacity and its articles.\<close>

definition demo_mpsc :: "(nat \<times> queued_article list) mpsc" where
  "demo_mpsc = \<lparr>mpsc_channel = (\<lambda>n. (n, [])),
     mpsc_try_send = (\<lambda>(n, xs) a. if length xs < n then (SendOk, (n, xs @ [a])) else (SendFull, (n, xs))),
     mpsc_recv = (\<lambda>(n, xs). case xs of [] \<Rightarrow> None | a # ys \<Rightarrow> Some (a, (n, ys))),
     mpsc_items = snd, mpsc_capacity = fst, mpsc_closed = (\<lambda>_. False)\<rparr>"

lemma demo_bounded_fifo: "bounded_fifo demo_mpsc"
  by (auto simp: bounded_fifo_def demo_mpsc_def split: list.splits)

abbreviation demo_queued :: queued_article where
  "demo_queued \<equiv> \<lparr>qa_bytes = ''text'', qa_message_id = ''<a@b>''\<rparr>"

lemma demo_run:
  "\<exists>s. queue_run demo_mpsc 10 (queue_start demo_mpsc 2 100 1) [Internal, Sent demo_queued, Internal, Internal] s
    \<and> mpsc_items demo_mpsc (iq_chan (qs_queue s)) = [demo_queued] \<and> qs_senders s = [Done (Inr ())] \<and> qs_receiver s = Waiting"
proof -
  let ?q = "ingestion_queue demo_mpsc 2 100" and ?C = demo_mpsc
  define s0 where "s0 = queue_start ?C 2 100 1"
  define s1 where "s1 = s0\<lparr>qs_queue := add_bytes 4 ?q, qs_senders := [Reserved demo_queued 0]\<rparr>"
  define s2 where "s2 = s1\<lparr>qs_queue := (add_bytes 4 ?q)\<lparr>iq_chan := (2, [demo_queued])\<rparr>, qs_senders := [SentOk]\<rparr>"
  define s3 where "s3 = s2\<lparr>qs_queue := add_depth 1 (qs_queue s2), qs_senders := [Counted]\<rparr>"
  define s4 where "s4 = s3\<lparr>qs_queue := add_accepted (qs_queue s3), qs_senders := [Done (Inr ())]\<rparr>"
  note defs = queue_start_def ingestion_queue_def metrics_new_def sender_begin_def demo_mpsc_def add_bytes_def
  have "queue_step ?C 10 s0 Internal s1"
    using queue_step.offer [of 0 s0 demo_queued 10 "add_bytes 4 ?q" "Reserved demo_queued 0" ?C] by (simp add: s0_def s1_def defs)
  moreover have "queue_step ?C 10 s1 (Sent demo_queued) s2"
    using queue_step.send [of 0 s1 ?C "(add_bytes 4 ?q)\<lparr>iq_chan := (2, [demo_queued])\<rparr>" SentOk 10] by (simp add: s0_def s1_def s2_def defs)
  moreover have "queue_step ?C 10 s2 Internal s3"
    using queue_step.send [of 0 s2 ?C "add_depth 1 (qs_queue s2)" Counted 10] by (simp add: s0_def s1_def s2_def s3_def)
  moreover have "queue_step ?C 10 s3 Internal s4"
    using queue_step.send [of 0 s3 ?C "add_accepted (qs_queue s3)" "Done (Inr ())" 10] by (simp add: s0_def s1_def s2_def s3_def s4_def)
  ultimately have "queue_run ?C 10 s0 (((([] @ [Internal]) @ [Sent demo_queued]) @ [Internal]) @ [Internal]) s4"
    by (blast intro: queue_run.intros)
  then show ?thesis
    by (intro exI [of _ s4]) (simp add: s0_def s1_def s2_def s3_def s4_def queue_start_def add_depth_def add_accepted_def demo_mpsc_def)
qed

theorem queue_refines_bounded_fifo_witness:
  "\<exists>s. queue_run demo_mpsc 10 (queue_start demo_mpsc 2 100 1) [Internal, Sent demo_queued, Internal, Internal] s
    \<and> fifo_run 2 100 [Sent demo_queued] (mpsc_items demo_mpsc (iq_chan (qs_queue s)))"
proof -
  obtain s where s: "queue_run demo_mpsc 10 (queue_start demo_mpsc 2 100 1) [Internal, Sent demo_queued, Internal, Internal] s"
    using demo_run by blast
  from queue_refines_bounded_fifo [OF demo_bounded_fifo _ _ this] s show ?thesis by auto
qed

section \<open>At rest\<close>

definition quiescent :: "'c queue_system \<Rightarrow> bool" where
  "quiescent s \<longleftrightarrow> (\<forall>pc \<in> set (qs_senders s). pc = Idle \<or> (\<exists>r. pc = Done r)) \<and> (qs_receiver s = Waiting \<or> (\<exists>a. qs_receiver s = Got a))"

lemma quiescent_sums:
  assumes "quiescent s"
  shows "sum_list (map reserved (qs_senders s)) = 0" "sum_list (map uncounted (qs_senders s)) = 0"
    "undeducted (qs_receiver s) = 0" "(case qs_receiver s of Taken _ \<Rightarrow> 1 | _ \<Rightarrow> 0) = (0 :: nat)"
proof -
  have "reserved pc = 0 \<and> uncounted pc = 0" if "pc \<in> set (qs_senders s)" for pc
    using assms that by (auto simp: quiescent_def)
  then show "sum_list (map reserved (qs_senders s)) = 0" "sum_list (map uncounted (qs_senders s)) = 0" by simp_all
  show "undeducted (qs_receiver s) = 0" "(case qs_receiver s of Taken _ \<Rightarrow> 1 | _ \<Rightarrow> 0) = (0 :: nat)"
    using assms by (auto simp: quiescent_def)
qed

text \<open>
  When no session is inside \<^verbatim>\<open>try_enqueue\<close> and the receiver is not inside \<^verbatim>\<open>recv\<close>, the counters are
  exact, whatever interleaving led there: the depth is the number of queued articles and the byte
  count their total size, both within their limits, with no reservation leaked and no wrap-around
  left. The next article is then accepted exactly when it fits both limits.
\<close>

lemma queue_counters_settle:
  assumes "bounded_fifo C" "0 < unat dmax" "0 < sessions" "unat bmax + sessions * limit < 2 ^ 64"
    "queue_run C limit (queue_start C dmax bmax sessions) evs s" "quiescent s" "alen a \<le> limit"
  shows "unat (depth_current (iq_metrics (qs_queue s))) = length (mpsc_items C (iq_chan (qs_queue s)))
    \<and> unat (bytes_current (iq_metrics (qs_queue s))) = total (mpsc_items C (iq_chan (qs_queue s)))
    \<and> length (mpsc_items C (iq_chan (qs_queue s))) \<le> unat dmax \<and> total (mpsc_items C (iq_chan (qs_queue s))) \<le> unat bmax
    \<and> (fst (try_enqueue C (qs_queue s) a) = Inr () \<longleftrightarrow>
         length (mpsc_items C (iq_chan (qs_queue s))) < unat dmax \<and> total (mpsc_items C (iq_chan (qs_queue s))) + alen a \<le> unat bmax)"
proof -
  have inv: "queue_inv C limit dmax bmax sessions s" by (rule queue_run_inv [OF assms(1,2,4,5)])
  note f = inv_facts [OF inv]
  let ?m = "iq_metrics (qs_queue s)" and ?c = "iq_chan (qs_queue s)"
  have depth: "depth_current ?m = of_nat (length (mpsc_items C ?c))"
    using inv quiescent_sums [OF assms(6)] unfolding queue_inv_def Let_def by simp
  have "unat dmax < 2 ^ 64" by (rule order_less_le_trans [OF unsigned_less]) simp
  then have d: "unat (depth_current ?m) = length (mpsc_items C ?c)" using f(5) by (simp add: depth unat_of_nat)
  have b: "unat (bytes_current ?m) = total (mpsc_items C ?c)" using f(7) quiescent_sums [OF assms(6)] by simp
  have t: "total (mpsc_items C ?c) \<le> unat bmax" using f(8) by simp
  have "limit \<le> sessions * limit" using assms(3) by simp
  with assms(4,7) t have lt: "unat (bytes_current ?m) + alen a < 2 ^ 64" unfolding b by linarith
  obtain r c where ts: "mpsc_try_send C ?c a = (r, c)" by fastforce
  have full: "r = SendOk \<longleftrightarrow> length (mpsc_items C ?c) < unat dmax"
  proof -
    have "r = (if mpsc_closed C ?c then SendClosed else if length (mpsc_items C ?c) < mpsc_capacity C ?c then SendOk else SendFull)"
      using assms(1) [unfolded bounded_fifo_def, THEN conjunct2, THEN conjunct1, THEN spec, THEN spec, of ?c a] ts by simp
    then show ?thesis using f(3,4) by simp
  qed
  have "fst (try_enqueue C (qs_queue s) a) = Inr () \<longleftrightarrow> \<not> unat (bytes_current ?m) + alen a > unat bmax \<and> r = SendOk"
    using f(2) ts by (simp add: try_enqueue_def Let_def add_bytes_def fits_iff [OF lt] split: send_result.split)
  then show ?thesis using d b t f(5) full by (auto simp: not_less)
qed

section \<open>The depth counter between two steps\<close>

text \<open>
  The receiver may deduct an article before the session that sent it has counted it: the depth then
  reads as the largest value of its type, and \<^verbatim>\<open>is_full\<close> holds of a queue that is empty.
\<close>

lemma depth_wraps:
  assumes "mpsc_try_send C (iq_chan q) a = (SendOk, c)" "mpsc_recv C c = Some (b, c')" "depth_current (iq_metrics q) = 0"
    "bytes_current (iq_metrics q) + of_nat (alen a) \<le> bytes_max (iq_metrics q)"
  shows "\<exists>q1 q2 q3 q4. sender_begin q a = (q1, Reserved a (bytes_current (iq_metrics q))) \<and> sender_step C q1 (Reserved a (bytes_current (iq_metrics q))) = (q2, SentOk)
    \<and> receiver_step C q2 Waiting = Some (q3, Taken b) \<and> receiver_step C q3 (Taken b) = Some (q4, Uncounted b)
    \<and> depth_current (iq_metrics q4) = - 1 \<and> is_full (iq_metrics q4)"
  using assms by (simp add: sender_begin_def add_bytes_def add_depth_def is_full_def not_less)

end
