(* ===== verification/Staging.thy ===== *)
theory Staging
  imports SqliteLog
begin

text \<open>
  The write-ahead staging area of the transit daemon (\<^verbatim>\<open>crates/transit/src/staging.rs\<close>, its table
  \<^verbatim>\<open>transit_staging\<close>, and the drain workers of \<^verbatim>\<open>main.rs\<close>). The state is the table and the files of the
  staging directory. Each operation runs in one write transaction. Random identifiers and clock
  readings are arguments; failures of the disk and of the database engine are left out, except a
  missing file and a violated uniqueness constraint.
\<close>

section \<open>State\<close>

record staging_config =
  sc_path :: bytes
  sc_max_bytes :: u64
  sc_max_entries :: u64
  sc_drain_workers :: u32

record staged_row =
  st_id :: bytes
  st_message_id :: bytes
  st_file_path :: bytes
  st_received_at :: int
  st_byte_size :: int
  st_claimed_at :: "int option"
  st_retry_count :: int

datatype staging_error = StagingDb bytes | StagingIo

record staged_article =
  sa_id :: bytes
  sa_message_id :: bytes
  sa_bytes :: bytes
  sa_file_path :: bytes

record staging =
  sg_rows :: "staged_row list"
  sg_files :: "(bytes \<times> bytes) list"

definition default_max_bytes :: u64 where
  "default_max_bytes = 5 * 1024 * 1024 * 1024"

definition default_max_entries :: u64 where
  "default_max_entries = 500000"

definition default_drain_workers :: u32 where
  "default_drain_workers = 1"

section \<open>Files\<close>

text \<open>\<^verbatim>\<open>PathBuf::join\<close> of a directory and a plain name.\<close>

definition dir_prefix :: "bytes \<Rightarrow> bytes" where
  "dir_prefix p = (if p = [] \<or> last p = CHR ''/'' then p else p @ ''/'')"

definition path_join :: "bytes \<Rightarrow> bytes \<Rightarrow> bytes" where
  "path_join p name = dir_prefix p @ name"

definition fs_remove :: "bytes \<Rightarrow> (bytes \<times> bytes) list \<Rightarrow> (bytes \<times> bytes) list" where
  "fs_remove p files = filter (\<lambda>e. fst e \<noteq> p) files"

definition fs_write :: "bytes \<Rightarrow> bytes \<Rightarrow> (bytes \<times> bytes) list \<Rightarrow> (bytes \<times> bytes) list" where
  "fs_write p b files = (p, b) # fs_remove p files"

section \<open>Operations\<close>

definition rows_bytes :: "staged_row list \<Rightarrow> int" where
  "rows_bytes rows = sum_list (map st_byte_size rows)"

definition try_stage ::
  "sqlx \<Rightarrow> staging_config \<Rightarrow> staging \<Rightarrow> bytes \<Rightarrow> int \<Rightarrow> bytes \<Rightarrow> bytes \<Rightarrow> (staging_error + bool) \<times> staging" where
  "try_stage q config st new_id now_secs message_id bs =
     (let file_path = path_join (sc_path config) new_id;
          st = st\<lparr>sg_files := fs_write file_path bs (sg_files st)\<rparr>;
          undone = st\<lparr>sg_files := fs_remove file_path (sg_files st)\<rparr>
      in if of_nat (length (sg_rows st)) \<ge> sc_max_entries config then (Inr False, undone)
         else if word_of_int (rows_bytes (sg_rows st)) + of_nat (length bs) > sc_max_bytes config then (Inr False, undone)
         else if \<exists>r \<in> set (sg_rows st). st_id r = new_id \<or> st_message_id r = message_id
         then (Inl (StagingDb (unique_violation_text q)), undone)
         else (Inr True, st\<lparr>sg_rows := sg_rows st @ [\<lparr>st_id = new_id, st_message_id = message_id, st_file_path = file_path,
                 st_received_at = now_secs, st_byte_size = int (length bs), st_claimed_at = None, st_retry_count = 0\<rparr>]\<rparr>))"

text \<open>\<^verbatim>\<open>WHERE claimed_at IS NULL ORDER BY received_at ASC LIMIT 1\<close>: among equal times the engine chooses.\<close>

definition oldest_unclaimed :: "sqlx \<Rightarrow> staged_row list \<Rightarrow> staged_row option" where
  "oldest_unclaimed q rows =
     (let free = filter (\<lambda>r. st_claimed_at r = None) rows;
          oldest = filter (\<lambda>r. \<forall>r' \<in> set free. st_received_at r \<le> st_received_at r') free
      in case scan_rows q (map st_id oldest) of
           [] \<Rightarrow> None
         | i # _ \<Rightarrow> find (\<lambda>r. st_id r = i) oldest)"

definition update_row :: "bytes \<Rightarrow> (staged_row \<Rightarrow> staged_row) \<Rightarrow> staged_row list \<Rightarrow> staged_row list" where
  "update_row i f rows = map (\<lambda>r. if st_id r = i then f r else r) rows"

definition drain_one :: "sqlx \<Rightarrow> staging \<Rightarrow> int \<Rightarrow> (staging_error + staged_article option) \<times> staging" where
  "drain_one q st now_secs =
     (case oldest_unclaimed q (sg_rows st) of
        None \<Rightarrow> (Inr None, st)
      | Some row \<Rightarrow>
          let st = st\<lparr>sg_rows := update_row (st_id row) (\<lambda>r. r\<lparr>st_claimed_at := Some now_secs\<rparr>) (sg_rows st)\<rparr>
          in case map_of (sg_files st) (st_file_path row) of
               None \<Rightarrow> (Inl StagingIo, st)
             | Some bs \<Rightarrow> (Inr (Some \<lparr>sa_id = st_id row, sa_message_id = st_message_id row, sa_bytes = bs,
                   sa_file_path = st_file_path row\<rparr>), st))"

definition reset_claims :: "staging \<Rightarrow> staging" where
  "reset_claims st = st\<lparr>sg_rows := map (\<lambda>r. r\<lparr>st_claimed_at := None\<rparr>) (sg_rows st)\<rparr>"

definition orphaned :: "staging_config \<Rightarrow> staged_row list \<Rightarrow> bytes \<Rightarrow> bool" where
  "orphaned config rows p =
     (case strip_prefix (dir_prefix (sc_path config)) p of
        None \<Rightarrow> False
      | Some name \<Rightarrow> CHR ''/'' \<notin> set name \<and> name \<notin> set (map st_id rows))"

definition cleanup_orphaned_files :: "staging_config \<Rightarrow> staging \<Rightarrow> nat \<times> staging" where
  "cleanup_orphaned_files config st =
     (length (filter (\<lambda>e. orphaned config (sg_rows st) (fst e)) (sg_files st)),
      st\<lparr>sg_files := filter (\<lambda>e. \<not> orphaned config (sg_rows st) (fst e)) (sg_files st)\<rparr>)"

definition complete :: "staging \<Rightarrow> staged_article \<Rightarrow> staging" where
  "complete st article = st\<lparr>sg_files := fs_remove (sa_file_path article) (sg_files st),
     sg_rows := filter (\<lambda>r. st_id r \<noteq> sa_id article) (sg_rows st)\<rparr>"

definition purge :: "staging \<Rightarrow> staged_article \<Rightarrow> staging" where
  "purge st article = st\<lparr>sg_files := fs_remove (sa_file_path article) (sg_files st),
     sg_rows := filter (\<lambda>r. st_id r \<noteq> sa_id article) (sg_rows st)\<rparr>"

definition increment_retry_count :: "staging \<Rightarrow> staged_article \<Rightarrow> (staging_error + int) \<times> staging" where
  "increment_retry_count st article =
     (case find (\<lambda>r. st_id r = sa_id article) (sg_rows st) of
        None \<Rightarrow> (Inl (StagingDb ''no rows returned''), st)
      | Some row \<Rightarrow> (Inr (st_retry_count row + 1),
          st\<lparr>sg_rows := update_row (sa_id article) (\<lambda>r. r\<lparr>st_retry_count := st_retry_count r + 1, st_claimed_at := None\<rparr>) (sg_rows st)\<rparr>))"

definition pending_count :: "staging \<Rightarrow> nat" where
  "pending_count st = length (sg_rows st)"

section \<open>The drain workers\<close>

datatype pipeline_outcome = Success | PermanentFailure | TransientFailure

definition MAX_STAGING_RETRIES :: int where
  "MAX_STAGING_RETRIES = 10"

text \<open>What a worker does with an article the pipeline has run on.\<close>

definition finish_article :: "staging \<Rightarrow> staged_article \<Rightarrow> pipeline_outcome \<Rightarrow> staging" where
  "finish_article st article outcome =
     (case outcome of
        Success \<Rightarrow> complete st article
      | PermanentFailure \<Rightarrow> purge st article
      | TransientFailure \<Rightarrow>
          (case increment_retry_count st article of
             (Inr new_count, st) \<Rightarrow> if new_count \<ge> MAX_STAGING_RETRIES then purge st article else st
           | (Inl _, st) \<Rightarrow> st))"

text \<open>One round of a worker alone; \<^verbatim>\<open>run\<close> is the pipeline.\<close>

definition drain_round :: "sqlx \<Rightarrow> (staged_article \<Rightarrow> pipeline_outcome) \<Rightarrow> staging \<Rightarrow> int \<Rightarrow> staging" where
  "drain_round q run st now_secs =
     (case drain_one q st now_secs of
        (Inr (Some article), st) \<Rightarrow> finish_article st article (run article)
      | (_, st) \<Rightarrow> st)"

text \<open>Start-up: claims of the last run are cleared, then files without a row are removed.\<close>

definition staging_restart :: "staging_config \<Rightarrow> staging \<Rightarrow> staging" where
  "staging_restart config st = snd (cleanup_orphaned_files config (reset_claims st))"

section \<open>Files and rows\<close>

lemma map_of_fs_remove [simp]: "map_of (fs_remove p files) p' = (if p' = p then None else map_of files p')"
  by (induction files) (auto simp: fs_remove_def)

lemma map_of_fs_write [simp]: "map_of (fs_write p b files) p' = (if p' = p then Some b else map_of files p')"
  by (simp add: fs_write_def)

lemma path_join_eq [simp]: "path_join p i = path_join p j \<longleftrightarrow> i = j"
  by (simp add: path_join_def)

lemma strip_own_prefix: "strip_prefix p (p @ s) = Some s"
  by (induction p) simp_all

lemma update_row_field [simp]:
  "(\<And>r. g (f r) = g r) \<Longrightarrow> map g (update_row i f rows) = map g rows"
  by (auto simp: update_row_def)

lemma set_update_row: "set (update_row i f rows) = (\<lambda>r. if st_id r = i then f r else r) ` set rows"
  by (simp add: update_row_def)

lemma length_update_row [simp]: "length (update_row i f rows) = length rows"
  by (simp add: update_row_def)

lemma same_id_same_row: "distinct (map st_id rows) \<Longrightarrow> r \<in> set rows \<Longrightarrow> r' \<in> set rows \<Longrightarrow> st_id r = st_id r' \<Longrightarrow> r = r'"
  by (simp add: distinct_map inj_on_def)

lemma find_id:
  assumes "distinct (map st_id rows)" "r \<in> set rows"
  shows "find (\<lambda>x. st_id x = st_id r) rows = Some r"
proof -
  obtain x where x: "find (\<lambda>x. st_id x = st_id r) rows = Some x"
    using assms(2) by (cases "find (\<lambda>x. st_id x = st_id r) rows") (auto simp: find_None_iff)
  then have "x \<in> set rows" "st_id x = st_id r" by (auto simp: find_Some_iff)
  with assms have "x = r" using same_id_same_row by blast
  with x show ?thesis by simp
qed

lemma oldest_unclaimed_Some:
  assumes "scan_permutes q" "oldest_unclaimed q rows = Some row"
  shows "row \<in> set rows" "st_claimed_at row = None" "\<forall>r \<in> set rows. st_claimed_at r = None \<longrightarrow> st_received_at row \<le> st_received_at r"
  using assms(2) by (auto simp: oldest_unclaimed_def Let_def find_Some_iff split: list.splits dest: nth_mem)

lemma oldest_exists:
  assumes "scan_permutes q" "r \<in> set rows" "st_claimed_at r = None"
  shows "\<exists>row. oldest_unclaimed q rows = Some row"
proof -
  let ?free = "filter (\<lambda>r. st_claimed_at r = None) rows"
  define old where "old = filter (\<lambda>r. \<forall>r' \<in> set ?free. st_received_at r \<le> st_received_at r') ?free"
  have free: "?free \<noteq> []" using assms(2,3) by (auto simp: filter_empty_conv)
  let ?m = "Min (st_received_at ` set ?free)"
  have "?m \<in> st_received_at ` set ?free" using free by (intro Min_in) (auto simp: filter_empty_conv)
  then obtain x where "x \<in> set ?free" "st_received_at x = ?m" by auto
  moreover have "?m \<le> st_received_at r'" if "r' \<in> set ?free" for r' using that by (intro Min_le) auto
  ultimately have "x \<in> set old" by (auto simp: old_def)
  moreover have scan: "set (scan_rows q (map st_id old)) = st_id ` set old" using scan_set [OF assms(1)] by simp
  ultimately obtain i js where i: "scan_rows q (map st_id old) = i # js" by (cases "scan_rows q (map st_id old)") auto
  with scan have "i \<in> st_id ` set old" by auto
  then have "find (\<lambda>r. st_id r = i) old \<noteq> None" by (auto simp: find_None_iff)
  moreover have "oldest_unclaimed q rows = find (\<lambda>r. st_id r = i) old"
    by (simp only: oldest_unclaimed_def Let_def old_def [symmetric] i list.case)
  ultimately show ?thesis by simp
qed

section \<open>The invariant\<close>

definition staged_ok :: "staging_config \<Rightarrow> (bytes \<times> bytes) list \<Rightarrow> staged_row \<Rightarrow> bool" where
  "staged_ok config files r \<longleftrightarrow> st_file_path r = path_join (sc_path config) (st_id r) \<and> CHR ''/'' \<notin> set (st_id r)
     \<and> (\<exists>b. map_of files (st_file_path r) = Some b \<and> st_byte_size r = int (length b))
     \<and> 0 \<le> st_retry_count r \<and> st_retry_count r < MAX_STAGING_RETRIES"

definition staging_ok :: "staging_config \<Rightarrow> staging \<Rightarrow> bool" where
  "staging_ok config st \<longleftrightarrow> distinct (map st_id (sg_rows st)) \<and> distinct (map st_message_id (sg_rows st))
     \<and> (\<forall>r \<in> set (sg_rows st). staged_ok config (sg_files st) r)
     \<and> length (sg_rows st) \<le> unat (sc_max_entries config) \<and> rows_bytes (sg_rows st) \<le> uint (sc_max_bytes config)"

lemma rows_bytes_nonneg: "\<forall>r \<in> set rows. staged_ok config files r \<Longrightarrow> 0 \<le> rows_bytes rows"
  unfolding rows_bytes_def by (induction rows) (force simp: staged_ok_def)+

lemma rows_bytes_filter: "\<forall>r \<in> set rows. staged_ok config files r \<Longrightarrow> rows_bytes (filter P rows) \<le> rows_bytes rows"
  unfolding rows_bytes_def by (induction rows) (force simp: staged_ok_def)+

lemma staged_ok_write:
  assumes "staged_ok config files r" "st_id r \<noteq> i"
  shows "staged_ok config (fs_write (path_join (sc_path config) i) b files) r" "staged_ok config (fs_remove (path_join (sc_path config) i) files) r"
  using assms by (auto simp: staged_ok_def)

lemma fs_remove_write: "fs_remove p (fs_write p b files) = fs_remove p files"
  by (simp add: fs_write_def fs_remove_def)

lemma unat_less_64: "unat (w :: u64) < 2 ^ 64"
  by (rule order_less_le_trans [OF unsigned_less]) simp

lemma uint_less_64: "uint (w :: u64) < 2 ^ 64"
  by (rule order_less_le_trans [OF unsigned_less]) simp

lemma try_stage_ok [inv_intros]:
  assumes ok: "staging_ok config st" and fresh: "i \<notin> set (map st_id (sg_rows st))" "CHR ''/'' \<notin> set i"
    and limit: "uint (sc_max_bytes config) + int (length bs) < 2 ^ 64" and ts: "try_stage q config st i now m bs = (r, st')"
  shows "staging_ok config st'" "r = Inr True \<longleftrightarrow> sg_rows st' \<noteq> sg_rows st"
    "sg_rows st' = sg_rows st \<or> (\<exists>x. sg_rows st' = sg_rows st @ [x] \<and> st_claimed_at x = None \<and> st_id x = i \<and> st_message_id x = m \<and> st_received_at x = now)"
    "\<forall>j. j \<noteq> i \<longrightarrow> map_of (sg_files st') (path_join (sc_path config) j) = map_of (sg_files st) (path_join (sc_path config) j)"
proof -
  let ?p = "path_join (sc_path config) i"
  let ?row = "\<lparr>st_id = i, st_message_id = m, st_file_path = ?p, st_received_at = now, st_byte_size = int (length bs),
      st_claimed_at = None, st_retry_count = 0\<rparr>"
  define full where "full = (of_nat (length (sg_rows st)) \<ge> sc_max_entries config
      \<or> word_of_int (rows_bytes (sg_rows st)) + of_nat (length bs) > sc_max_bytes config)"
  define dup where "dup = (\<exists>r \<in> set (sg_rows st). st_message_id r = m)"
  have rows: "\<forall>r \<in> set (sg_rows st). staged_ok config (sg_files st) r \<and> st_id r \<noteq> i" using ok fresh(1) by (auto simp: staging_ok_def)
  have eq: "(r, st') = (if full then (Inr False, st\<lparr>sg_files := fs_remove ?p (sg_files st)\<rparr>)
      else if dup then (Inl (StagingDb (unique_violation_text q)), st\<lparr>sg_files := fs_remove ?p (sg_files st)\<rparr>)
      else (Inr True, st\<lparr>sg_files := fs_write ?p bs (sg_files st), sg_rows := sg_rows st @ [?row]\<rparr>))"
  proof -
    have "(\<exists>r \<in> set (sg_rows st). st_id r = i \<or> st_message_id r = m) = dup" using rows by (auto simp: dup_def)
    then have "try_stage q config st i now m bs = (if full then (Inr False, st\<lparr>sg_files := fs_remove ?p (sg_files st)\<rparr>)
      else if dup then (Inl (StagingDb (unique_violation_text q)), st\<lparr>sg_files := fs_remove ?p (sg_files st)\<rparr>)
      else (Inr True, st\<lparr>sg_files := fs_write ?p bs (sg_files st), sg_rows := sg_rows st @ [?row]\<rparr>))"
      by (simp add: try_stage_def full_def fs_remove_write Let_def)
    then show ?thesis using ts by simp
  qed
  have room: "length (sg_rows st) < unat (sc_max_entries config) \<and> rows_bytes (sg_rows st) + int (length bs) \<le> uint (sc_max_bytes config)" if "\<not> full"
  proof -
    have len: "length (sg_rows st) < 2 ^ 64" using ok unat_less_64 [of "sc_max_entries config"] by (simp add: staging_ok_def)
    have b: "0 \<le> rows_bytes (sg_rows st)" "rows_bytes (sg_rows st) \<le> uint (sc_max_bytes config)"
      using ok rows_bytes_nonneg by (auto simp: staging_ok_def)
    have "uint (word_of_int (rows_bytes (sg_rows st)) + of_nat (length bs) :: u64) = rows_bytes (sg_rows st) + int (length bs)"
    proof -
      have "(word_of_int (rows_bytes (sg_rows st)) + of_nat (length bs) :: u64) = word_of_int (rows_bytes (sg_rows st) + int (length bs))" by simp
      also have "uint \<dots> = rows_bytes (sg_rows st) + int (length bs)"
        using b limit by (subst uint_word_of_int_eq) (simp add: take_bit_eq_mod)
      finally show ?thesis .
    qed
    moreover have "word_of_int (rows_bytes (sg_rows st)) + of_nat (length bs) \<le> sc_max_bytes config"
      "(of_nat (length (sg_rows st)) :: u64) < sc_max_entries config" using that unfolding full_def de_Morgan_disj not_le not_less by blast+
    ultimately show ?thesis using len by (simp only: word_le_def) (simp add: word_less_nat_alt unat_of_nat)
  qed
  show "staging_ok config st'"
  proof (cases "full \<or> dup")
    case True
    then have "st' = st\<lparr>sg_files := fs_remove ?p (sg_files st)\<rparr>" using eq by (auto split: if_splits)
    then show ?thesis using ok rows staged_ok_write(2) by (auto simp: staging_ok_def)
  next
    case False
    then have "st' = st\<lparr>sg_files := fs_write ?p bs (sg_files st), sg_rows := sg_rows st @ [?row]\<rparr>" using eq by simp
    moreover have "staged_ok config (fs_write ?p bs (sg_files st)) ?row"
      using fresh(2) by (simp add: staged_ok_def MAX_STAGING_RETRIES_def)
    ultimately show ?thesis using ok rows fresh room False staged_ok_write(1)
      by (auto simp: staging_ok_def dup_def rows_bytes_def)
  qed
  show "r = Inr True \<longleftrightarrow> sg_rows st' \<noteq> sg_rows st"
    "sg_rows st' = sg_rows st \<or> (\<exists>x. sg_rows st' = sg_rows st @ [x] \<and> st_claimed_at x = None \<and> st_id x = i \<and> st_message_id x = m \<and> st_received_at x = now)"
    "\<forall>j. j \<noteq> i \<longrightarrow> map_of (sg_files st') (path_join (sc_path config) j) = map_of (sg_files st) (path_join (sc_path config) j)"
    using eq by (auto split: if_splits)
qed

lemma purge_eq: "purge = complete"
  by (simp add: fun_eq_iff purge_def complete_def)

lemma complete_ok [inv_intros]:
  assumes "staging_ok config st" "sa_file_path a = path_join (sc_path config) (sa_id a)"
  shows "staging_ok config (complete st a)"
proof -
  have rows: "\<forall>r \<in> set (sg_rows st). staged_ok config (sg_files st) r" using assms(1) by (simp add: staging_ok_def)
  have "rows_bytes (filter (\<lambda>r. st_id r \<noteq> sa_id a) (sg_rows st)) \<le> rows_bytes (sg_rows st)" by (rule rows_bytes_filter [OF rows])
  moreover have "length (filter (\<lambda>r. st_id r \<noteq> sa_id a) (sg_rows st)) \<le> unat (sc_max_entries config)"
    by (rule le_trans [OF length_filter_le]) (use assms(1) in \<open>simp add: staging_ok_def\<close>)
  ultimately show ?thesis using assms staged_ok_write(2) [of config "sg_files st" _ "sa_id a"]
    by (auto simp: staging_ok_def complete_def distinct_map_filter)
qed

lemma update_row_ok:
  assumes "staging_ok config st" "\<And>r. st_id (f r) = st_id r" "\<And>r. st_message_id (f r) = st_message_id r" "\<And>r. st_byte_size (f r) = st_byte_size r"
    "\<And>r. r \<in> set (sg_rows st) \<Longrightarrow> st_id r = i \<Longrightarrow> staged_ok config (sg_files st) (f r)"
  shows "staging_ok config (st\<lparr>sg_rows := update_row i f (sg_rows st)\<rparr>)"
  using assms by (auto simp: staging_ok_def rows_bytes_def set_update_row)

lemma drain_one_claims:
  assumes ok: "staging_ok config st" and q: "scan_permutes q" and d: "drain_one q st now = (r, st')"
  shows "(r = Inr None \<and> st' = st \<and> (\<forall>x \<in> set (sg_rows st). st_claimed_at x \<noteq> None))
    \<or> (\<exists>row bs. row \<in> set (sg_rows st) \<and> st_claimed_at row = None \<and> map_of (sg_files st) (st_file_path row) = Some bs
        \<and> (\<forall>x \<in> set (sg_rows st). st_claimed_at x = None \<longrightarrow> st_received_at row \<le> st_received_at x)
        \<and> r = Inr (Some \<lparr>sa_id = st_id row, sa_message_id = st_message_id row, sa_bytes = bs, sa_file_path = st_file_path row\<rparr>)
        \<and> st' = st\<lparr>sg_rows := update_row (st_id row) (\<lambda>r. r\<lparr>st_claimed_at := Some now\<rparr>) (sg_rows st)\<rparr>)"
proof (cases "oldest_unclaimed q (sg_rows st)")
  case None
  with d oldest_exists [OF q] show ?thesis by (force simp: drain_one_def)
next
  case (Some row)
  note row = oldest_unclaimed_Some [OF q Some]
  obtain bs where "map_of (sg_files st) (st_file_path row) = Some bs" using ok row(1) by (auto simp: staging_ok_def staged_ok_def)
  with Some d row show ?thesis by (intro disjI2 exI [of _ row] exI [of _ bs]) (auto simp: drain_one_def Let_def)
qed

section \<open>Workers, sessions and restarts\<close>

record staging_system =
  ss_staging :: staging
  ss_workers :: "staged_article option list"

text \<open>
  A session stages an article under a fresh name or is cancelled between writing the file and
  committing the row, an idle worker claims an article, a worker finishes with what the pipeline
  returned, or the daemon stops at any point and starts again.
\<close>

inductive staging_step :: "sqlx \<Rightarrow> staging_config \<Rightarrow> nat \<Rightarrow> staging_system \<Rightarrow> staging_system \<Rightarrow> bool" for q config limit where
  stage: "new_id \<notin> set (map st_id (sg_rows (ss_staging s))) \<Longrightarrow> CHR ''/'' \<notin> set new_id \<Longrightarrow> length bs \<le> limit \<Longrightarrow>
    try_stage q config (ss_staging s) new_id now_secs message_id bs = (r, st) \<Longrightarrow> staging_step q config limit s (s\<lparr>ss_staging := st\<rparr>)"
| cancelled: "new_id \<notin> set (map st_id (sg_rows (ss_staging s))) \<Longrightarrow>
    staging_step q config limit s (s\<lparr>ss_staging := (ss_staging s)\<lparr>sg_files :=
      fs_write (path_join (sc_path config) new_id) bs (sg_files (ss_staging s))\<rparr>\<rparr>)"
| claim: "i < length (ss_workers s) \<Longrightarrow> ss_workers s ! i = None \<Longrightarrow> drain_one q (ss_staging s) now_secs = (r, st) \<Longrightarrow>
    staging_step q config limit s \<lparr>ss_staging = st, ss_workers = (ss_workers s)[i := (case r of Inr a \<Rightarrow> a | Inl _ \<Rightarrow> None)]\<rparr>"
| finish: "i < length (ss_workers s) \<Longrightarrow> ss_workers s ! i = Some a \<Longrightarrow>
    staging_step q config limit s \<lparr>ss_staging = finish_article (ss_staging s) a outcome, ss_workers = (ss_workers s)[i := None]\<rparr>"
| restart: "staging_step q config limit s
    \<lparr>ss_staging = staging_restart config (ss_staging s), ss_workers = replicate (length (ss_workers s)) None\<rparr>"

definition staging_start :: "nat \<Rightarrow> staging_system" where
  "staging_start workers = \<lparr>ss_staging = \<lparr>sg_rows = [], sg_files = []\<rparr>, ss_workers = replicate workers None\<rparr>"

inductive staging_reachable :: "sqlx \<Rightarrow> staging_config \<Rightarrow> nat \<Rightarrow> nat \<Rightarrow> staging_system \<Rightarrow> bool" for q config limit workers where
  start: "staging_reachable q config limit workers (staging_start workers)"
| step: "staging_reachable q config limit workers s \<Longrightarrow> staging_step q config limit s t \<Longrightarrow> staging_reachable q config limit workers t"

definition row_of :: "staging \<Rightarrow> staged_article \<Rightarrow> staged_row \<Rightarrow> bool" where
  "row_of st a r \<longleftrightarrow> st_id r = sa_id a \<and> st_message_id r = sa_message_id a \<and> st_file_path r = sa_file_path a
     \<and> st_claimed_at r \<noteq> None \<and> map_of (sg_files st) (sa_file_path a) = Some (sa_bytes a)"

definition system_ok :: "staging_config \<Rightarrow> staging_system \<Rightarrow> bool" where
  "system_ok config s \<longleftrightarrow> staging_ok config (ss_staging s)
     \<and> (\<forall>i < length (ss_workers s). \<forall>a. ss_workers s ! i = Some a \<longrightarrow> (\<exists>r \<in> set (sg_rows (ss_staging s)). row_of (ss_staging s) a r))
     \<and> (\<forall>i < length (ss_workers s). \<forall>j < length (ss_workers s). \<forall>a b.
          ss_workers s ! i = Some a \<longrightarrow> ss_workers s ! j = Some b \<longrightarrow> sa_id a = sa_id b \<longrightarrow> i = j)
     \<and> (\<forall>r \<in> set (sg_rows (ss_staging s)). st_claimed_at r \<noteq> None \<longrightarrow>
          (\<exists>i < length (ss_workers s). \<exists>a. ss_workers s ! i = Some a \<and> sa_id a = st_id r))"

lemma system_facts:
  assumes "system_ok config s"
  shows "staging_ok config (ss_staging s)"
    "\<And>i a. i < length (ss_workers s) \<Longrightarrow> ss_workers s ! i = Some a \<Longrightarrow> \<exists>r \<in> set (sg_rows (ss_staging s)). row_of (ss_staging s) a r"
    "\<And>i j a b. i < length (ss_workers s) \<Longrightarrow> j < length (ss_workers s) \<Longrightarrow> ss_workers s ! i = Some a \<Longrightarrow>
       ss_workers s ! j = Some b \<Longrightarrow> sa_id a = sa_id b \<Longrightarrow> i = j"
    "\<And>r. r \<in> set (sg_rows (ss_staging s)) \<Longrightarrow> st_claimed_at r \<noteq> None \<Longrightarrow>
       \<exists>i < length (ss_workers s). \<exists>a. ss_workers s ! i = Some a \<and> sa_id a = st_id r"
  using assms unfolding system_ok_def by blast+

lemma held_path:
  assumes "system_ok config s" "i < length (ss_workers s)" "ss_workers s ! i = Some a"
  shows "sa_file_path a = path_join (sc_path config) (sa_id a)" "sa_id a \<in> set (map st_id (sg_rows (ss_staging s)))"
proof -
  obtain r where "r \<in> set (sg_rows (ss_staging s))" "row_of (ss_staging s) a r" using system_facts(2) [OF assms] by blast
  moreover have "staged_ok config (sg_files (ss_staging s)) r"
    using system_facts(1) [OF assms(1)] calculation(1) by (auto simp: staging_ok_def)
  ultimately show "sa_file_path a = path_join (sc_path config) (sa_id a)" "sa_id a \<in> set (map st_id (sg_rows (ss_staging s)))"
    by (auto simp: staged_ok_def row_of_def intro: rev_image_eqI)
qed

lemma system_okI:
  assumes "staging_ok config (ss_staging s)"
    "\<And>i a. i < length (ss_workers s) \<Longrightarrow> ss_workers s ! i = Some a \<Longrightarrow> \<exists>r \<in> set (sg_rows (ss_staging s)). row_of (ss_staging s) a r"
    "\<And>i j a b. i < length (ss_workers s) \<Longrightarrow> j < length (ss_workers s) \<Longrightarrow> ss_workers s ! i = Some a \<Longrightarrow>
       ss_workers s ! j = Some b \<Longrightarrow> sa_id a = sa_id b \<Longrightarrow> i = j"
    "\<And>r. r \<in> set (sg_rows (ss_staging s)) \<Longrightarrow> st_claimed_at r \<noteq> None \<Longrightarrow>
       \<exists>i < length (ss_workers s). \<exists>a. ss_workers s ! i = Some a \<and> sa_id a = st_id r"
  shows "system_ok config s"
  using assms unfolding system_ok_def by blast

text \<open>A change of the staging area that keeps the claimed rows and their files keeps the system in order.\<close>

lemma system_ok_stage:
  assumes ok: "system_ok config s" and st: "staging_ok config st"
    and rows: "sg_rows st = sg_rows (ss_staging s) \<or> (\<exists>x. sg_rows st = sg_rows (ss_staging s) @ [x] \<and> st_claimed_at x = None)"
    and files: "\<And>j. j \<in> set (map st_id (sg_rows (ss_staging s))) \<Longrightarrow>
      map_of (sg_files st) (path_join (sc_path config) j) = map_of (sg_files (ss_staging s)) (path_join (sc_path config) j)"
  shows "system_ok config (s\<lparr>ss_staging := st\<rparr>)"
proof -
  note f = system_facts [OF ok]
  have keep: "set (sg_rows (ss_staging s)) \<subseteq> set (sg_rows st)" using rows by auto
  have "\<exists>r \<in> set (sg_rows st). row_of st a r" if held: "i < length (ss_workers s)" "ss_workers s ! i = Some a" for i a
  proof -
    obtain r where "r \<in> set (sg_rows (ss_staging s))" "row_of (ss_staging s) a r" using f(2) [OF held] by blast
    then show ?thesis using keep files [OF held_path(2) [OF ok held]] held_path(1) [OF ok held] by (auto simp: row_of_def)
  qed
  moreover have "\<exists>i < length (ss_workers s). \<exists>a. ss_workers s ! i = Some a \<and> sa_id a = st_id r"
    if "r \<in> set (sg_rows st)" "st_claimed_at r \<noteq> None" for r
    using that rows f(4) by auto
  ultimately show ?thesis using f(3) st unfolding system_ok_def by simp
qed

lemma system_ok_claim:
  assumes ok: "system_ok config s" and q: "scan_permutes q" and i: "i < length (ss_workers s)" "ss_workers s ! i = None"
    and d: "drain_one q (ss_staging s) now = (r, st)"
  shows "system_ok config \<lparr>ss_staging = st, ss_workers = (ss_workers s)[i := (case r of Inr a \<Rightarrow> a | Inl _ \<Rightarrow> None)]\<rparr>"
proof -
  note f = system_facts [OF ok]
  from drain_one_claims [OF f(1) q d] show ?thesis
  proof (elim disjE exE conjE)
    assume "r = Inr None" "st = ss_staging s"
    moreover have "(ss_workers s)[i := None] = ss_workers s" using i(2) by (metis list_update_id)
    ultimately show ?thesis using ok by (simp add: system_ok_def)
  next
    fix row :: staged_row and bs
    let ?a = "\<lparr>sa_id = st_id row, sa_message_id = st_message_id row, sa_bytes = bs, sa_file_path = st_file_path row\<rparr>"
    let ?claim = "\<lambda>r :: staged_row. r\<lparr>st_claimed_at := Some now\<rparr>"
    assume row: "row \<in> set (sg_rows (ss_staging s))" "st_claimed_at row = None" "map_of (sg_files (ss_staging s)) (st_file_path row) = Some bs"
      and r: "r = Inr (Some ?a)" and st: "st = (ss_staging s)\<lparr>sg_rows := update_row (st_id row) ?claim (sg_rows (ss_staging s))\<rparr>"
    have ids: "distinct (map st_id (sg_rows (ss_staging s)))" using f(1) by (simp add: staging_ok_def)
    have fresh: "sa_id b \<noteq> st_id row" if held: "j < length (ss_workers s)" "ss_workers s ! j = Some b" for j b
    proof
      assume "sa_id b = st_id row"
      moreover obtain x where "x \<in> set (sg_rows (ss_staging s))" "row_of (ss_staging s) b x" using f(2) [OF held] by blast
      ultimately have "x = row" using same_id_same_row [OF ids _ row(1)] by (auto simp: row_of_def)
      with \<open>row_of (ss_staging s) b x\<close> row(2) show False by (simp add: row_of_def)
    qed
    have ok': "staging_ok config st"
      unfolding st by (rule update_row_ok [OF f(1)]) (use f(1) in \<open>auto simp: staging_ok_def staged_ok_def\<close>)
    have own: "\<exists>x \<in> set (sg_rows st). row_of st ?a x" using row by (intro bexI [of _ "?claim row"]) (auto simp: st set_update_row row_of_def)
    have others: "\<exists>x \<in> set (sg_rows st). row_of st b x" if held: "j < length (ss_workers s)" "ss_workers s ! j = Some b" for j b
    proof -
      obtain x where "x \<in> set (sg_rows (ss_staging s))" "row_of (ss_staging s) b x" using f(2) [OF held] by blast
      then show ?thesis using fresh [OF held] by (auto simp: st set_update_row row_of_def intro!: bexI [of _ x])
    qed
    have claimed: "\<exists>j < length (ss_workers s). \<exists>b. (ss_workers s)[i := Some ?a] ! j = Some b \<and> sa_id b = st_id x"
      if x: "x \<in> set (sg_rows st)" "st_claimed_at x \<noteq> None" for x
    proof (cases "st_id x = st_id row")
      case True
      then show ?thesis using i(1) by (intro exI [of _ i]) simp
    next
      case False
      with x have "x \<in> set (sg_rows (ss_staging s))" by (auto simp: st set_update_row split: if_splits)
      from f(4) [OF this x(2)] obtain j b where "j < length (ss_workers s)" "ss_workers s ! j = Some b" "sa_id b = st_id x" by blast
      moreover have "i \<noteq> j" using calculation i(2) by auto
      ultimately show ?thesis by (intro exI [of _ j]) simp
    qed
    have unique: "j = k" if two: "j < length (ss_workers s)" "k < length (ss_workers s)" "(ss_workers s)[i := Some ?a] ! j = Some b"
        "(ss_workers s)[i := Some ?a] ! k = Some c" "sa_id b = sa_id c" for j k b c
      using two f(3) [OF two(1,2)] fresh [OF two(1)] fresh [OF two(2)] by (cases "i = j"; cases "i = k") auto
    show ?thesis
    proof (rule system_okI; unfold r staging_system.simps length_list_update sum.case)
      show "staging_ok config st" by (rule ok')
      show "\<exists>x \<in> set (sg_rows st). row_of st b x" if held: "j < length (ss_workers s)" "(ss_workers s)[i := Some ?a] ! j = Some b" for j b
        using others [OF held(1), of b] own held by (cases "i = j") simp_all
    qed (fact unique claimed)+
  qed
qed

definition released :: "staged_row \<Rightarrow> staged_row" where
  "released r = r\<lparr>st_retry_count := st_retry_count r + 1, st_claimed_at := None\<rparr>"

lemma filter_update_row:
  "(\<And>r. st_id (f r) = st_id r) \<Longrightarrow> filter (\<lambda>r. st_id r \<noteq> i) (update_row i f rows) = filter (\<lambda>r. st_id r \<noteq> i) rows"
  by (induction rows) (simp_all add: update_row_def)

lemma complete_update:
  "(\<And>r. st_id (f r) = st_id r) \<Longrightarrow> complete (st\<lparr>sg_rows := update_row (sa_id a) f (sg_rows st)\<rparr>) a = complete st a"
  by (simp add: complete_def filter_update_row)

lemma finish_article_eq:
  assumes ok: "staging_ok config st" and row: "row \<in> set (sg_rows st)" "st_id row = sa_id a"
  shows "finish_article st a outcome =
    (if outcome = TransientFailure \<and> st_retry_count row + 1 < MAX_STAGING_RETRIES
     then st\<lparr>sg_rows := update_row (sa_id a) released (sg_rows st)\<rparr> else complete st a)"
proof -
  have "find (\<lambda>r. st_id r = sa_id a) (sg_rows st) = Some row"
    using find_id [of "sg_rows st" row] ok row by (simp add: staging_ok_def)
  then show ?thesis
    by (cases outcome) (simp_all add: finish_article_def increment_retry_count_def purge_eq complete_update not_le released_def [abs_def])
qed

lemma finish_article_ok:
  assumes ok: "staging_ok config st" and row: "row \<in> set (sg_rows st)" "st_id row = sa_id a"
    and path: "sa_file_path a = path_join (sc_path config) (sa_id a)"
  shows "staging_ok config (finish_article st a outcome)"
proof -
  have same: "x = row" if "x \<in> set (sg_rows st)" "st_id x = sa_id a" for x
    using that same_id_same_row [of "sg_rows st"] ok row by (metis staging_ok_def)
  have "staging_ok config (st\<lparr>sg_rows := update_row (sa_id a) released (sg_rows st)\<rparr>)" if "st_retry_count row + 1 < MAX_STAGING_RETRIES"
    by (rule update_row_ok [OF ok]) (use that same ok in \<open>auto simp: staging_ok_def staged_ok_def released_def\<close>)
  then show ?thesis using complete_ok [OF ok path] by (simp add: finish_article_eq [OF ok row])
qed

lemma finish_article_rows:
  assumes ok: "staging_ok config st" and row: "row \<in> set (sg_rows st)" "st_id row = sa_id a"
    and path: "sa_file_path a = path_join (sc_path config) (sa_id a)"
  shows "x \<in> set (sg_rows st) \<Longrightarrow> st_id x \<noteq> sa_id a \<Longrightarrow> x \<in> set (sg_rows (finish_article st a outcome))"
    "x \<in> set (sg_rows (finish_article st a outcome)) \<Longrightarrow> x \<in> set (sg_rows st) \<and> st_id x \<noteq> sa_id a \<or> st_claimed_at x = None"
    "j \<noteq> sa_id a \<Longrightarrow> map_of (sg_files (finish_article st a outcome)) (path_join (sc_path config) j)
       = map_of (sg_files st) (path_join (sc_path config) j)"
  by (auto simp: finish_article_eq [OF ok row] path complete_def set_update_row released_def split: if_splits)

lemma system_ok_finish:
  assumes ok: "system_ok config s" and i: "i < length (ss_workers s)" "ss_workers s ! i = Some a"
  shows "system_ok config \<lparr>ss_staging = finish_article (ss_staging s) a outcome, ss_workers = (ss_workers s)[i := None]\<rparr>"
proof -
  note f = system_facts [OF ok]
  let ?st = "finish_article (ss_staging s) a outcome"
  obtain row where "row \<in> set (sg_rows (ss_staging s))" "row_of (ss_staging s) a row" using f(2) [OF i] by blast
  then have row: "row \<in> set (sg_rows (ss_staging s))" "st_id row = sa_id a" by (auto simp: row_of_def)
  note rows = finish_article_rows [OF f(1) row held_path(1) [OF ok i], where outcome = outcome]
  have other: "sa_id b \<noteq> sa_id a \<and> i \<noteq> j \<and> ss_workers s ! j = Some b" if "j < length (ss_workers s)" "(ss_workers s)[i := None] ! j = Some b" for j b
    using that f(3) [OF that(1) i(1) _ i(2), of b] by (cases "i = j") auto
  show ?thesis
  proof (rule system_okI; unfold staging_system.simps length_list_update)
    show "staging_ok config ?st" by (rule finish_article_ok [OF f(1) row held_path(1) [OF ok i]])
    show "\<exists>x \<in> set (sg_rows ?st). row_of ?st b x" if held: "j < length (ss_workers s)" "(ss_workers s)[i := None] ! j = Some b" for j b
    proof -
      note b = other [OF held]
      then obtain x where x: "x \<in> set (sg_rows (ss_staging s))" "row_of (ss_staging s) b x" using f(2) [OF held(1)] by blast
      then have "x \<in> set (sg_rows ?st)" using b by (intro rows(1)) (auto simp: row_of_def)
      moreover have "row_of ?st b x"
        using x(2) rows(3) [of "sa_id b"] b held_path(1) [OF ok held(1), of b] by (simp add: row_of_def)
      ultimately show ?thesis by blast
    qed
    show "j = k" if "j < length (ss_workers s)" "k < length (ss_workers s)" "(ss_workers s)[i := None] ! j = Some b"
        "(ss_workers s)[i := None] ! k = Some c" "sa_id b = sa_id c" for j k b c
      using that other f(3) by blast
    show "\<exists>j < length (ss_workers s). \<exists>b. (ss_workers s)[i := None] ! j = Some b \<and> sa_id b = st_id x"
      if x: "x \<in> set (sg_rows ?st)" "st_claimed_at x \<noteq> None" for x
    proof -
      have "x \<in> set (sg_rows (ss_staging s))" and ne: "st_id x \<noteq> sa_id a" using rows(2) [OF x(1)] x(2) by auto
      from f(4) [OF this(1) x(2)] obtain j b where j: "j < length (ss_workers s)" "ss_workers s ! j = Some b" "sa_id b = st_id x" by blast
      moreover have "i \<noteq> j" using j ne i(2) by auto
      ultimately show ?thesis by (intro exI [of _ j]) simp
    qed
  qed
qed

lemma map_of_filter_key: "P k \<Longrightarrow> map_of (filter (\<lambda>e. P (fst e)) xs) k = map_of xs k"
  by (induction xs) auto

lemma system_ok_restart:
  assumes "staging_ok config (ss_staging s)"
  shows "system_ok config \<lparr>ss_staging = staging_restart config (ss_staging s), ss_workers = replicate n None\<rparr>"
proof -
  let ?st = "ss_staging s"
  define files where "files = filter (\<lambda>e. \<not> orphaned config (sg_rows (reset_claims ?st)) (fst e)) (sg_files ?st)"
  have st: "staging_restart config ?st = \<lparr>sg_rows = map (\<lambda>r. r\<lparr>st_claimed_at := None\<rparr>) (sg_rows ?st), sg_files = files\<rparr>"
    by (simp add: staging_restart_def cleanup_orphaned_files_def files_def reset_claims_def)
  have keep: "map_of files p = map_of (sg_files ?st) p" if "\<not> orphaned config (sg_rows (reset_claims ?st)) p" for p
    unfolding files_def by (rule map_of_filter_key) (rule that)
  have "map_of files (st_file_path r) = map_of (sg_files ?st) (st_file_path r)" if "r \<in> set (sg_rows ?st)" for r
  proof (rule keep)
    have "st_file_path r = dir_prefix (sc_path config) @ st_id r" using assms that by (auto simp: staging_ok_def staged_ok_def path_join_def)
    then show "\<not> orphaned config (sg_rows (reset_claims ?st)) (st_file_path r)"
      using that by (auto simp: orphaned_def strip_own_prefix reset_claims_def)
  qed
  then have "staging_ok config (staging_restart config ?st)"
    using assms by (auto simp: st staging_ok_def staged_ok_def rows_bytes_def comp_def)
  then show ?thesis by (rule_tac system_okI) (auto simp: st)
qed

lemma staging_step_ok:
  assumes "system_ok config s" "scan_permutes q" "uint (sc_max_bytes config) + int limit < 2 ^ 64" "staging_step q config limit s t"
  shows "system_ok config t"
  using assms(4)
proof cases
  case (stage new_id bs now_secs message_id r st)
  have "uint (sc_max_bytes config) + int (length bs) < 2 ^ 64" using assms(3) stage(4) by linarith
  note ts = try_stage_ok [OF system_facts(1) [OF assms(1)] stage(2,3) this stage(5)]
  show ?thesis unfolding stage(1)
    by (rule system_ok_stage [OF assms(1) ts(1)]) (use ts(3) in blast, metis ts(4) stage(2))
next
  case (cancelled new_id bs)
  have "staging_ok config ((ss_staging s)\<lparr>sg_files := fs_write (path_join (sc_path config) new_id) bs (sg_files (ss_staging s))\<rparr>)"
    using system_facts(1) [OF assms(1)] cancelled(2) by (auto simp: staging_ok_def intro!: staged_ok_write(1))
  then show ?thesis unfolding cancelled(1)
    by (rule system_ok_stage [OF assms(1)]) (use cancelled(2) in \<open>auto intro: rev_image_eqI\<close>)
next
  case (claim i now_secs r st)
  then show ?thesis using system_ok_claim [OF assms(1,2)] by simp
next
  case (finish i a outcome)
  then show ?thesis using system_ok_finish [OF assms(1)] by simp
next
  case restart
  then show ?thesis using system_ok_restart [OF system_facts(1) [OF assms(1)]] by simp
qed

lemma system_ok_start: "system_ok config (staging_start n)"
  by (rule system_okI) (simp_all add: staging_start_def staging_ok_def rows_bytes_def)


definition demo_staging_config :: staging_config where
  "demo_staging_config = \<lparr>sc_path = ''/var/stage'', sc_max_bytes = 100, sc_max_entries = 2, sc_drain_workers = 2\<rparr>"

definition demo_staged :: staging_system where
  "demo_staged = (staging_start 2)\<lparr>ss_staging := snd (try_stage demo_sqlx demo_staging_config (ss_staging (staging_start 2)) ''a'' 7 ''<m@x>'' ''body'')\<rparr>"

lemma demo_staged_step: "staging_step demo_sqlx demo_staging_config 50 (staging_start 2) demo_staged"
  unfolding demo_staged_def by (rule staging_step.stage) (auto simp: staging_start_def intro: prod.collapse [symmetric])

lemma demo_staged_reachable: "staging_reachable demo_sqlx demo_staging_config 50 2 demo_staged"
  by (rule staging_reachable.step [OF staging_reachable.start demo_staged_step])


section \<open>A worker empties the table\<close>

definition retries_left :: "staging \<Rightarrow> nat" where
  "retries_left st = sum_list (map (\<lambda>r. nat (MAX_STAGING_RETRIES - st_retry_count r)) (sg_rows st))"

fun drain_rounds :: "sqlx \<Rightarrow> (nat \<Rightarrow> staged_article \<Rightarrow> pipeline_outcome) \<Rightarrow> (nat \<Rightarrow> int) \<Rightarrow> nat \<Rightarrow> staging \<Rightarrow> staging" where
  "drain_rounds q run clock 0 st = st"
| "drain_rounds q run clock (Suc n) st = drain_round q (run n) (drain_rounds q run clock n st) (clock n)"

lemma update_row_absent: "i \<notin> st_id ` set rows \<Longrightarrow> update_row i f rows = rows"
  by (auto simp: update_row_def intro!: map_idI)

lemma sum_list_update_row:
  assumes "distinct (map st_id rows)" "row \<in> set rows"
  shows "sum_list (map g (update_row (st_id row) f rows)) + g row = sum_list (map g rows) + (g (f row) :: nat)"
  using assms
proof (induction rows)
  case (Cons r rows)
  then have "update_row (st_id row) f (r # rows) = (if r = row then f r # rows else r # update_row (st_id row) f rows)"
    using update_row_absent [of "st_id row" rows f] by (auto simp: update_row_def)
  with Cons show ?case by auto
qed simp

lemma sum_list_filter_id:
  assumes "distinct (map st_id rows)" "row \<in> set rows"
  shows "sum_list (map g (filter (\<lambda>r. st_id r \<noteq> st_id row) rows)) + g row = (sum_list (map g rows) :: nat)"
  using assms
proof (induction rows)
  case (Cons r rows)
  have "filter (\<lambda>x. st_id x \<noteq> st_id r) rows = rows" using Cons.prems(1) by (auto simp: filter_id_conv intro: rev_image_eqI)
  with Cons show ?case by auto
qed simp

lemma sum_list_at_most: "(\<And>x. x \<in> set xs \<Longrightarrow> f x \<le> (k :: nat)) \<Longrightarrow> sum_list (map f xs) \<le> k * length xs"
  by (induction xs) (auto intro: add_mono)

definition all_free :: "staging \<Rightarrow> bool" where
  "all_free st \<longleftrightarrow> (\<forall>r \<in> set (sg_rows st). st_claimed_at r = None)"

lemma drain_round_idle: "sg_rows st = [] \<Longrightarrow> scan_permutes q \<Longrightarrow> drain_round q run st now = st"
  by (cases "oldest_unclaimed q (sg_rows st)") (auto simp: drain_round_def drain_one_def dest: oldest_unclaimed_Some(1))

lemma drain_round_progress:
  assumes ok: "staging_ok config st" and q: "scan_permutes q" and free: "all_free st" and rows: "sg_rows st \<noteq> []"
  shows "staging_ok config (drain_round q run st now)" "all_free (drain_round q run st now)"
    "retries_left (drain_round q run st now) < retries_left st"
proof -
  obtain r st' where d: "drain_one q st now = (r, st')" by fastforce
  have "\<not> (\<forall>x \<in> set (sg_rows st). st_claimed_at x \<noteq> None)" using free rows by (cases "sg_rows st") (auto simp: all_free_def)
  then obtain row :: staged_row and bs where row: "row \<in> set (sg_rows st)"
    and r: "r = Inr (Some \<lparr>sa_id = st_id row, sa_message_id = st_message_id row, sa_bytes = bs, sa_file_path = st_file_path row\<rparr>)" (is "r = Inr (Some ?a)")
    and st': "st' = st\<lparr>sg_rows := update_row (st_id row) (\<lambda>r. r\<lparr>st_claimed_at := Some now\<rparr>) (sg_rows st)\<rparr>"
    using drain_one_claims [OF ok q d] by blast
  let ?row = "row\<lparr>st_claimed_at := Some now\<rparr>"
  have ids: "distinct (map st_id (sg_rows st))" and good: "staged_ok config (sg_files st) row" using ok row by (auto simp: staging_ok_def)
  have ok': "staging_ok config st'"
    unfolding st' by (rule update_row_ok [OF ok]) (use ok in \<open>auto simp: staging_ok_def staged_ok_def\<close>)
  have row': "?row \<in> set (sg_rows st')" "st_id ?row = sa_id ?a" using row by (auto simp: st' set_update_row)
  have path: "sa_file_path ?a = path_join (sc_path config) (sa_id ?a)" using good by (simp add: staged_ok_def)
  have round: "drain_round q run st now = finish_article st' ?a (run ?a)" by (simp add: drain_round_def d r)
  show "staging_ok config (drain_round q run st now)" unfolding round by (rule finish_article_ok [OF ok' row' path])
  show "all_free (drain_round q run st now)"
    using finish_article_rows(2) [OF ok' row' path] free unfolding round all_free_def by (fastforce simp: st' set_update_row)
  have removed: "complete st' ?a = complete st ?a" unfolding st' using complete_update [of _ ?a st] by simp
  have again: "update_row (st_id row) released (sg_rows st') = update_row (st_id row) released (sg_rows st)"
    by (simp add: st' update_row_def released_def)
  have "0 < MAX_STAGING_RETRIES - st_retry_count row" using good by (simp add: staged_ok_def)
  moreover have "retries_left (complete st ?a) + nat (MAX_STAGING_RETRIES - st_retry_count row) = retries_left st"
    using sum_list_filter_id [OF ids row] by (simp add: retries_left_def complete_def)
  moreover have "retries_left (st'\<lparr>sg_rows := update_row (st_id row) released (sg_rows st)\<rparr>) + nat (MAX_STAGING_RETRIES - st_retry_count row)
      = retries_left st + nat (MAX_STAGING_RETRIES - (st_retry_count row + 1))"
    using sum_list_update_row [OF ids row, where f = released and g = "\<lambda>r. nat (MAX_STAGING_RETRIES - st_retry_count r)"] by (simp add: retries_left_def released_def)
  ultimately show "retries_left (drain_round q run st now) < retries_left st"
    using finish_article_eq [OF ok' row', of "run ?a"] removed again unfolding round by (auto split: if_splits)
qed

lemma drain_rounds_ok:
  assumes "staging_ok config st" "scan_permutes q" "all_free st"
  shows "staging_ok config (drain_rounds q run clock n st) \<and> all_free (drain_rounds q run clock n st)
    \<and> (sg_rows (drain_rounds q run clock n st) = [] \<or> retries_left (drain_rounds q run clock n st) + n \<le> retries_left st)"
proof (induction n)
  case (Suc n)
  let ?s = "drain_rounds q run clock n st"
  show ?case
  proof (cases "sg_rows ?s = []")
    case True
    then show ?thesis using Suc drain_round_idle [OF True assms(2)] by simp
  next
    case False
    from Suc have "staging_ok config ?s" "all_free ?s" "retries_left ?s + n \<le> retries_left st" using False by auto
    with drain_round_progress [OF this(1) assms(2) this(2) False, of "run n" "clock n"] show ?thesis by simp
  qed
qed (use assms in simp)



end
