(* ===== verification/F64.thy ===== *)
theory F64
  imports Complex_Main "HOL-Library.Log_Nat"
begin

text \<open>
  The arithmetic of Rust's \<^verbatim>\<open>f64\<close> on finite values: a double is a rational, and every operation rounds
  its exact result to 53 significant bits, ties to even. Overflow to infinity and the gradual
  underflow below 2 to the power -1022 are left out; no value the sources compute comes near them.
\<close>

section \<open>Rounding\<close>

definition round_half_even :: "rat \<Rightarrow> int" where
  "round_half_even m =
     (let f = \<lfloor>m\<rfloor>; d = m - of_int f
      in if d < 1 / 2 then f else if d > 1 / 2 then f + 1 else if even f then f else f + 1)"

text \<open>The exponent of the leading bit, from the lengths of numerator and denominator.\<close>

definition f64_exponent :: "rat \<Rightarrow> int" where
  "f64_exponent q = (let (a, b) = quotient_of q; k = bitlen a - bitlen b in if 2 powi k \<le> q then k else k - 1)"

definition f64_pos :: "rat \<Rightarrow> rat" where
  "f64_pos q = (let u = 2 powi (f64_exponent q - 52) in of_int (round_half_even (q / u)) * u)"

definition f64 :: "rat \<Rightarrow> rat" where
  "f64 q = (if q = 0 then 0 else if 0 < q then f64_pos q else - f64_pos (- q))"

definition f64_eps :: rat where
  "f64_eps = 2 powi (- 53)"

section \<open>Powers of two\<close>

lemma powi_pos [simp]: "0 < (2 :: rat) powi k"
  by simp

lemma powi_mono: "k \<le> l \<Longrightarrow> (2 :: rat) powi k \<le> 2 powi l"
  by (simp add: power_int_increasing)

lemma powi_lessD: "(2 :: rat) powi k < 2 powi l \<Longrightarrow> k < l"
  by (metis linorder_not_le powi_mono)

lemma powi_add: "(2 :: rat) powi (k + l) = 2 powi k * 2 powi l"
  by (simp add: power_int_add)

lemma powi_nat: "(2 :: rat) powi (int n) = 2 ^ n"
  by simp

lemma powi_int: "0 \<le> k \<Longrightarrow> (2 :: rat) powi k = of_int (2 ^ nat k)"
  by (simp add: power_int_def)

lemma bitlen_powi:
  assumes "0 < a"
  shows "2 powi (bitlen a - 1) \<le> (of_int a :: rat)" "(of_int a :: rat) < 2 powi bitlen a"
proof -
  have a: "2 ^ nat (bitlen a - 1) \<le> a" "a < 2 ^ nat (bitlen a)" "0 < bitlen a"
    using bitlen_bounds [OF assms] bitlen_eq_zero_iff [of a] bitlen_nonneg [of a] assms by auto
  have "(2 :: rat) powi (bitlen a - 1) = of_int (2 ^ nat (bitlen a - 1))" using a(3) by (intro powi_int) simp
  then show "2 powi (bitlen a - 1) \<le> (of_int a :: rat)" using a(1) by (simp only: of_int_le_iff)
  have "(2 :: rat) powi bitlen a = of_int (2 ^ nat (bitlen a))" using a(3) by (intro powi_int) simp
  then show "(of_int a :: rat) < 2 powi bitlen a" using a(2) by (simp only: of_int_less_iff)
qed

lemma f64_exponent_bounds:
  assumes "0 < q"
  shows "2 powi f64_exponent q \<le> q" "q < 2 powi (f64_exponent q + 1)"
proof -
  obtain a b where ab: "quotient_of q = (a, b)" by fastforce
  have q: "q = of_int a / of_int b" by (rule quotient_of_div [OF ab])
  have b: "0 < b" by (rule quotient_of_denom_pos [OF ab])
  then have a: "0 < a" using assms q by (simp add: zero_less_divide_iff)
  let ?k = "bitlen a - bitlen b"
  note ba = bitlen_powi [OF a] and bb = bitlen_powi [OF b]
  have "q < 2 powi bitlen a / 2 powi (bitlen b - 1)"
    unfolding q using ba(2) bb(1) b a by (intro frac_less) auto
  also have "\<dots> = 2 powi (?k + 1)" by (simp add: power_int_diff power_int_add)
  finally have up: "q < 2 powi (?k + 1)" .
  have "2 powi (?k - 1) = (2 :: rat) powi (bitlen a - 1) / 2 powi bitlen b" by (simp add: power_int_diff power_int_add)
  also have "\<dots> \<le> q" unfolding q using ba(1) bb(2) b a by (intro frac_le) auto
  finally have low: "2 powi (?k - 1) \<le> q" .
  have e: "f64_exponent q = (if 2 powi ?k \<le> q then ?k else ?k - 1)" by (simp add: f64_exponent_def ab)
  show "2 powi f64_exponent q \<le> q" using low by (simp add: e)
  show "q < 2 powi (f64_exponent q + 1)" using up by (simp add: e)
qed

lemma f64_exponent_eqI:
  assumes "2 powi k \<le> q" "q < 2 powi (k + 1)"
  shows "f64_exponent q = k"
proof -
  have "0 < q" using assms(1) by (rule less_le_trans [rotated]) simp
  note e = f64_exponent_bounds [OF this]
  have "k < f64_exponent q + 1" by (rule powi_lessD) (rule order_le_less_trans [OF assms(1) e(2)])
  moreover have "f64_exponent q < k + 1" by (rule powi_lessD) (rule order_le_less_trans [OF e(1) assms(2)])
  ultimately show ?thesis by simp
qed

section \<open>Rounding to an integer\<close>

lemma round_half_even_error: "\<bar>of_int (round_half_even m) - m\<bar> \<le> 1 / 2"
proof -
  have "of_int \<lfloor>m\<rfloor> \<le> m" "m < of_int \<lfloor>m\<rfloor> + 1" using floor_correct [of m] by simp_all
  then show ?thesis by (simp add: round_half_even_def Let_def abs_le_iff)
qed

lemma round_half_even_int [simp]: "round_half_even (of_int n) = n"
  by (simp add: round_half_even_def)

lemma round_half_even_floor: "\<lfloor>m\<rfloor> \<le> round_half_even m" "round_half_even m \<le> \<lfloor>m\<rfloor> + 1"
  by (auto simp: round_half_even_def Let_def)

lemma round_half_even_mono:
  assumes "m \<le> n"
  shows "round_half_even m \<le> round_half_even n"
proof (cases "\<lfloor>m\<rfloor> = \<lfloor>n\<rfloor>")
  case True
  with assms show ?thesis by (auto simp: round_half_even_def Let_def)
next
  case False
  with floor_mono [OF assms] have "\<lfloor>m\<rfloor> + 1 \<le> \<lfloor>n\<rfloor>" by simp
  then show ?thesis using round_half_even_floor [of m] round_half_even_floor [of n] by linarith
qed

section \<open>Properties of rounding\<close>

definition unit_of :: "rat \<Rightarrow> rat" where
  "unit_of q = 2 powi (f64_exponent q - 52)"

lemma unit_of_pos [simp]: "0 < unit_of q"
  by (simp add: unit_of_def)

lemma unit_of_nonzero [simp]: "unit_of q \<noteq> 0"
  by (metis less_irrefl unit_of_pos)

lemma f64_pos_unit: "f64_pos q = of_int (round_half_even (q / unit_of q)) * unit_of q"
  by (simp add: f64_pos_def unit_of_def Let_def)

lemma mantissa_bounds:
  assumes "0 < q"
  shows "2 ^ 52 \<le> q / unit_of q" "q / unit_of q < 2 ^ 53"
proof -
  note e = f64_exponent_bounds [OF assms]
  have "2 ^ 52 * unit_of q = 2 powi f64_exponent q" "2 ^ 53 * unit_of q = 2 powi (f64_exponent q + 1)"
    by (simp_all add: unit_of_def power_int_diff power_int_add)
  with e show "2 ^ 52 \<le> q / unit_of q" "q / unit_of q < 2 ^ 53"
    by (simp_all add: pos_le_divide_eq pos_divide_less_eq)
qed

lemma rounded_mantissa:
  assumes "0 < q"
  shows "2 ^ 52 \<le> round_half_even (q / unit_of q)" "round_half_even (q / unit_of q) \<le> 2 ^ 53"
proof -
  have "round_half_even (of_int (2 ^ 52)) \<le> round_half_even (q / unit_of q)"
    by (rule round_half_even_mono) (use mantissa_bounds(1) [OF assms] in simp)
  then show "2 ^ 52 \<le> round_half_even (q / unit_of q)" by (simp only: round_half_even_int)
  have "round_half_even (q / unit_of q) \<le> round_half_even (of_int (2 ^ 53))"
    by (rule round_half_even_mono) (use mantissa_bounds(2) [OF assms] in simp)
  then show "round_half_even (q / unit_of q) \<le> 2 ^ 53" by (simp only: round_half_even_int)
qed

lemma f64_pos_bounds:
  assumes "0 < q"
  shows "2 powi f64_exponent q \<le> f64_pos q" "f64_pos q \<le> 2 powi (f64_exponent q + 1)"
proof -
  have "of_int (2 ^ 52) * unit_of q \<le> f64_pos q" "f64_pos q \<le> of_int (2 ^ 53) * unit_of q"
    unfolding f64_pos_unit
    by (rule mult_right_mono [OF _ less_imp_le [OF unit_of_pos]], simp only: of_int_le_iff rounded_mantissa [OF assms])+
  moreover have "of_int (2 ^ 52) * unit_of q = 2 powi f64_exponent q" "of_int (2 ^ 53) * unit_of q = 2 powi (f64_exponent q + 1)"
    by (simp_all add: unit_of_def power_int_diff power_int_add)
  ultimately show "2 powi f64_exponent q \<le> f64_pos q" "f64_pos q \<le> 2 powi (f64_exponent q + 1)" by simp_all
qed

lemma f64_pos_error:
  assumes "0 < q"
  shows "\<bar>f64_pos q - q\<bar> \<le> f64_eps * q"
proof -
  let ?u = "unit_of q" and ?r = "of_int (round_half_even (q / unit_of q)) :: rat"
  have "f64_pos q - q = (?r - q / ?u) * ?u" by (simp add: f64_pos_unit left_diff_distrib)
  then have "\<bar>f64_pos q - q\<bar> = \<bar>?r - q / ?u\<bar> * ?u" by (simp add: abs_mult abs_of_pos)
  also have "\<dots> \<le> 1 / 2 * ?u" by (rule mult_right_mono [OF round_half_even_error]) (simp add: less_imp_le)
  also have "\<dots> = f64_eps * 2 powi f64_exponent q" by (simp add: unit_of_def f64_eps_def power_int_diff power_int_minus)
  also have "\<dots> \<le> f64_eps * q" using f64_exponent_bounds(1) [OF assms] by (intro mult_left_mono) (simp_all add: f64_eps_def)
  finally show ?thesis .
qed

lemma f64_error: "\<bar>f64 q - q\<bar> \<le> f64_eps * \<bar>q\<bar>"
proof (cases "0 < q")
  case True
  then show ?thesis using f64_pos_error [of q] by (simp add: f64_def)
next
  case False
  have "\<bar>- f64_pos (- q) - q\<bar> = \<bar>f64_pos (- q) - (- q)\<bar>" by linarith
  with False show ?thesis using f64_pos_error [of "- q"] by (cases "q = 0") (simp_all add: f64_def)
qed

lemma f64_zero [simp]: "f64 0 = 0"
  by (simp add: f64_def)

lemma f64_pos_mono:
  assumes "0 < p" "p \<le> q"
  shows "f64_pos p \<le> f64_pos q"
proof (cases "f64_exponent p = f64_exponent q")
  case True
  then have u: "unit_of p = unit_of q" by (simp add: unit_of_def)
  have "round_half_even (p / unit_of q) \<le> round_half_even (q / unit_of q)"
    by (rule round_half_even_mono) (simp add: assms(2) divide_right_mono less_imp_le)
  then show ?thesis unfolding f64_pos_unit u by (intro mult_right_mono) (simp_all add: less_imp_le)
next
  case False
  have q: "0 < q" using assms by simp
  have "2 powi f64_exponent p < (2 :: rat) powi (f64_exponent q + 1)"
    using f64_exponent_bounds(1) [OF assms(1)] f64_exponent_bounds(2) [OF q] assms(2) by linarith
  then have "f64_exponent p + 1 \<le> f64_exponent q" using False by (auto dest: powi_lessD)
  then have "2 powi (f64_exponent p + 1) \<le> (2 :: rat) powi f64_exponent q" by (rule powi_mono)
  then show ?thesis using f64_pos_bounds [OF assms(1)] f64_pos_bounds [OF q] by linarith
qed

lemma f64_pos_positive: "0 < q \<Longrightarrow> 0 < f64_pos q"
  using f64_pos_bounds(1) [of q] powi_pos [of "f64_exponent q"] by linarith

lemma f64_mono: "p \<le> q \<Longrightarrow> f64 p \<le> f64 q"
  using f64_pos_mono [of p q] f64_pos_mono [of "- q" "- p"] f64_pos_positive [of q] f64_pos_positive [of "- p"]
  by (auto simp: f64_def)

lemma f64_nonneg: "0 \<le> q \<Longrightarrow> 0 \<le> f64 q"
  using f64_mono [of 0 q] by simp

lemma f64_pos_int_mantissa:
  assumes "0 < q" "q / unit_of q = of_int n"
  shows "f64_pos q = q"
proof -
  have "f64_pos q = of_int n * unit_of q" by (simp only: f64_pos_unit assms(2) round_half_even_int)
  also have "\<dots> = q / unit_of q * unit_of q" by (simp only: assms(2))
  finally show ?thesis by simp
qed

lemma f64_pos_idem:
  assumes "0 < q"
  shows "f64_pos (f64_pos q) = f64_pos q"
proof -
  let ?k = "round_half_even (q / unit_of q)"
  have pos: "0 < f64_pos q" by (rule f64_pos_positive [OF assms])
  show ?thesis
  proof (cases "?k = 2 ^ 53")
    case True
    have v: "f64_pos q = 2 powi (f64_exponent q + 1)" by (simp only: f64_pos_unit True) (simp add: unit_of_def power_int_diff power_int_add)
    have "f64_exponent (f64_pos q) = f64_exponent q + 1"
      unfolding v by (rule f64_exponent_eqI) (simp_all add: power_int_add)
    then have "f64_pos q / unit_of (f64_pos q) = of_int (2 ^ 52)" by (simp add: unit_of_def v power_int_diff power_int_add)
    then show ?thesis by (rule f64_pos_int_mantissa [OF pos])
  next
    case False
    then have "?k < 2 ^ 53" using rounded_mantissa(2) [OF assms] by simp
    then have "of_int ?k * unit_of q < of_int (2 ^ 53) * unit_of q" by (intro mult_strict_right_mono) (simp_all only: of_int_less_iff unit_of_pos)
    also have "\<dots> = 2 powi (f64_exponent q + 1)" by (simp add: unit_of_def power_int_diff power_int_add)
    finally have "f64_exponent (f64_pos q) = f64_exponent q"
      using f64_pos_bounds(1) [OF assms] by (intro f64_exponent_eqI) (simp_all add: f64_pos_unit)
    then have "f64_pos q / unit_of (f64_pos q) = of_int ?k" by (simp add: unit_of_def f64_pos_def Let_def)
    then show ?thesis by (rule f64_pos_int_mantissa [OF pos])
  qed
qed

lemma f64_idem [simp]: "f64 (f64 q) = f64 q"
  using f64_pos_idem [of q] f64_pos_idem [of "- q"] f64_pos_positive [of q] f64_pos_positive [of "- q"] by (auto simp: f64_def)

text \<open>Integers of at most 53 bits are exact.\<close>

lemma f64_pos_of_int:
  assumes "0 < n" "n \<le> 2 ^ 53"
  shows "f64_pos (of_int n) = of_int n"
proof -
  let ?q = "of_int n :: rat"
  have q: "0 < ?q" using assms by simp
  note e = f64_exponent_bounds [OF q]
  have "of_int n \<le> (of_int (2 ^ 53) :: rat)" using assms(2) by (simp only: of_int_le_iff)
  then have top: "?q \<le> 2 powi 53" by simp
  show ?thesis
  proof (cases "f64_exponent ?q \<le> 52")
    case True
    let ?d = "2 ^ nat (52 - f64_exponent ?q) :: int"
    have "unit_of ?q = 1 / of_int ?d"
      using True by (simp add: unit_of_def power_int_def divide_simps)
    then have "?q / unit_of ?q = of_int (n * ?d)" by simp
    then show ?thesis by (rule f64_pos_int_mantissa [OF q])
  next
    case False
    then have "(2 :: rat) powi 53 \<le> 2 powi f64_exponent ?q" by (intro powi_mono) simp
    then have "?q = 2 powi 53" using top e(1) by linarith
    moreover have "f64_exponent ?q = 53" unfolding \<open>?q = 2 powi 53\<close> by (rule f64_exponent_eqI) simp_all
    ultimately have "?q / unit_of ?q = of_int (2 ^ 52)" by (simp add: unit_of_def)
    then show ?thesis by (rule f64_pos_int_mantissa [OF q])
  qed
qed

lemma f64_of_int: "\<bar>n\<bar> \<le> 2 ^ 53 \<Longrightarrow> f64 (of_int n) = of_int n"
  using f64_pos_of_int [of n] f64_pos_of_int [of "- n"] by (auto simp: f64_def)

lemma f64_of_nat: "n \<le> 2 ^ 53 \<Longrightarrow> f64 (of_nat n) = of_nat n"
  using f64_of_int [of "int n"] by simp

end
