(* ===== verification/RateLimit.thy ===== *)
theory RateLimit
  imports F64 Prelude "HOL-Library.AList"
begin

text \<open>
  The per-peer token buckets of the transit daemon (\<^verbatim>\<open>crates/transit/src/peering/rate_limit.rs\<close>) and its
  latency monitor (\<^verbatim>\<open>backpressure.rs\<close>), with the rounding of their floating-point arithmetic. Instants
  are nanoseconds of a monotonic clock; each reading of it is an argument. How an address is parsed
  into the key of its bucket is a parameter.
\<close>

section \<open>Token buckets\<close>

datatype exhaustion_action = Respond431 | DropConnection

record token_bucket =
  tb_capacity :: rat
  tb_rate :: rat
  tb_tokens :: rat
  tb_last_refill :: nat
  tb_exhaustion_action :: exhaustion_action

definition bucket_new :: "rat \<Rightarrow> nat \<Rightarrow> exhaustion_action \<Rightarrow> nat \<Rightarrow> token_bucket" where
  "bucket_new rate capacity action now = \<lparr>tb_capacity = f64 (of_nat capacity), tb_rate = rate, tb_tokens = f64 (of_nat capacity),
     tb_last_refill = now, tb_exhaustion_action = action\<rparr>"

text \<open>\<^verbatim>\<open>Duration::as_secs_f64\<close> of a number of nanoseconds.\<close>

definition as_secs_f64 :: "nat \<Rightarrow> rat" where
  "as_secs_f64 d = f64 (f64 (of_nat (d div 10 ^ 9)) + f64 (of_nat (d mod 10 ^ 9) / 10 ^ 9))"

definition refill :: "token_bucket \<Rightarrow> nat \<Rightarrow> token_bucket" where
  "refill b now =
     (let elapsed = as_secs_f64 (now - tb_last_refill b)
      in b\<lparr>tb_tokens := min (f64 (tb_tokens b + f64 (elapsed * tb_rate b))) (tb_capacity b), tb_last_refill := now\<rparr>)"

definition try_consume :: "token_bucket \<Rightarrow> nat \<Rightarrow> bool \<times> token_bucket" where
  "try_consume b now =
     (let b = refill b now
      in if tb_tokens b \<ge> 1 then (True, b\<lparr>tb_tokens := f64 (tb_tokens b - 1)\<rparr>) else (False, b))"

datatype rate_limit_result = Exhausted exhaustion_action

definition check_and_consume :: "token_bucket \<Rightarrow> nat \<Rightarrow> rate_limit_result option \<times> token_bucket" where
  "check_and_consume b now =
     (case try_consume b now of
        (True, b) \<Rightarrow> (None, b)
      | (False, b) \<Rightarrow> (Some (Exhausted (tb_exhaustion_action b)), b))"

section \<open>The limiter\<close>

record 'ip rate_limiter =
  rl_buckets :: "('ip \<times> token_bucket) list"
  rl_rate :: rat
  rl_capacity :: nat
  rl_action :: exhaustion_action
  rl_call_count :: u64

definition limiter_new :: "rat \<Rightarrow> nat \<Rightarrow> exhaustion_action \<Rightarrow> 'ip rate_limiter" where
  "limiter_new rate capacity action =
     \<lparr>rl_buckets = [], rl_rate = rate, rl_capacity = capacity, rl_action = action, rl_call_count = 0\<rparr>"

definition EVICT_INTERVAL :: u64 where
  "EVICT_INTERVAL = 64"

text \<open>The readings of the clock during one call: for a new bucket, for the refill, and for each bucket that may be evicted.\<close>

record 'ip readings =
  at_new :: nat
  at_check :: nat
  at_evict :: "'ip \<Rightarrow> nat"

definition evict_full :: "rat \<Rightarrow> ('ip \<Rightarrow> nat) \<Rightarrow> ('ip \<times> token_bucket) list \<Rightarrow> ('ip \<times> token_bucket) list" where
  "evict_full cap clock buckets =
     filter (\<lambda>(ip, b). tb_tokens b < cap) (map (\<lambda>(ip, b). (ip, refill b (clock ip))) buckets)"

definition limiter_check ::
  "(bytes \<Rightarrow> 'ip option) \<Rightarrow> 'ip rate_limiter \<Rightarrow> bytes \<Rightarrow> 'ip readings \<Rightarrow> rate_limit_result option \<times> 'ip rate_limiter" where
  "limiter_check parse_addr l peer_addr t =
     (case parse_addr peer_addr of
        None \<Rightarrow> (None, l)
      | Some ip \<Rightarrow>
          let bucket = (case map_of (rl_buckets l) ip of
                 Some b \<Rightarrow> b
               | None \<Rightarrow> bucket_new (rl_rate l) (rl_capacity l) (rl_action l) (at_new t));
              (result, bucket) = check_and_consume bucket (at_check t);
              buckets = AList.update ip bucket (rl_buckets l);
              call_count = rl_call_count l + 1;
              buckets = (if call_count mod EVICT_INTERVAL = 0
                 then evict_full (f64 (of_nat (rl_capacity l))) (at_evict t) buckets else buckets)
          in (result, l\<lparr>rl_buckets := buckets, rl_call_count := call_count\<rparr>))"

definition remove_peer :: "(bytes \<Rightarrow> 'ip option) \<Rightarrow> 'ip rate_limiter \<Rightarrow> bytes \<Rightarrow> 'ip rate_limiter" where
  "remove_peer parse_addr l peer_addr =
     (case parse_addr peer_addr of
        None \<Rightarrow> l
      | Some ip \<Rightarrow> l\<lparr>rl_buckets := filter (\<lambda>(k, _). k \<noteq> ip) (rl_buckets l)\<rparr>)"

section \<open>The latency monitor\<close>

record latency_monitor =
  lm_ema_ms :: rat
  lm_threshold_ms :: u64
  lm_active :: bool
  lm_sample_count :: u64

definition monitor_new :: "u64 \<Rightarrow> latency_monitor" where
  "monitor_new threshold_ms = \<lparr>lm_ema_ms = 0, lm_threshold_ms = threshold_ms, lm_active = False, lm_sample_count = 0\<rparr>"

definition EMA_ALPHA :: rat where
  "EMA_ALPHA = f64 (1 / 10)"

definition record_latency_ms :: "latency_monitor \<Rightarrow> rat \<Rightarrow> latency_monitor" where
  "record_latency_ms m latency_ms =
     (let count = lm_sample_count m;
          new_ema = (if count = 0 then latency_ms
             else f64 (f64 (EMA_ALPHA * latency_ms) + f64 (f64 (1 - EMA_ALPHA) * lm_ema_ms m)));
          was_active = lm_active m;
          threshold = f64 (of_nat (unat (lm_threshold_ms m)))
      in m\<lparr>lm_ema_ms := new_ema, lm_sample_count := count + 1,
           lm_active := (if \<not> was_active \<and> new_ema > threshold then True
             else if was_active \<and> new_ema \<le> threshold then False else was_active)\<rparr>)"

definition queue_hwm_fraction :: "latency_monitor \<Rightarrow> rat" where
  "queue_hwm_fraction m = (if lm_active m then 1 / 2 else 1)"

section \<open>Rounding errors of a refill\<close>

lemma f64_one [simp]: "f64 1 = 1"
  using f64_of_nat [of 1] by simp

lemma as_secs_f64_zero [simp]: "as_secs_f64 0 = 0"
  by (simp add: as_secs_f64_def)

lemma f64_le: "0 \<le> q \<Longrightarrow> f64 q \<le> q * (1 + f64_eps)"
  using f64_error [of q] by (simp add: algebra_simps abs_if split: if_splits)

lemma f64_ge: "0 \<le> q \<Longrightarrow> q * (1 - f64_eps) \<le> f64 q"
  using f64_error [of q] by (simp add: algebra_simps abs_if split: if_splits)

lemma eps_bounds [simp]: "0 < f64_eps" "f64_eps < 1" "0 \<le> f64_eps" "f64_eps \<le> 1"
  by (simp_all add: f64_eps_def power_int_minus)

abbreviation seconds :: "nat \<Rightarrow> rat" where
  "seconds d \<equiv> of_nat d / 10 ^ 9"

lemma seconds_split: "seconds d = of_nat (d div 10 ^ 9) + of_nat (d mod 10 ^ 9) / 10 ^ 9"
proof -
  have "(of_nat d :: rat) = of_nat ((d div 10 ^ 9) * 10 ^ 9 + d mod 10 ^ 9)" by (simp only: div_mult_mod_eq)
  also have "\<dots> = of_nat (d div 10 ^ 9) * 10 ^ 9 + of_nat (d mod 10 ^ 9)" by (simp only: of_nat_add of_nat_mult of_nat_power of_nat_numeral)
  finally show ?thesis by (simp add: field_simps)
qed

lemma as_secs_f64_bounds:
  "as_secs_f64 d \<le> seconds d * (1 + f64_eps) ^ 2" "seconds d * (1 - f64_eps) ^ 2 \<le> as_secs_f64 d" "0 \<le> as_secs_f64 d"
proof -
  let ?s = "of_nat (d div 10 ^ 9) :: rat" and ?n = "of_nat (d mod 10 ^ 9) / 10 ^ 9 :: rat"
  have nn: "0 \<le> ?s" "0 \<le> ?n" by simp_all
  have eq: "seconds d = ?s + ?n" by (rule seconds_split)
  have sum: "0 \<le> f64 ?s + f64 ?n" using f64_nonneg [OF nn(1)] f64_nonneg [OF nn(2)] by simp
  show "0 \<le> as_secs_f64 d" unfolding as_secs_f64_def by (rule f64_nonneg [OF sum])
  have "f64 ?s + f64 ?n \<le> seconds d * (1 + f64_eps)"
    unfolding eq using f64_le [OF nn(1)] f64_le [OF nn(2)] by (simp add: distrib_right)
  then have "(f64 ?s + f64 ?n) * (1 + f64_eps) \<le> seconds d * (1 + f64_eps) * (1 + f64_eps)"
    by (intro mult_right_mono) simp_all
  then show "as_secs_f64 d \<le> seconds d * (1 + f64_eps) ^ 2"
    unfolding as_secs_f64_def power2_eq_square mult.assoc [symmetric] by (rule order_trans [OF f64_le [OF sum]])
  have "seconds d * (1 - f64_eps) \<le> f64 ?s + f64 ?n"
    unfolding eq using f64_ge [OF nn(1)] f64_ge [OF nn(2)] by (simp add: distrib_right)
  then have "seconds d * (1 - f64_eps) * (1 - f64_eps) \<le> (f64 ?s + f64 ?n) * (1 - f64_eps)"
    by (rule mult_right_mono) simp
  then show "seconds d * (1 - f64_eps) ^ 2 \<le> as_secs_f64 d"
    unfolding as_secs_f64_def power2_eq_square mult.assoc [symmetric] by (rule order_trans [OF _ f64_ge [OF sum]])
qed

section \<open>One bucket\<close>

definition bucket_ok :: "rat \<Rightarrow> nat \<Rightarrow> token_bucket \<Rightarrow> bool" where
  "bucket_ok rate capacity b \<longleftrightarrow> tb_rate b = rate \<and> tb_capacity b = f64 (of_nat capacity)
     \<and> 0 \<le> tb_tokens b \<and> tb_tokens b \<le> tb_capacity b"

text \<open>What a second of waiting is worth at most, and the largest error of one rounding of a token count.\<close>

definition rate_up :: "rat \<Rightarrow> rat" where
  "rate_up rate = rate * (1 + f64_eps) ^ 4"

definition slack :: "nat \<Rightarrow> rat" where
  "slack capacity = f64_eps * f64 (of_nat capacity)"

lemma slack_nonneg: "0 \<le> slack capacity"
  by (simp add: slack_def f64_nonneg)

lemma bucket_new_ok [simp]: "bucket_ok rate capacity (bucket_new rate capacity action now)"
  by (simp add: bucket_ok_def bucket_new_def f64_nonneg)

lemma gain_bounds:
  assumes "0 \<le> rate"
  shows "0 \<le> f64 (as_secs_f64 d * rate)" "f64 (as_secs_f64 d * rate) \<le> seconds d * rate * (1 + f64_eps) ^ 3"
    "seconds d * rate * (1 - f64_eps) ^ 3 \<le> f64 (as_secs_f64 d * rate)"
proof -
  have nn: "0 \<le> as_secs_f64 d * rate" using assms as_secs_f64_bounds(3) by simp
  then show "0 \<le> f64 (as_secs_f64 d * rate)" by (rule f64_nonneg)
  have "f64 (as_secs_f64 d * rate) \<le> as_secs_f64 d * (rate * (1 + f64_eps))" using f64_le [OF nn] by (simp add: mult.assoc)
  also have "\<dots> \<le> seconds d * (1 + f64_eps) ^ 2 * (rate * (1 + f64_eps))"
    using as_secs_f64_bounds(1) assms by (intro mult_right_mono) simp_all
  finally show "f64 (as_secs_f64 d * rate) \<le> seconds d * rate * (1 + f64_eps) ^ 3"
    by (simp add: power2_eq_square power3_eq_cube mult_ac)
  have "seconds d * rate * (1 - f64_eps) ^ 3 = seconds d * (1 - f64_eps) ^ 2 * (rate * (1 - f64_eps))"
    by (simp add: power2_eq_square power3_eq_cube mult_ac)
  also have "\<dots> \<le> as_secs_f64 d * (rate * (1 - f64_eps))"
    using as_secs_f64_bounds(2) assms by (intro mult_right_mono) simp_all
  also have "\<dots> \<le> f64 (as_secs_f64 d * rate)" using f64_ge [OF nn] by (simp add: mult.assoc)
  finally show "seconds d * rate * (1 - f64_eps) ^ 3 \<le> f64 (as_secs_f64 d * rate)" .
qed

lemma refill_frame [simp]: "tb_capacity (refill b now) = tb_capacity b" "tb_rate (refill b now) = tb_rate b"
  "tb_last_refill (refill b now) = now" "tb_exhaustion_action (refill b now) = tb_exhaustion_action b"
  by (simp_all add: refill_def Let_def)

lemma refill_ok:
  assumes "0 \<le> rate" "bucket_ok rate capacity b"
  shows "bucket_ok rate capacity (refill b now)"
    "tb_tokens (refill b now) \<le> tb_tokens b + rate_up rate * seconds (now - tb_last_refill b) + slack capacity"
proof -
  let ?d = "now - tb_last_refill b" and ?cap = "f64 (of_nat capacity)"
  let ?g = "f64 (as_secs_f64 ?d * rate)" and ?t = "tb_tokens b"
  have t: "0 \<le> ?t" "?t \<le> ?cap" "tb_rate b = rate" "tb_capacity b = ?cap" using assms(2) by (auto simp: bucket_ok_def)
  note g = gain_bounds [OF assms(1), of ?d]
  have new: "tb_tokens (refill b now) = min (f64 (?t + ?g)) ?cap" by (simp add: refill_def Let_def t)
  have "0 \<le> f64 (?t + ?g)" using t g by (intro f64_nonneg) simp
  then show "bucket_ok rate capacity (refill b now)" using assms(2) t(1,2) by (simp add: bucket_ok_def new)
  have "f64 (?t + ?g) \<le> (?t + ?g) * (1 + f64_eps)" using t g by (intro f64_le) simp
  also have "\<dots> = ?t + f64_eps * ?t + ?g * (1 + f64_eps)" by (simp add: algebra_simps)
  also have "\<dots> \<le> ?t + slack capacity + seconds ?d * rate * (1 + f64_eps) ^ 3 * (1 + f64_eps)"
    unfolding slack_def using t(2) g(2) by (intro add_mono mult_left_mono mult_right_mono) simp_all
  also have "\<dots> = ?t + rate_up rate * seconds ?d + slack capacity" by (simp add: rate_up_def power3_eq_cube power4_eq_xxxx mult_ac)
  finally show "tb_tokens (refill b now) \<le> ?t + rate_up rate * seconds ?d + slack capacity" by (simp add: new)
qed

lemma consume_ok:
  assumes "0 \<le> rate" "bucket_ok rate capacity b" "check_and_consume b now = (r, b')"
  shows "bucket_ok rate capacity b'" "tb_last_refill b' = now" "tb_exhaustion_action b' = tb_exhaustion_action b"
    "tb_tokens b' + (if r = None then 1 else 0)
       \<le> tb_tokens b + rate_up rate * seconds (now - tb_last_refill b) + 2 * slack capacity"
proof -
  let ?b = "refill b now"
  note re = refill_ok [OF assms(1,2), of now]
  have cases: "(r = None \<and> 1 \<le> tb_tokens ?b \<and> b' = ?b\<lparr>tb_tokens := f64 (tb_tokens ?b - 1)\<rparr>)
      \<or> (r \<noteq> None \<and> b' = ?b)"
    using assms(3) by (auto simp: check_and_consume_def try_consume_def Let_def split: if_splits)
  have minus: "0 \<le> f64 (tb_tokens ?b - 1)" "f64 (tb_tokens ?b - 1) \<le> f64 (of_nat capacity)"
    "f64 (tb_tokens ?b - 1) \<le> tb_tokens ?b - 1 + slack capacity" if "1 \<le> tb_tokens ?b"
  proof -
    show "0 \<le> f64 (tb_tokens ?b - 1)" using that by (intro f64_nonneg) simp
    have le: "tb_tokens ?b - 1 \<le> f64 (of_nat capacity)" using re(1) by (simp add: bucket_ok_def)
    then show "f64 (tb_tokens ?b - 1) \<le> f64 (of_nat capacity)" using f64_mono by fastforce
    have "f64 (tb_tokens ?b - 1) \<le> (tb_tokens ?b - 1) * (1 + f64_eps)" using that by (intro f64_le) simp
    also have "\<dots> = tb_tokens ?b - 1 + f64_eps * (tb_tokens ?b - 1)" by (simp add: algebra_simps)
    also have "\<dots> \<le> tb_tokens ?b - 1 + slack capacity" unfolding slack_def using le by (intro add_left_mono mult_left_mono) simp_all
    finally show "f64 (tb_tokens ?b - 1) \<le> tb_tokens ?b - 1 + slack capacity" .
  qed
  show "bucket_ok rate capacity b'" using cases re(1) minus(1,2) by (auto simp: bucket_ok_def)
  show "tb_last_refill b' = now" "tb_exhaustion_action b' = tb_exhaustion_action b" using cases by auto
  show "tb_tokens b' + (if r = None then 1 else 0)
       \<le> tb_tokens b + rate_up rate * seconds (now - tb_last_refill b) + 2 * slack capacity"
  proof (cases "r = None")
    case True
    with cases have "1 \<le> tb_tokens ?b" "tb_tokens b' = f64 (tb_tokens ?b - 1)" by auto
    with True minus(3) re(2) show ?thesis by simp
  next
    case False
    with cases have "tb_tokens b' = tb_tokens ?b" by auto
    moreover have "0 \<le> slack capacity" by (rule slack_nonneg)
    ultimately have "tb_tokens b' \<le> tb_tokens b + rate_up rate * seconds (now - tb_last_refill b) + 2 * slack capacity"
      using re(2) by linarith
    then show ?thesis by (simp only: False if_False add_0_right)
  qed
qed

section \<open>A run of the limiter\<close>

text \<open>What the limiter would grant the peer at most right now, and since when.\<close>

definition balance :: "'ip rate_limiter \<Rightarrow> 'ip \<Rightarrow> rat" where
  "balance l ip = (case map_of (rl_buckets l) ip of Some b \<Rightarrow> tb_tokens b | None \<Rightarrow> f64 (of_nat (rl_capacity l)))"

definition since :: "'ip rate_limiter \<Rightarrow> 'ip \<Rightarrow> nat \<Rightarrow> nat" where
  "since l ip now = (case map_of (rl_buckets l) ip of Some b \<Rightarrow> tb_last_refill b | None \<Rightarrow> now)"

definition potential :: "rat \<Rightarrow> 'ip rate_limiter \<Rightarrow> 'ip \<Rightarrow> nat \<Rightarrow> rat" where
  "potential rate l ip now = balance l ip - rate_up rate * seconds (since l ip now)"

definition limiter_ok :: "rat \<Rightarrow> nat \<Rightarrow> 'ip rate_limiter \<Rightarrow> bool" where
  "limiter_ok rate capacity l \<longleftrightarrow> rl_rate l = rate \<and> rl_capacity l = capacity
     \<and> (\<forall>ip b. map_of (rl_buckets l) ip = Some b \<longrightarrow> bucket_ok rate capacity b) \<and> distinct (map fst (rl_buckets l))"

text \<open>The readings of a call follow one another and the earlier calls.\<close>

definition readings_ok :: "nat \<Rightarrow> 'ip readings \<Rightarrow> nat \<Rightarrow> bool" where
  "readings_ok t0 t t1 \<longleftrightarrow> t0 \<le> at_new t \<and> at_new t \<le> at_check t \<and> (\<forall>ip. at_check t \<le> at_evict t ip \<and> at_evict t ip \<le> t1)"

lemma map_of_evict:
  assumes "distinct (map fst bs)"
  shows "map_of (evict_full cap clock bs) ip =
    (case map_of bs ip of None \<Rightarrow> None
     | Some b \<Rightarrow> if tb_tokens (refill b (clock ip)) < cap then Some (refill b (clock ip)) else None)"
  using assms
proof (induction bs)
  case (Cons x bs)
  obtain k b where x: "x = (k, b)" by fastforce
  have "k = ip \<Longrightarrow> map_of bs ip = None" using Cons.prems x by (simp add: map_of_eq_None_iff)
  with Cons show ?case by (auto simp: x evict_full_def)
qed (simp add: evict_full_def)

lemma distinct_evict: "distinct (map fst bs) \<Longrightarrow> distinct (map fst (evict_full cap clock bs))"
  by (induction bs) (auto simp: evict_full_def intro: rev_image_eqI)

definition refilled_by :: "nat \<Rightarrow> 'ip rate_limiter \<Rightarrow> bool" where
  "refilled_by now l \<longleftrightarrow> (\<forall>ip b. map_of (rl_buckets l) ip = Some b \<longrightarrow> tb_last_refill b \<le> now)"

lemma rate_up_nonneg: "0 \<le> rate \<Longrightarrow> 0 \<le> rate_up rate"
  by (simp add: rate_up_def add_nonneg_nonneg)

lemma rate_seconds_mono: "0 \<le> rate \<Longrightarrow> s \<le> t \<Longrightarrow> rate_up rate * seconds s \<le> rate_up rate * seconds t"
  by (intro mult_left_mono divide_right_mono) (simp_all add: rate_up_nonneg)

lemma rate_seconds_diff: "s \<le> t \<Longrightarrow> rate_up rate * seconds (t - s) = rate_up rate * seconds t - rate_up rate * seconds s"
  by (simp add: of_nat_diff diff_divide_distrib right_diff_distrib)

lemma potential_later: "0 \<le> rate \<Longrightarrow> now \<le> now' \<Longrightarrow> potential rate l ip now' \<le> potential rate l ip now"
  using rate_seconds_mono [of rate now now'] by (simp add: potential_def since_def split: option.split)

lemma evict_ok:
  assumes ok: "limiter_ok rate capacity l" "0 \<le> rate" "refilled_by now l" and clock: "\<And>ip. now \<le> clock ip \<and> clock ip \<le> now'"
    and l': "l' = l\<lparr>rl_buckets := evict_full (f64 (of_nat capacity)) clock (rl_buckets l)\<rparr>"
  shows "limiter_ok rate capacity l'" "refilled_by now' l'" "potential rate l' ip now' \<le> potential rate l ip now + slack capacity"
proof -
  have d: "distinct (map fst (rl_buckets l))" and cap: "rl_capacity l = capacity"
    and b: "\<And>ip b. map_of (rl_buckets l) ip = Some b \<Longrightarrow> bucket_ok rate capacity b" using ok(1) by (auto simp: limiter_ok_def)
  note m = map_of_evict [OF d, of "f64 (of_nat capacity)" clock]
  show "limiter_ok rate capacity l'"
    using ok b by (auto simp: l' limiter_ok_def m distinct_evict refill_ok(1) split: option.splits if_splits)
  show "refilled_by now' l'" using clock by (auto simp: l' refilled_by_def m split: option.splits if_splits)
  show "potential rate l' ip now' \<le> potential rate l ip now + slack capacity"
  proof (cases "map_of (rl_buckets l) ip")
    case None
    then have "potential rate l' ip now' = potential rate l ip now'" by (simp add: potential_def balance_def since_def l' m)
    moreover have "now \<le> now'" using clock [of ip] by simp
    ultimately show ?thesis using potential_later [OF ok(2)] slack_nonneg [of capacity] by (metis add_increasing2)
  next
    case (Some x)
    let ?x = "refill x (clock ip)"
    have "tb_last_refill x \<le> clock ip" using ok(3) clock [of ip] Some by (fastforce simp: refilled_by_def)
    then have grow: "tb_tokens ?x - rate_up rate * seconds (clock ip) \<le> tb_tokens x - rate_up rate * seconds (tb_last_refill x) + slack capacity"
      using refill_ok(2) [OF ok(2) b [OF Some], of "clock ip"] rate_seconds_diff [of "tb_last_refill x" "clock ip" rate] by linarith
    have pot: "potential rate l ip now = tb_tokens x - rate_up rate * seconds (tb_last_refill x)"
      by (simp add: potential_def balance_def since_def Some)
    show ?thesis
    proof (cases "tb_tokens ?x < f64 (of_nat capacity)")
      case True
      then have "potential rate l' ip now' = tb_tokens ?x - rate_up rate * seconds (clock ip)"
        by (simp add: potential_def balance_def since_def l' m Some)
      with grow pot show ?thesis by simp
    next
      case False
      then have "potential rate l' ip now' = f64 (of_nat capacity) - rate_up rate * seconds now'"
        by (simp add: potential_def balance_def since_def l' m Some cap)
      moreover have "rate_up rate * seconds (clock ip) \<le> rate_up rate * seconds now'"
        using clock [of ip] by (intro rate_seconds_mono [OF ok(2)]) simp
      ultimately show ?thesis using grow pot False by linarith
    qed
  qed
qed

lemma consume_step_ok:
  assumes ok: "limiter_ok rate capacity l" "0 \<le> rate" "refilled_by now l" and t: "now \<le> s" "s \<le> t"
    and b: "b = (case map_of (rl_buckets l) ip of Some b \<Rightarrow> b | None \<Rightarrow> bucket_new (rl_rate l) (rl_capacity l) (rl_action l) s)"
    and c: "check_and_consume b t = (r, b')" and l': "l' = l\<lparr>rl_buckets := AList.update ip b' (rl_buckets l)\<rparr>"
  shows "limiter_ok rate capacity l'" "refilled_by t l'"
    "potential rate l' ip t + (if r = None then 1 else 0) \<le> potential rate l ip now + 2 * slack capacity"
    "ip' \<noteq> ip \<Longrightarrow> potential rate l' ip' t \<le> potential rate l ip' now"
proof -
  have nt: "now \<le> t" using t by simp
  have m: "map_of (rl_buckets l') = (map_of (rl_buckets l))(ip \<mapsto> b')" by (simp add: l' update_conv')
  have cap: "rl_capacity l' = rl_capacity l" by (simp add: l')
  have b_ok: "bucket_ok rate capacity b" using ok(1) by (auto simp: b limiter_ok_def split: option.split)
  have last: "tb_last_refill b \<le> t" "potential rate l ip now \<ge> tb_tokens b - rate_up rate * seconds (tb_last_refill b)"
    using ok(1,3) t rate_seconds_mono [OF ok(2) t(1)]
    by (auto simp: b bucket_new_def potential_def balance_def since_def refilled_by_def limiter_ok_def split: option.split intro: le_trans [OF _ nt])
  note k = consume_ok [OF ok(2) b_ok c]
  show "limiter_ok rate capacity l'" using ok(1) k(1) by (auto simp: limiter_ok_def m) (auto simp: l' distinct_update)
  show "refilled_by t l'" using ok(3) k(2) nt by (auto simp: refilled_by_def m intro: le_trans)
  have "potential rate l' ip t = tb_tokens b' - rate_up rate * seconds t"
    by (simp add: potential_def balance_def since_def m k(2))
  then show "potential rate l' ip t + (if r = None then 1 else 0) \<le> potential rate l ip now + 2 * slack capacity"
    using k(4) last rate_seconds_diff [OF last(1), of rate] by linarith
  assume "ip' \<noteq> ip"
  then have "potential rate l' ip' t = potential rate l ip' t" by (simp add: potential_def balance_def since_def m cap cong: option.case_cong)
  then show "potential rate l' ip' t \<le> potential rate l ip' now" using potential_later [OF ok(2) nt] by simp
qed

lemma limiter_check_ok:
  assumes ok: "limiter_ok rate capacity l" "0 \<le> rate" "refilled_by now l" and t: "readings_ok now t now'"
    and c: "limiter_check parse_addr l addr t = (r, l')"
  shows "limiter_ok rate capacity l'" "refilled_by now' l'"
    "potential rate l' ip now' + (if parse_addr addr = Some ip \<and> r = None then 1 else 0)
       \<le> potential rate l ip now + 3 * slack capacity"
proof -
  have tt: "now \<le> at_new t" "at_new t \<le> at_check t" "at_check t \<le> now'" "now \<le> now'"
    "\<And>ip. at_check t \<le> at_evict t ip \<and> at_evict t ip \<le> now'"
    using t le_trans by (auto simp: readings_ok_def)
  have "limiter_ok rate capacity l' \<and> refilled_by now' l' \<and>
    potential rate l' ip now' + (if parse_addr addr = Some ip \<and> r = None then 1 else 0) \<le> potential rate l ip now + 3 * slack capacity"
  proof (cases "parse_addr addr")
    case None
    then have "l' = l" using c by (simp add: limiter_check_def)
    moreover have "refilled_by now' l" using ok(3) tt(4) le_trans by (fastforce simp: refilled_by_def)
    moreover have "potential rate l ip now' \<le> potential rate l ip now + 3 * slack capacity"
      using potential_later [OF ok(2) tt(4), of l ip] slack_nonneg [of capacity] by linarith
    ultimately show ?thesis using ok(1) None by simp
  next
    case (Some k)
    define b where "b = (case map_of (rl_buckets l) k of Some b \<Rightarrow> b | None \<Rightarrow> bucket_new (rl_rate l) (rl_capacity l) (rl_action l) (at_new t))"
    obtain r' b' where rb: "check_and_consume b (at_check t) = (r', b')" by fastforce
    define l1 where "l1 = l\<lparr>rl_buckets := AList.update k b' (rl_buckets l)\<rparr>"
    note s = consume_step_ok [OF ok tt(1,2) b_def rb l1_def]
    have one: "potential rate l1 ip (at_check t) + (if k = ip \<and> r' = None then 1 else 0) \<le> potential rate l ip now + 2 * slack capacity"
    proof (cases "k = ip")
      case False
      then show ?thesis using s(4) [of ip] slack_nonneg [of capacity] by simp
    qed (use s(3) in simp)
    have cap: "rl_capacity l = capacity" using ok(1) by (simp add: limiter_ok_def)
    define l2 where "l2 = (if (rl_call_count l + 1) mod EVICT_INTERVAL = 0
      then l1\<lparr>rl_buckets := evict_full (f64 (of_nat capacity)) (at_evict t) (rl_buckets l1)\<rparr> else l1)"
    have eq: "r = r'" "l' = l2\<lparr>rl_call_count := rl_call_count l + 1\<rparr>"
      using c by (auto simp: limiter_check_def Some b_def [symmetric] rb l1_def l2_def cap Let_def split: if_splits)
    have "limiter_ok rate capacity l2 \<and> refilled_by now' l2 \<and> potential rate l2 ip now' \<le> potential rate l1 ip (at_check t) + slack capacity"
    proof (cases "(rl_call_count l + 1) mod EVICT_INTERVAL = 0")
      case True
      then have "l2 = l1\<lparr>rl_buckets := evict_full (f64 (of_nat capacity)) (at_evict t) (rl_buckets l1)\<rparr>" by (simp add: l2_def)
      note e = evict_ok [OF s(1) ok(2) s(2) tt(5) this]
      show ?thesis using e by simp
    next
      case False
      have "refilled_by now' l1" using s(2) tt(3) le_trans by (fastforce simp: refilled_by_def)
      moreover have "potential rate l1 ip now' \<le> potential rate l1 ip (at_check t) + slack capacity"
        using potential_later [OF ok(2) tt(3), of l1 ip] slack_nonneg [of capacity] by linarith
      ultimately show ?thesis using False s(1) by (simp add: l2_def)
    qed
    moreover have "limiter_ok rate capacity l' = limiter_ok rate capacity l2" "refilled_by now' l' = refilled_by now' l2"
      "potential rate l' ip now' = potential rate l2 ip now'"
      by (simp_all add: eq limiter_ok_def refilled_by_def potential_def balance_def since_def cong: option.case_cong)
    ultimately show ?thesis using one by (simp add: Some eq(1) split: if_splits)
  qed
  then show "limiter_ok rate capacity l'" "refilled_by now' l'"
    "potential rate l' ip now' + (if parse_addr addr = Some ip \<and> r = None then 1 else 0)
       \<le> potential rate l ip now + 3 * slack capacity" by blast+
qed

fun limiter_run ::
  "(bytes \<Rightarrow> 'ip option) \<Rightarrow> 'ip rate_limiter \<Rightarrow> (bytes \<times> 'ip readings) list \<Rightarrow> rate_limit_result option list \<times> 'ip rate_limiter" where
  "limiter_run parse_addr l [] = ([], l)"
| "limiter_run parse_addr l ((addr, t) # reqs) =
     (case limiter_check parse_addr l addr t of (r, l') \<Rightarrow>
        case limiter_run parse_addr l' reqs of (rs, l'') \<Rightarrow> (r # rs, l''))"

text \<open>Requests the limiter let through for a peer.\<close>

fun admitted :: "(bytes \<Rightarrow> 'ip option) \<Rightarrow> 'ip \<Rightarrow> (bytes \<times> 'ip readings) list \<Rightarrow> rate_limit_result option list \<Rightarrow> nat" where
  "admitted parse_addr ip ((addr, t) # reqs) (r # rs) =
     (if parse_addr addr = Some ip \<and> r = None then 1 else 0) + admitted parse_addr ip reqs rs"
| "admitted parse_addr ip reqs rs = 0"

fun clock_ok :: "nat \<Rightarrow> (bytes \<times> 'ip readings) list \<Rightarrow> nat \<Rightarrow> bool" where
  "clock_ok t0 [] t1 = (t0 \<le> t1)"
| "clock_ok t0 ((addr, t) # reqs) t1 = (\<exists>m. readings_ok t0 t m \<and> clock_ok m reqs t1)"

lemma limiter_run_ok:
  assumes "limiter_ok rate capacity l" "0 \<le> rate" "refilled_by t0 l" "clock_ok t0 reqs t1"
    "limiter_run parse_addr l reqs = (rs, l')"
  shows "limiter_ok rate capacity l'" "refilled_by t1 l'"
    "potential rate l' ip t1 + of_nat (admitted parse_addr ip reqs rs) \<le> potential rate l ip t0 + 3 * slack capacity * of_nat (length reqs)"
proof -
  have "limiter_ok rate capacity l' \<and> refilled_by t1 l' \<and>
    potential rate l' ip t1 + of_nat (admitted parse_addr ip reqs rs) \<le> potential rate l ip t0 + 3 * slack capacity * of_nat (length reqs)"
    using assms
  proof (induction reqs arbitrary: l rs t0)
    case Nil
    then have "t0 \<le> t1" by simp
    then have "refilled_by t1 l" using Nil.prems(3) le_trans by (fastforce simp: refilled_by_def)
    then show ?case using Nil.prems potential_later [OF Nil.prems(2) \<open>t0 \<le> t1\<close>, of l ip] by simp
  next
    case (Cons req reqs)
    obtain addr t where req: "req = (addr, t)" by fastforce
    obtain m where m: "readings_ok t0 t m" "clock_ok m reqs t1" using Cons.prems(4) by (auto simp: req)
    obtain r l1 where c: "limiter_check parse_addr l addr t = (r, l1)" by fastforce
    obtain rs1 where rs: "limiter_run parse_addr l1 reqs = (rs1, l')" "rs = r # rs1"
      using Cons.prems(5) by (auto simp: req c split: prod.splits)
    note k = limiter_check_ok [OF Cons.prems(1-3) m(1) c]
    note ih = Cons.IH [OF k(1) Cons.prems(2) k(2) m(2) rs(1)]
    have "potential rate l' ip t1 + of_nat (admitted parse_addr ip (req # reqs) rs)
        \<le> potential rate l ip t0 + 3 * slack capacity * (of_nat (length reqs) + 1)"
    proof -
      have "rat_of_nat (admitted parse_addr ip (req # reqs) rs)
          = (if parse_addr addr = Some ip \<and> r = None then 1 else 0) + of_nat (admitted parse_addr ip reqs rs1)"
        by (simp add: req rs(2))
      then show ?thesis using ih k(3) [of ip] unfolding distrib_left mult_1_right by linarith
    qed
    then show ?case using ih by (simp add: add.commute)
  qed
  then show "limiter_ok rate capacity l'" "refilled_by t1 l'"
    "potential rate l' ip t1 + of_nat (admitted parse_addr ip reqs rs) \<le> potential rate l ip t0 + 3 * slack capacity * of_nat (length reqs)" by blast+
qed

lemma limiter_new_ok: "limiter_ok rate capacity (limiter_new rate capacity action)" "refilled_by t0 (limiter_new rate capacity action)"
  "potential rate (limiter_new rate capacity action) ip t0 = f64 (of_nat capacity) - rate_up rate * seconds t0"
  by (simp_all add: limiter_ok_def refilled_by_def limiter_new_def potential_def balance_def since_def)

lemma potential_at_least:
  assumes "limiter_ok rate capacity l" "0 \<le> rate" "refilled_by now l"
  shows "- (rate_up rate * seconds now) \<le> potential rate l ip now"
proof (cases "map_of (rl_buckets l) ip")
  case (Some b)
  then have "0 \<le> tb_tokens b" "tb_last_refill b \<le> now" using assms(1,3) by (auto simp: limiter_ok_def bucket_ok_def refilled_by_def)
  then show ?thesis using rate_seconds_mono [OF assms(2), of "tb_last_refill b" now]
    by (simp add: potential_def balance_def since_def Some)
qed (simp add: potential_def balance_def since_def f64_nonneg)

text \<open>
  C31. Whatever the peers send, in whatever order and from however many connections, the limiter lets
  at most the burst size plus the rate times the elapsed time through for one address. The bound
  includes the rounding of the floating-point token counts: a relative 2 to the power -53 per
  operation, at most three operations on a bucket per call. Evicting full buckets gives nobody more.
\<close>

theorem rate_limit_bound:
  assumes "0 \<le> rate" "clock_ok t0 reqs t1"
  shows "of_nat (admitted parse_addr ip reqs (fst (limiter_run parse_addr (limiter_new rate capacity action) reqs)))
    \<le> f64 (of_nat capacity) + rate_up rate * seconds (t1 - t0) + 3 * slack capacity * of_nat (length reqs)"
proof -
  obtain rs l where run: "limiter_run parse_addr (limiter_new rate capacity action) reqs = (rs, l)" by fastforce
  note r = limiter_run_ok [OF limiter_new_ok(1) assms(1) limiter_new_ok(2) assms(2) run]
  have "t0 \<le> t1" using assms(2)
  proof (induction reqs arbitrary: t0)
    case (Cons req reqs)
    then obtain m where "readings_ok t0 (snd req) m" "m \<le> t1" by (cases req) auto
    then show ?case by (auto simp: readings_ok_def intro: le_trans)
  qed simp
  from rate_seconds_diff [OF this, of rate] show ?thesis
    using r(3) [of ip] potential_at_least [OF r(1) assms(1) r(2), of ip] unfolding run fst_conv limiter_new_ok(3) by linarith
qed

definition demo_parse_addr :: "bytes \<Rightarrow> nat option" where
  "demo_parse_addr a = (if a = [] then None else Some (length a))"

definition at_instant :: "nat \<Rightarrow> 'ip readings" where
  "at_instant t = \<lparr>at_new = t, at_check = t, at_evict = (\<lambda>_. t)\<rparr>"

definition demo_requests :: "(bytes \<times> nat readings) list" where
  "demo_requests = map (\<lambda>t. (''a'', at_instant t)) [5, 5]"

theorem rate_limit_bound_witness:
  "map (\<lambda>r. r = None) (fst (limiter_run demo_parse_addr (limiter_new (10 ^ 9) 1 Respond431) demo_requests)) = [True, False]
   \<and> of_nat (admitted demo_parse_addr 1 demo_requests (fst (limiter_run demo_parse_addr (limiter_new (10 ^ 9) 1 Respond431) demo_requests)))
     \<le> f64 (of_nat 1) + rate_up (10 ^ 9) * seconds (6 - 5) + 3 * slack 1 * of_nat (length demo_requests)"
proof
  show "map (\<lambda>r. r = None) (fst (limiter_run demo_parse_addr (limiter_new (10 ^ 9) 1 Respond431) demo_requests)) = [True, False]"
    by (simp add: demo_requests_def at_instant_def demo_parse_addr_def limiter_new_def limiter_check_def check_and_consume_def
        try_consume_def refill_def bucket_new_def Let_def EVICT_INTERVAL_def)
  have "clock_ok 5 demo_requests 6"
    by (auto simp: demo_requests_def at_instant_def readings_ok_def intro!: exI [of _ 5])
  then show "of_nat (admitted demo_parse_addr 1 demo_requests (fst (limiter_run demo_parse_addr (limiter_new (10 ^ 9) 1 Respond431) demo_requests)))
     \<le> f64 (of_nat 1) + rate_up (10 ^ 9) * seconds (6 - 5) + 3 * slack 1 * of_nat (length demo_requests)"
    by (rule rate_limit_bound [rotated]) simp
qed

lemma refill_tokens_ge:
  assumes "0 \<le> rate" "bucket_ok rate capacity b" "1 \<le> seconds (now - tb_last_refill b) * rate * (1 - f64_eps) ^ 4" "1 \<le> f64 (of_nat capacity)"
  shows "1 \<le> tb_tokens (refill b now)"
proof -
  let ?d = "now - tb_last_refill b"
  let ?g = "f64 (as_secs_f64 ?d * rate)"
  have t: "0 \<le> tb_tokens b" "tb_rate b = rate" "tb_capacity b = f64 (of_nat capacity)" using assms(2) by (auto simp: bucket_ok_def)
  note g = gain_bounds [OF assms(1), of ?d]
  have "seconds ?d * rate * (1 - f64_eps) ^ 4 = seconds ?d * rate * (1 - f64_eps) ^ 3 * (1 - f64_eps)"
    by (simp add: power3_eq_cube power4_eq_xxxx)
  also have "\<dots> \<le> ?g * (1 - f64_eps)" by (rule mult_right_mono [OF g(3)]) simp
  also have "\<dots> \<le> (tb_tokens b + ?g) * (1 - f64_eps)" by (rule mult_right_mono) (simp_all add: t(1))
  also have "\<dots> \<le> f64 (tb_tokens b + ?g)" using t(1) g(1) by (intro f64_ge) simp
  finally have "1 \<le> f64 (tb_tokens b + ?g)" using assms(3) by linarith
  then show ?thesis using assms(4) by (simp add: refill_def Let_def t(2,3))
qed

lemma new_bucket_tokens:
  assumes "0 \<le> rate"
  shows "tb_tokens (refill (bucket_new rate capacity action s) now) = f64 (of_nat capacity)"
proof -
  let ?g = "f64 (as_secs_f64 (now - s) * rate)"
  have "f64 (f64 (of_nat capacity)) \<le> f64 (f64 (of_nat capacity) + ?g)" using gain_bounds(1) [OF assms] by (intro f64_mono) simp
  then show ?thesis by (simp add: refill_def bucket_new_def Let_def min_def)
qed

text \<open>
  C32. A peer that sends slowly enough is always served: after any history, a request that comes at
  least one token's worth of time (with four roundings) after the last reading of the clock is let
  through, as long as the burst size is at least one.
\<close>

theorem patient_peer_served:
  assumes "0 \<le> rate" "1 \<le> capacity" "clock_ok t0 reqs t1" "1 \<le> seconds (at_check t - t1) * rate * (1 - f64_eps) ^ 4"
  shows "fst (limiter_check parse_addr (snd (limiter_run parse_addr (limiter_new rate capacity action) reqs)) addr t) = None"
proof (cases "parse_addr addr")
  case (Some ip)
  obtain rs l where run: "limiter_run parse_addr (limiter_new rate capacity action) reqs = (rs, l)" by fastforce
  note r = limiter_run_ok(1,2) [OF limiter_new_ok(1) assms(1) limiter_new_ok(2) assms(3) run]
  have "f64 1 \<le> f64 (of_nat capacity)" using assms(2) by (intro f64_mono) simp
  then have cap: "1 \<le> f64 (of_nat capacity)" by simp
  define b where "b = (case map_of (rl_buckets l) ip of Some b \<Rightarrow> b | None \<Rightarrow> bucket_new (rl_rate l) (rl_capacity l) (rl_action l) (at_new t))"
  have "1 \<le> tb_tokens (refill b (at_check t))"
  proof (cases "map_of (rl_buckets l) ip")
    case None
    then have "b = bucket_new rate capacity (rl_action l) (at_new t)" using r(1) by (simp add: b_def limiter_ok_def)
    then show ?thesis using new_bucket_tokens [OF assms(1)] cap by simp
  next
    case b': (Some b')
    then have b: "bucket_ok rate capacity b'" "tb_last_refill b' \<le> t1" "b = b'" using r by (auto simp: b_def limiter_ok_def refilled_by_def)
    have "seconds (at_check t - t1) * (rate * (1 - f64_eps) ^ 4) \<le> seconds (at_check t - tb_last_refill b') * (rate * (1 - f64_eps) ^ 4)"
      using b(2) assms(1) by (intro mult_right_mono divide_right_mono) simp_all
    then have "1 \<le> seconds (at_check t - tb_last_refill b') * rate * (1 - f64_eps) ^ 4"
      using assms(4) by (simp only: mult.assoc)
    then show ?thesis unfolding b(3) by (rule refill_tokens_ge [OF assms(1) b(1) _ cap])
  qed
  then have "fst (check_and_consume b (at_check t)) = None" by (simp add: check_and_consume_def try_consume_def Let_def)
  then show ?thesis by (auto simp: run limiter_check_def Some b_def [symmetric] Let_def split: prod.splits)
qed (simp add: limiter_check_def)

theorem patient_peer_served_witness:
  "fst (limiter_check demo_parse_addr (snd (limiter_run demo_parse_addr (limiter_new (10 ^ 9) 1 Respond431) demo_requests)) ''a'' (at_instant 8)) = None"
proof (rule patient_peer_served)
  show "clock_ok 5 demo_requests 6"
    by (auto simp: demo_requests_def at_instant_def readings_ok_def intro!: exI [of _ 5])
  show "1 \<le> seconds (at_check (at_instant 8) - 6) * 10 ^ 9 * (1 - f64_eps) ^ 4"
    by code_simp
qed simp_all

section \<open>The monitor\<close>

text \<open>Backpressure is on exactly when the average after the last sample is above the threshold, whatever came before.\<close>

lemma monitor_follows_average:
  "lm_active (record_latency_ms m latency_ms) \<longleftrightarrow> lm_ema_ms (record_latency_ms m latency_ms) > f64 (of_nat (unat (lm_threshold_ms m)))"
  by (auto simp: record_latency_ms_def Let_def)

end
