(* ===== verification/Peers.thy ===== *)
theory Peers
  imports SqliteLog F64
begin

text \<open>
  The registry of peers of the transit daemon (\<^verbatim>\<open>crates/transit/src/peering/peer_registry.rs\<close>, the table
  \<^verbatim>\<open>peers\<close>) and automatic blacklisting (\<^verbatim>\<open>blacklist.rs\<close>), with the helpers of \<^verbatim>\<open>session.rs\<close> that call them.
  Times and counters are integers; they stay far below the 64 bits the columns have.
\<close>

section \<open>The table\<close>

record peer_record =
  pr_peer_id :: bytes
  pr_address :: bytes
  pr_last_seen_ms :: int
  pr_articles_accepted :: int
  pr_articles_rejected :: int
  pr_consecutive_failures :: int
  pr_blacklisted_until_ms :: "int option"
  pr_configured :: bool

type_synonym peers = "peer_record list"

definition peer_get :: "peers \<Rightarrow> bytes \<Rightarrow> peer_record option" where
  "peer_get rows peer_id = find (\<lambda>r. pr_peer_id r = peer_id) rows"

definition update_peer :: "bytes \<Rightarrow> (peer_record \<Rightarrow> peer_record) \<Rightarrow> peers \<Rightarrow> peers" where
  "update_peer peer_id f rows = map (\<lambda>r. if pr_peer_id r = peer_id then f r else r) rows"

definition upsert :: "peers \<Rightarrow> peer_record \<Rightarrow> peers" where
  "upsert rows rec = (if peer_get rows (pr_peer_id rec) = None then rows @ [rec] else update_peer (pr_peer_id rec) (\<lambda>_. rec) rows)"

definition ensure_registered :: "peers \<Rightarrow> bytes \<Rightarrow> bytes \<Rightarrow> int \<Rightarrow> peers" where
  "ensure_registered rows peer_id address now_ms =
     (if peer_get rows peer_id \<noteq> None then rows
      else rows @ [\<lparr>pr_peer_id = peer_id, pr_address = address, pr_last_seen_ms = now_ms, pr_articles_accepted = 0,
        pr_articles_rejected = 0, pr_consecutive_failures = 0, pr_blacklisted_until_ms = None, pr_configured = False\<rparr>])"

definition registry_record_accepted :: "peers \<Rightarrow> bytes \<Rightarrow> int \<Rightarrow> peers" where
  "registry_record_accepted rows peer_id now_ms =
     update_peer peer_id (\<lambda>r. r\<lparr>pr_articles_accepted := pr_articles_accepted r + 1, pr_consecutive_failures := 0,
       pr_last_seen_ms := now_ms\<rparr>) rows"

definition registry_record_rejected :: "peers \<Rightarrow> bytes \<Rightarrow> int \<Rightarrow> peers" where
  "registry_record_rejected rows peer_id now_ms =
     update_peer peer_id (\<lambda>r. r\<lparr>pr_articles_rejected := pr_articles_rejected r + 1,
       pr_consecutive_failures := min (pr_consecutive_failures r + 1) 20, pr_last_seen_ms := now_ms\<rparr>) rows"

text \<open>\<^verbatim>\<open>ORDER BY last_seen DESC\<close>: among equal times the engine chooses.\<close>

definition peers_list_active :: "sqlx \<Rightarrow> peers \<Rightarrow> int \<Rightarrow> peer_record list" where
  "peers_list_active q rows now_ms =
     (let scanned = List.map_filter (peer_get rows) (scan_rows q (map pr_peer_id rows))
      in sort_key (\<lambda>r. - pr_last_seen_ms r)
           (filter (\<lambda>r. case pr_blacklisted_until_ms r of None \<Rightarrow> True | Some u \<Rightarrow> u \<le> now_ms) scanned))"

definition MAX_CONSECUTIVE_FAILURES :: int where
  "MAX_CONSECUTIVE_FAILURES = 20"

definition peer_score :: "peer_record \<Rightarrow> rat" where
  "peer_score rec =
     (let total = pr_articles_accepted rec + pr_articles_rejected rec;
          accept_penalty = (if total > 0
            then let accept_rate = f64 (f64 (of_int (pr_articles_accepted rec)) / f64 (of_int total))
                 in f64 (f64 (1 - accept_rate) * (1 / 2))
            else 0);
          failures_capped = min (pr_consecutive_failures rec) MAX_CONSECUTIVE_FAILURES;
          failure_penalty = f64 (f64 (f64 (of_int failures_capped) / f64 (of_int MAX_CONSECUTIVE_FAILURES)) * (1 / 2))
      in max (f64 (f64 (1 - accept_penalty) - failure_penalty)) 0)"

section \<open>Blacklisting\<close>

record blacklist_config =
  bl_failure_threshold :: int
  bl_duration_secs :: int

definition blacklist_default :: blacklist_config where
  "blacklist_default = \<lparr>bl_failure_threshold = 10, bl_duration_secs = 3600\<rparr>"

definition check_and_blacklist :: "peers \<Rightarrow> bytes \<Rightarrow> int \<Rightarrow> blacklist_config \<Rightarrow> bool \<times> peers" where
  "check_and_blacklist rows peer_id now_ms config =
     (case peer_get rows peer_id of
        None \<Rightarrow> (False, rows)
      | Some r \<Rightarrow>
          if pr_consecutive_failures r \<ge> bl_failure_threshold config
          then (True, update_peer peer_id (\<lambda>r. r\<lparr>pr_blacklisted_until_ms := Some (now_ms + bl_duration_secs config * 1000)\<rparr>) rows)
          else (False, rows))"

definition is_blacklisted :: "peers \<Rightarrow> bytes \<Rightarrow> int \<Rightarrow> bool" where
  "is_blacklisted rows peer_id now_ms =
     (case peer_get rows peer_id of
        Some r \<Rightarrow> (case pr_blacklisted_until_ms r of Some until \<Rightarrow> until > now_ms | None \<Rightarrow> False)
      | None \<Rightarrow> False)"

definition unblacklist :: "peers \<Rightarrow> bytes \<Rightarrow> peers" where
  "unblacklist rows peer_id = update_peer peer_id (\<lambda>r. r\<lparr>pr_blacklisted_until_ms := None, pr_consecutive_failures := 0\<rparr>) rows"

text \<open>What a session does after a rejected article.\<close>

definition record_and_maybe_blacklist :: "blacklist_config \<Rightarrow> peers \<Rightarrow> bytes \<Rightarrow> int \<Rightarrow> peers" where
  "record_and_maybe_blacklist config rows peer_ip now_ms =
     snd (check_and_blacklist (registry_record_rejected rows peer_ip now_ms) peer_ip now_ms config)"

section \<open>Rows\<close>

lemma peer_get_update:
  assumes "\<And>r. pr_peer_id (f r) = pr_peer_id r"
  shows "peer_get (update_peer p f rows) p' = (if p' = p then map_option f (peer_get rows p') else peer_get rows p')"
  using assms by (induction rows) (auto simp: peer_get_def update_peer_def)

lemma peer_get_append: "peer_get (rows @ [r]) p = (case peer_get rows p of Some x \<Rightarrow> Some x | None \<Rightarrow> if pr_peer_id r = p then Some r else None)"
  by (induction rows) (auto simp: peer_get_def)

lemma peer_get_registered:
  "peer_get (ensure_registered rows p address now) p' =
     (if p' = p \<and> peer_get rows p = None
      then Some \<lparr>pr_peer_id = p, pr_address = address, pr_last_seen_ms = now, pr_articles_accepted = 0, pr_articles_rejected = 0,
        pr_consecutive_failures = 0, pr_blacklisted_until_ms = None, pr_configured = False\<rparr>
      else peer_get rows p')"
  by (auto simp: ensure_registered_def peer_get_append split: option.split)

section \<open>What peers do, and what it means for them\<close>

datatype peer_event =
    Connects bytes bytes int
  | Accepts bytes int
  | Rejects bytes int
  | Pardons bytes

fun peer_step :: "blacklist_config \<Rightarrow> peers \<Rightarrow> peer_event \<Rightarrow> peers" where
  "peer_step config rows (Connects p address now) = ensure_registered rows p address now"
| "peer_step config rows (Accepts p now) = registry_record_accepted rows p now"
| "peer_step config rows (Rejects p now) = record_and_maybe_blacklist config rows p now"
| "peer_step config rows (Pardons p) = unblacklist rows p"

definition peer_run :: "blacklist_config \<Rightarrow> peer_event list \<Rightarrow> peers" where
  "peer_run config evs = foldl (peer_step config) [] evs"

text \<open>
  The policy for one peer: it is unknown until it connects; then its rejections since its last accepted
  article, without any limit, and the time until which it is banned.
\<close>

fun policy_step :: "blacklist_config \<Rightarrow> bytes \<Rightarrow> (nat \<times> int option) option \<Rightarrow> peer_event \<Rightarrow> (nat \<times> int option) option" where
  "policy_step config p None (Connects p' address now) = (if p' = p then Some (0, None) else None)"
| "policy_step config p (Some (n, ban)) (Accepts p' now) = Some (if p' = p then 0 else n, ban)"
| "policy_step config p (Some (n, ban)) (Rejects p' now) =
     Some (if p' = p then (Suc n, if int (Suc n) \<ge> bl_failure_threshold config then Some (now + bl_duration_secs config * 1000) else ban)
           else (n, ban))"
| "policy_step config p (Some (n, ban)) (Pardons p') = Some (if p' = p then (0, None) else (n, ban))"
| "policy_step config p s e = s"

definition policy :: "blacklist_config \<Rightarrow> bytes \<Rightarrow> peer_event list \<Rightarrow> (nat \<times> int option) option" where
  "policy config p evs = foldl (policy_step config p) None evs"

definition policy_bans :: "blacklist_config \<Rightarrow> bytes \<Rightarrow> peer_event list \<Rightarrow> int \<Rightarrow> bool" where
  "policy_bans config p evs now = (case policy config p evs of Some (_, Some until) \<Rightarrow> until > now | _ \<Rightarrow> False)"

definition row_view :: "peer_record \<Rightarrow> int \<times> int option" where
  "row_view r = (pr_consecutive_failures r, pr_blacklisted_until_ms r)"

definition capped :: "nat \<times> int option \<Rightarrow> int \<times> int option" where
  "capped s = (min (int (fst s)) 20, snd s)"

lemma peer_step_refines:
  assumes "bl_failure_threshold config \<le> 20" "map_option row_view (peer_get rows p) = map_option capped s"
  shows "map_option row_view (peer_get (peer_step config rows e) p) = map_option capped (policy_step config p s e)"
proof (cases e)
  case (Connects p' address now)
  with assms(2) show ?thesis by (cases s) (auto simp: peer_get_registered row_view_def capped_def)
next
  case (Accepts p' now)
  with assms(2) show ?thesis
    by (cases s) (auto simp: registry_record_accepted_def peer_get_update row_view_def capped_def)
next
  case (Rejects p' now)
  with assms show ?thesis
    by (cases s) (auto simp: record_and_maybe_blacklist_def check_and_blacklist_def registry_record_rejected_def peer_get_update
        row_view_def capped_def split: option.splits)
next
  case (Pardons p')
  with assms(2) show ?thesis
    by (cases s) (auto simp: unblacklist_def peer_get_update row_view_def capped_def)
qed

lemma peer_run_refines:
  assumes "bl_failure_threshold config \<le> 20"
  shows "map_option row_view (peer_get (peer_run config evs) p) = map_option capped (policy config p evs)"
proof (induction evs rule: rev_induct)
  case Nil
  show ?case by (simp add: peer_run_def policy_def peer_get_def)
next
  case (snoc e evs)
  then show ?case using peer_step_refines [OF assms] by (simp add: peer_run_def policy_def)
qed


definition demo_events :: "peer_event list" where
  "demo_events = Connects ''p'' ''p:119'' 0 # map (\<lambda>t. Rejects ''p'' (int t)) [1..<11]"


lemma failures_capped:
  "peer_get (peer_run config evs) p = Some r \<Longrightarrow> pr_consecutive_failures r \<le> 20 \<and> (20 < bl_failure_threshold config \<longrightarrow> pr_blacklisted_until_ms r = None)"
proof (induction evs arbitrary: r rule: rev_induct)
  case Nil
  then show ?case by (simp add: peer_run_def peer_get_def)
next
  case (snoc e evs)
  define rows where "rows = peer_run config evs"
  have ih: "\<And>r. peer_get rows p = Some r \<Longrightarrow> pr_consecutive_failures r \<le> 20 \<and> (20 < bl_failure_threshold config \<longrightarrow> pr_blacklisted_until_ms r = None)"
    using snoc.IH by (simp add: rows_def)
  have r: "peer_get (peer_step config rows e) p = Some r" using snoc.prems by (simp add: peer_run_def rows_def)
  show ?case
  proof (cases e)
    case (Connects p' address now)
    with r ih show ?thesis by (auto simp: peer_get_registered split: if_splits)
  next
    case (Accepts p' now)
    with r ih show ?thesis by (auto simp: registry_record_accepted_def peer_get_update split: if_splits)
  next
    case (Rejects p' now)
    with r ih show ?thesis
      by (auto simp: record_and_maybe_blacklist_def check_and_blacklist_def registry_record_rejected_def peer_get_update
          split: if_splits option.splits)
  next
    case (Pardons p')
    with r ih show ?thesis by (auto simp: unblacklist_def peer_get_update split: if_splits)
  qed
qed

text \<open>
  With a threshold above 20 nobody is ever blacklisted: the stored count of failures stops at 20,
  whatever the peers do.
\<close>

lemma high_threshold_never_blacklists:
  assumes "20 < bl_failure_threshold config"
  shows "\<not> is_blacklisted (peer_run config evs) p now"
  using failures_capped [of config evs p] assms by (auto simp: is_blacklisted_def split: option.splits)

section \<open>Scores\<close>

lemma f64_le_one: "q \<le> 1 \<Longrightarrow> f64 q \<le> 1"
  using f64_mono [of q 1] f64_of_nat [of 1] by simp

lemma penalty_nonneg: "0 \<le> x \<Longrightarrow> 0 \<le> f64 (f64 x * (1 / 2))"
  by (intro f64_nonneg mult_nonneg_nonneg) simp_all

text \<open>With rounding the score is still between 0 and 1.\<close>

lemma peer_score_bounds:
  assumes "0 \<le> pr_articles_accepted r" "0 \<le> pr_articles_rejected r" "0 \<le> pr_consecutive_failures r"
  shows "0 \<le> peer_score r" "peer_score r \<le> 1"
proof -
  show "0 \<le> peer_score r" by (simp add: peer_score_def Let_def)
  let ?a = "f64 (of_int (pr_articles_accepted r))" and ?t = "f64 (of_int (pr_articles_accepted r + pr_articles_rejected r))"
  define accept_penalty where "accept_penalty = (if pr_articles_accepted r + pr_articles_rejected r > 0 then f64 (f64 (1 - f64 (?a / ?t)) * (1 / 2)) else 0)"
  define failure_penalty where "failure_penalty = f64 (f64 (f64 (of_int (min (pr_consecutive_failures r) MAX_CONSECUTIVE_FAILURES)) / f64 (of_int MAX_CONSECUTIVE_FAILURES)) * (1 / 2))"
  have "?a \<le> ?t" using assms by (intro f64_mono) simp
  moreover have "0 \<le> ?t" using assms by (intro f64_nonneg) simp
  ultimately have "?a / ?t \<le> 1" by (cases "?t = 0") (simp_all add: divide_le_eq)
  then have "0 \<le> f64 (f64 (1 - f64 (?a / ?t)) * (1 / 2))" using f64_le_one by (intro penalty_nonneg) simp
  then have "0 \<le> accept_penalty" unfolding accept_penalty_def by (simp only: split: if_split) simp
  then have "f64 (1 - accept_penalty) \<le> 1" by (intro f64_le_one) simp
  moreover have "0 \<le> failure_penalty"
    unfolding failure_penalty_def using assms(3) by (intro penalty_nonneg divide_nonneg_nonneg f64_nonneg) (simp_all add: MAX_CONSECUTIVE_FAILURES_def)
  ultimately have "f64 (f64 (1 - accept_penalty) - failure_penalty) \<le> 1" by (intro f64_le_one) simp
  then show "peer_score r \<le> 1" unfolding peer_score_def Let_def accept_penalty_def failure_penalty_def by (rule max.boundedI) simp
qed

end
