(* ===== verification/PeerAuth.thy ===== *)
theory PeerAuth
  imports RustStr
begin

text \<open>
  The challenge-response handshake of peering connections (\<^verbatim>\<open>crates/transit/src/peering/auth.rs\<close>). The
  Ed25519 and hex crates are parameters, random nonces are arguments, and the connection is the bytes
  that arrive on it; writing is taken to succeed.
\<close>

section \<open>Keys\<close>

text \<open>\<^verbatim>\<open>ed_key_ok\<close> is whether \<^verbatim>\<open>VerifyingKey::from_bytes\<close> accepts 32 bytes; \<^verbatim>\<open>ed_verify\<close> takes key, message and signature.\<close>

record 'sk ed25519 =
  ed_public :: "'sk \<Rightarrow> bytes"
  ed_sign :: "'sk \<Rightarrow> bytes \<Rightarrow> bytes"
  ed_key_ok :: "bytes \<Rightarrow> bool"
  ed_verify :: "bytes \<Rightarrow> bytes \<Rightarrow> bytes \<Rightarrow> bool"
  ed_hex_decode :: "bytes \<Rightarrow> bytes option"

text \<open>What the crate documents: sizes, and that a signature verifies under the signer's key.\<close>

definition ed25519_ok :: "'sk ed25519 \<Rightarrow> bool" where
  "ed25519_ok E \<longleftrightarrow> (\<forall>k. length (ed_public E k) = 32 \<and> ed_key_ok E (ed_public E k))
     \<and> (\<forall>k m. length (ed_sign E k m) = 64 \<and> ed_verify E (ed_public E k) m (ed_sign E k m))"

datatype peering_auth_error =
    AuthIo
  | InvalidKeyFormat bytes
  | InvalidKeyLength nat
  | SignatureVerificationFailed
  | PeerNotTrusted
  | AuthTimeout

definition parse_trusted_peer_key :: "'sk ed25519 \<Rightarrow> bytes \<Rightarrow> peering_auth_error + bytes" where
  "parse_trusted_peer_key E s =
     (case strip_prefix ''ed25519:'' s of
        None \<Rightarrow> Inl (InvalidKeyFormat s)
      | Some hex_part \<Rightarrow>
          (case ed_hex_decode E hex_part of
             None \<Rightarrow> Inl (InvalidKeyFormat s)
           | Some bs \<Rightarrow>
               if length bs \<noteq> 32 then Inl (InvalidKeyLength (length bs))
               else if ed_key_ok E bs then Inr bs else Inl (InvalidKeyFormat s)))"

definition parse_trusted_peer_keys :: "'sk ed25519 \<Rightarrow> bytes list \<Rightarrow> peering_auth_error + bytes list" where
  "parse_trusted_peer_keys E strings = collect_results (map (parse_trusted_peer_key E) strings)"

section \<open>The handshake\<close>

definition out_frame :: "'sk ed25519 \<Rightarrow> 'sk \<Rightarrow> bytes \<Rightarrow> bytes" where
  "out_frame E signing_key their_nonce =
     (let my_pubkey = ed_public E signing_key
      in my_pubkey @ ed_sign E signing_key (their_nonce @ my_pubkey))"

definition check_frame :: "'sk ed25519 \<Rightarrow> bytes list \<Rightarrow> bytes \<Rightarrow> bytes \<Rightarrow> peering_auth_error + bytes" where
  "check_frame E trusted_keys my_nonce in_frame =
     (let their_pubkey = take 32 in_frame;
          their_sig = drop 32 in_frame;
          is_trusted = fold (\<lambda>k found. found \<or> k = their_pubkey) trusted_keys False
      in if \<not> is_trusted then Inl PeerNotTrusted
         else if \<not> ed_key_ok E their_pubkey then Inl SignatureVerificationFailed
         else if \<not> ed_verify E their_pubkey (my_nonce @ their_pubkey) their_sig then Inl SignatureVerificationFailed
         else Inr their_pubkey)"

text \<open>The result, what has been written, and what is left to read.\<close>

definition handshake_inner ::
  "'sk ed25519 \<Rightarrow> 'sk \<Rightarrow> bytes list \<Rightarrow> bytes \<Rightarrow> bytes \<Rightarrow> (peering_auth_error + bytes) \<times> bytes \<times> bytes" where
  "handshake_inner E signing_key trusted_keys my_nonce input =
     (if length input < 32 then (Inl AuthIo, my_nonce, [])
      else let their_nonce = take 32 input;
               input = drop 32 input;
               written = my_nonce @ out_frame E signing_key their_nonce
           in if length input < 96 then (Inl AuthIo, written, [])
              else (check_frame E trusted_keys my_nonce (take 96 input), written, drop 96 input))"

text \<open>\<^verbatim>\<open>elapsed\<close>: the 15 seconds ran out.\<close>

definition run_auth_handshake ::
  "bool \<Rightarrow> 'sk ed25519 \<Rightarrow> 'sk \<Rightarrow> bytes list \<Rightarrow> bytes \<Rightarrow> bytes \<Rightarrow> (peering_auth_error + bytes) \<times> bytes \<times> bytes" where
  "run_auth_handshake elapsed E signing_key trusted_keys my_nonce input =
     (case handshake_inner E signing_key trusted_keys my_nonce input of
        (r, written, rest) \<Rightarrow> (if elapsed then Inl AuthTimeout else r, written, rest))"

section \<open>Two honest nodes\<close>

lemma fold_trusted: "fold (\<lambda>k found. found \<or> k = p) ks b = (b \<or> p \<in> set ks)"
  by (induction ks arbitrary: b) auto

lemma check_frame_iff:
  "check_frame E trusted my_nonce f = Inr p \<longleftrightarrow>
     p = take 32 f \<and> p \<in> set trusted \<and> ed_key_ok E p \<and> ed_verify E p (my_nonce @ p) (drop 32 f)"
  by (auto simp: check_frame_def fold_trusted Let_def)

lemma length_out_frame: "ed25519_ok E \<Longrightarrow> length (out_frame E k n) = 96"
  by (simp add: ed25519_ok_def out_frame_def Let_def)

lemma handshake_messages:
  assumes "ed25519_ok E" "length n = 32" "length f = 96"
  shows "handshake_inner E k trusted my_nonce (n @ f @ rest) = (check_frame E trusted my_nonce f, my_nonce @ out_frame E k n, rest)"
  using assms by (simp add: handshake_inner_def Let_def)

lemma honest_frame_checked:
  assumes "ed25519_ok E"
  shows "check_frame E trusted my_nonce (out_frame E k my_nonce) =
    (if ed_public E k \<in> set trusted then Inr (ed_public E k) else Inl PeerNotTrusted)"
  using assms by (auto simp: ed25519_ok_def check_frame_def out_frame_def Let_def fold_trusted)

text \<open>
  C34. Two nodes connected to each other each learn the other's key exactly when they trust it, and
  refuse it otherwise: what each writes is what the other reads, and what follows the handshake on
  the connection is left for the session.
\<close>

theorem handshake_pair:
  assumes "ed25519_ok E" "length nonce_a = 32" "length nonce_b = 32"
  shows "\<exists>wa wb. handshake_inner E a trusted_a nonce_a (wb @ rest_b)
        = (if ed_public E b \<in> set trusted_a then Inr (ed_public E b) else Inl PeerNotTrusted, wa, rest_b)
    \<and> handshake_inner E b trusted_b nonce_b (wa @ rest_a)
        = (if ed_public E a \<in> set trusted_b then Inr (ed_public E a) else Inl PeerNotTrusted, wb, rest_a)"
proof (intro exI conjI)
  let ?wa = "nonce_a @ out_frame E a nonce_b" and ?wb = "nonce_b @ out_frame E b nonce_a"
  show "handshake_inner E a trusted_a nonce_a (?wb @ rest_b)
      = (if ed_public E b \<in> set trusted_a then Inr (ed_public E b) else Inl PeerNotTrusted, ?wa, rest_b)"
    using handshake_messages [OF assms(1,3) length_out_frame [OF assms(1)], of a trusted_a nonce_a b nonce_a rest_b]
    by (simp add: honest_frame_checked [OF assms(1)])
  show "handshake_inner E b trusted_b nonce_b (?wa @ rest_a)
      = (if ed_public E a \<in> set trusted_b then Inr (ed_public E a) else Inl PeerNotTrusted, ?wb, rest_a)"
    using handshake_messages [OF assms(1,2) length_out_frame [OF assms(1)], of b trusted_b nonce_b a nonce_b rest_a]
    by (simp add: honest_frame_checked [OF assms(1)])
qed

definition demo_ed25519 :: "nat ed25519" where
  "demo_ed25519 = \<lparr>ed_public = (\<lambda>k. replicate 32 (byte k)), ed_sign = (\<lambda>k m. take 64 (replicate 32 (byte k) @ m @ replicate 64 (byte 0))),
     ed_key_ok = (\<lambda>p. True), ed_verify = (\<lambda>p m s. s = take 64 (p @ m @ replicate 64 (byte 0))), ed_hex_decode = (\<lambda>s. Some s)\<rparr>"

lemma demo_ed25519_ok: "ed25519_ok demo_ed25519"
  by (auto simp: ed25519_ok_def demo_ed25519_def)

abbreviation demo_nonce :: "nat \<Rightarrow> bytes" where
  "demo_nonce n \<equiv> replicate 32 (byte n)"

theorem handshake_pair_witness:
  "\<exists>wa wb. handshake_inner demo_ed25519 1 [demo_nonce 2] (demo_nonce 7) (wb @ [])
        = (if ed_public demo_ed25519 2 \<in> set [demo_nonce 2] then Inr (ed_public demo_ed25519 2) else Inl PeerNotTrusted, wa, [])
    \<and> handshake_inner demo_ed25519 2 [demo_nonce 3] (demo_nonce 8) (wa @ [])
        = (if ed_public demo_ed25519 1 \<in> set [demo_nonce 3] then Inr (ed_public demo_ed25519 1) else Inl PeerNotTrusted, wb, [])"
  by (rule handshake_pair [OF demo_ed25519_ok]) simp_all

section \<open>A relayed handshake\<close>

text \<open>
  C35. The handshake does not show who is at the other end of the connection. A stranger without any
  key connects to a node \<^verbatim>\<open>b\<close> and sends it, as its own nonce, the nonce it has received from \<^verbatim>\<open>a\<close>. The
  frame that \<^verbatim>\<open>b\<close> writes back before it has checked anything satisfies \<^verbatim>\<open>a\<close>: if \<^verbatim>\<open>a\<close> trusts \<^verbatim>\<open>b\<close>, the
  stranger's connection is accepted as \<^verbatim>\<open>b\<close>'s, although \<^verbatim>\<open>b\<close>'s own handshake failed.
\<close>

theorem handshake_relayed:
  assumes "ed25519_ok E" "ed_public E b \<in> set trusted_a" "length nonce_a = 32" "length nonce_b = 32" "length stranger_nonce = 32"
    "handshake_inner E b trusted_b nonce_b nonce_a = (r, written_b, rest)"
  shows "r = Inl AuthIo \<and> handshake_inner E a trusted_a nonce_a (stranger_nonce @ drop 32 written_b @ commands)
      = (Inr (ed_public E b), nonce_a @ out_frame E a stranger_nonce, commands)"
proof -
  have b: "r = Inl AuthIo" "written_b = nonce_b @ out_frame E b nonce_a"
    using assms(3,6) by (auto simp: handshake_inner_def Let_def)
  have "drop 32 written_b = out_frame E b nonce_a" using b(2) assms(4) by simp
  then show ?thesis
    using b(1) handshake_messages [OF assms(1,5) length_out_frame [OF assms(1)]] assms(2) by (simp add: honest_frame_checked [OF assms(1)])
qed

theorem handshake_relayed_witness:
  "fst (handshake_inner demo_ed25519 1 [demo_nonce 2] (demo_nonce 7)
     (demo_nonce 9 @ drop 32 (fst (snd (handshake_inner demo_ed25519 2 [] (demo_nonce 8) (demo_nonce 7)))) @ [])) = Inr (demo_nonce 2)"
proof -
  obtain r w rest where b: "handshake_inner demo_ed25519 2 [] (demo_nonce 8) (demo_nonce 7) = (r, w, rest)" by (metis prod_cases3)
  have "ed_public demo_ed25519 2 \<in> set [demo_nonce 2]" "ed_public demo_ed25519 2 = demo_nonce 2" by (simp_all add: demo_ed25519_def)
  then show ?thesis using handshake_relayed [OF demo_ed25519_ok _ _ _ _ b, where a = 1 and trusted_a = "[demo_nonce 2]" and stranger_nonce = "demo_nonce 9" and commands = "[]"]
    by (simp add: b)
qed

end
