(* ===== verification/PeerSession.thy ===== *)
theory PeerSession
  imports Ingest IngestQueue Staging RateLimit Peers PeerAuth
begin

text \<open>
  One inbound peering connection of the transit daemon (\<^verbatim>\<open>crates/transit/src/peering/session.rs\<close>): the
  handshake, the command loop, and every command with what it changes in the shared state. The
  session runs alone here; other sessions and the pipeline change the shared state only between its
  commands. What the clocks and the random generator return during a command is a \<^verbatim>\<open>tick\<close>, given for
  the number of reads that are left when the command starts; \<^verbatim>\<open>can_write n\<close> is whether the write after
  \<^verbatim>\<open>n\<close> lines succeeds.
\<close>

declare valid_utf8.simps(2) [simp del]

section \<open>Shared state\<close>

record ('c, 'cid, 'ip, 'sk) session_env =
  en_lib :: "'cid lib"
  en_mpsc :: "'c mpsc"
  en_sqlx :: sqlx
  en_parse_addr :: "bytes \<Rightarrow> 'ip option"
  en_ed25519 :: "'sk ed25519"

record ('c, 'ip, 'sk) peering_shared =
  sh_msgid_map :: msgid_rows
  sh_signing_key :: 'sk
  sh_queue :: "'c ingest_queue"
  sh_limiter :: "'ip rate_limiter"
  sh_peers :: peers
  sh_blacklist_config :: blacklist_config
  sh_staging :: "(staging_config \<times> staging) option"
  sh_trusted_keys :: "bytes list"

record 'ip tick =
  tk_limiter :: "'ip readings"
  tk_now_ms :: int
  tk_new_id :: bytes
  tk_now_secs :: int

section \<open>Helpers\<close>

definition session_record_accepted :: "('c, 'ip, 'sk) peering_shared \<Rightarrow> bytes \<Rightarrow> int \<Rightarrow> ('c, 'ip, 'sk) peering_shared" where
  "session_record_accepted sh peer_ip now_ms = sh\<lparr>sh_peers := registry_record_accepted (sh_peers sh) peer_ip now_ms\<rparr>"

definition session_record_rejected :: "('c, 'ip, 'sk) peering_shared \<Rightarrow> bytes \<Rightarrow> int \<Rightarrow> ('c, 'ip, 'sk) peering_shared" where
  "session_record_rejected sh peer_ip now_ms =
     sh\<lparr>sh_peers := record_and_maybe_blacklist (sh_blacklist_config sh) (sh_peers sh) peer_ip now_ms\<rparr>"

definition check_msgid_only :: "'cid lib \<Rightarrow> bytes \<Rightarrow> msgid_rows \<Rightarrow> ingest_result" where
  "check_msgid_only L msgid msgid_map =
     (case validate_message_id msgid of
        Inl _ \<Rightarrow> Rejected InvalidMsgid
      | Inr _ \<Rightarrow>
          (case lookup_by_msgid L msgid_map msgid of
             Inl e \<Rightarrow> TransientError (Lookup e)
           | Inr (Some _) \<Rightarrow> Duplicate
           | Inr None \<Rightarrow> Accepted))"

definition enqueue_article ::
  "('c, 'cid, 'ip, 'sk) session_env \<Rightarrow> ('c, 'ip, 'sk) peering_shared \<Rightarrow> 'ip tick \<Rightarrow> bytes \<Rightarrow> bytes
    \<Rightarrow> (bytes + unit) \<times> ('c, 'ip, 'sk) peering_shared" where
  "enqueue_article E sh tk message_id bs =
     (case sh_staging sh of
        Some (config, st) \<Rightarrow>
          (case try_stage (en_sqlx E) config st (tk_new_id tk) (tk_now_secs tk) message_id bs of
             (Inr True, st) \<Rightarrow> (Inr (), sh\<lparr>sh_staging := Some (config, st)\<rparr>)
           | (Inr False, st) \<Rightarrow> (Inl ''staging full'', sh\<lparr>sh_staging := Some (config, st)\<rparr>)
           | (Inl _, st) \<Rightarrow> (Inl ''staging error'', sh\<lparr>sh_staging := Some (config, st)\<rparr>))
      | None \<Rightarrow>
          (case try_enqueue (en_mpsc E) (sh_queue sh) \<lparr>qa_bytes = bs, qa_message_id = message_id\<rparr> of
             (Inr _, q) \<Rightarrow> (Inr (), sh\<lparr>sh_queue := q\<rparr>)
           | (Inl _, q) \<Rightarrow> (Inl ''queue full'', sh\<lparr>sh_queue := q\<rparr>)))"

text \<open>\<^verbatim>\<open>s.split_ascii_whitespace().next()\<close>.\<close>

definition first_word :: "bytes \<Rightarrow> bytes option" where
  "first_word s = (case dropWhile is_ascii_whitespace s of [] \<Rightarrow> None | t \<Rightarrow> Some (takeWhile (\<lambda>c. \<not> is_ascii_whitespace c) t))"

definition or_default :: "bytes \<Rightarrow> bytes option \<Rightarrow> bytes" where
  "or_default d w = (case w of None \<Rightarrow> d | Some x \<Rightarrow> x)"

section \<open>Articles\<close>

text \<open>A received article: the answer and the new shared state, or a panic of \<^verbatim>\<open>check_ingest\<close>.\<close>

definition takethis_article ::
  "('c, 'cid, 'ip, 'sk) session_env \<Rightarrow> ('c, 'ip, 'sk) peering_shared \<Rightarrow> 'ip tick \<Rightarrow> bytes \<Rightarrow> bytes \<Rightarrow> bytes
    \<Rightarrow> (bytes \<times> ('c, 'ip, 'sk) peering_shared) outcome" where
  "takethis_article E sh tk peer_ip msgid article_bytes =
     (case check_ingest (en_lib E) msgid article_bytes (sh_msgid_map sh) of
        Panic \<Rightarrow> Panic
      | Return result \<Rightarrow>
          let (resp, sh) =
            (if result = Accepted then
               (case limiter_check (en_parse_addr E) (sh_limiter sh) peer_ip (tk_limiter tk) of
                  (None, l) \<Rightarrow>
                    (case enqueue_article E (sh\<lparr>sh_limiter := l\<rparr>) tk msgid article_bytes of
                       (Inr _, sh) \<Rightarrow> (takethis_response result, session_record_accepted sh peer_ip (tk_now_ms tk))
                     | (Inl _, sh) \<Rightarrow> (''436 Transfer not possible; try again later'', sh))
                | (Some _, l) \<Rightarrow>
                    (''436 Transfer not possible; try again later'',
                     session_record_rejected (sh\<lparr>sh_limiter := l\<rparr>) peer_ip (tk_now_ms tk)))
             else (takethis_response result,
               case result of Rejected _ \<Rightarrow> session_record_rejected sh peer_ip (tk_now_ms tk) | _ \<Rightarrow> sh))
          in Return (or_default ''431'' (first_word resp) @ '' '' @ msgid @ CRLF, sh))"

definition ihave_article ::
  "('c, 'cid, 'ip, 'sk) session_env \<Rightarrow> ('c, 'ip, 'sk) peering_shared \<Rightarrow> 'ip tick \<Rightarrow> bytes \<Rightarrow> bytes \<Rightarrow> bytes
    \<Rightarrow> (bytes \<times> ('c, 'ip, 'sk) peering_shared) outcome" where
  "ihave_article E sh tk peer_ip msgid article_bytes =
     (case check_ingest (en_lib E) msgid article_bytes (sh_msgid_map sh) of
        Panic \<Rightarrow> Panic
      | Return result \<Rightarrow> Return
          (if result = Accepted then
             (case limiter_check (en_parse_addr E) (sh_limiter sh) peer_ip (tk_limiter tk) of
                (None, l) \<Rightarrow>
                  (case enqueue_article E (sh\<lparr>sh_limiter := l\<rparr>) tk msgid article_bytes of
                     (Inr _, sh) \<Rightarrow> (ihave_response result, session_record_accepted sh peer_ip (tk_now_ms tk))
                   | (Inl _, sh) \<Rightarrow> (''436 Transfer failed, try again later'' @ CRLF, sh))
              | (Some _, l) \<Rightarrow>
                  (''436 Transfer failed, try again later'' @ CRLF,
                   session_record_rejected (sh\<lparr>sh_limiter := l\<rparr>) peer_ip (tk_now_ms tk)))
           else (ihave_response result,
             case result of Rejected _ \<Rightarrow> session_record_rejected sh peer_ip (tk_now_ms tk) | _ \<Rightarrow> sh)))"

section \<open>Commands\<close>

datatype flow = Go peering_mode | Close | Crash

type_synonym ('c, 'ip, 'sk) step_result = "flow \<times> ('c, 'ip, 'sk) peering_shared \<times> bytes list \<times> line_read list"

definition reply ::
  "(nat \<Rightarrow> bool) \<Rightarrow> peering_mode \<Rightarrow> ('c, 'ip, 'sk) peering_shared \<Rightarrow> bytes list \<Rightarrow> bytes \<Rightarrow> line_read list \<Rightarrow> ('c, 'ip, 'sk) step_result" where
  "reply can_write mode sh out resp rest =
     (if can_write (length out) then (Go mode, sh, out @ [resp], rest) else (Close, sh, out, rest))"

definition takethis_command ::
  "('c, 'cid, 'ip, 'sk) session_env \<Rightarrow> bytes \<Rightarrow> 'ip tick \<Rightarrow> (nat \<Rightarrow> bool) \<Rightarrow> peering_mode \<Rightarrow> ('c, 'ip, 'sk) peering_shared
    \<Rightarrow> bytes list \<Rightarrow> bytes \<Rightarrow> line_read list \<Rightarrow> ('c, 'ip, 'sk) step_result" where
  "takethis_command E peer_ip tk can_write mode sh out msgid reads =
     (case takethis_mode_guard mode of
        Some guard_resp \<Rightarrow> reply can_write mode sh out guard_resp reads
      | None \<Rightarrow>
          (case read_dot_stuffed reads of
             (Eof, rest) \<Rightarrow> (Close, sh, out, rest)
           | (TooLarge, rest) \<Rightarrow> reply can_write mode sh out (''439 '' @ msgid @ '' Article too large'' @ CRLF) rest
           | (Data article_bytes, rest) \<Rightarrow>
               (case takethis_article E sh tk peer_ip msgid article_bytes of
                  Panic \<Rightarrow> (Crash, sh, out, rest)
                | Return (resp, sh) \<Rightarrow> reply can_write mode sh out resp rest)))"

definition ihave_command ::
  "('c, 'cid, 'ip, 'sk) session_env \<Rightarrow> bytes \<Rightarrow> 'ip tick \<Rightarrow> (nat \<Rightarrow> bool) \<Rightarrow> peering_mode \<Rightarrow> ('c, 'ip, 'sk) peering_shared
    \<Rightarrow> bytes list \<Rightarrow> bytes \<Rightarrow> line_read list \<Rightarrow> ('c, 'ip, 'sk) step_result" where
  "ihave_command E peer_ip tk can_write mode sh out msgid reads =
     (case check_msgid_only (en_lib E) msgid (sh_msgid_map sh) of
        Accepted \<Rightarrow>
          if \<not> can_write (length out) then (Close, sh, out, reads)
          else let out = out @ [''335 Send it'' @ CRLF]
               in (case read_dot_stuffed reads of
                     (Eof, rest) \<Rightarrow> (Close, sh, out, rest)
                   | (TooLarge, rest) \<Rightarrow> reply can_write mode sh out (''437 Article too large'' @ CRLF) rest
                   | (Data article_bytes, rest) \<Rightarrow>
                       (case ihave_article E sh tk peer_ip msgid article_bytes of
                          Panic \<Rightarrow> (Crash, sh, out, rest)
                        | Return (resp, sh) \<Rightarrow> reply can_write mode sh out resp rest))
      | Duplicate \<Rightarrow> reply can_write mode sh out (''435 Duplicate'' @ CRLF) reads
      | TransientError _ \<Rightarrow> reply can_write mode sh out (''436 Transfer failed, try again later'' @ CRLF) reads
      | Rejected _ \<Rightarrow> reply can_write mode sh out (''437 Article rejected'' @ CRLF) reads)"

definition check_command :: "'cid lib \<Rightarrow> peering_mode \<Rightarrow> msgid_rows \<Rightarrow> bytes \<Rightarrow> bytes" where
  "check_command L mode msgid_map msgid =
     (case check_mode_guard mode of
        Some guard_resp \<Rightarrow> guard_resp
      | None \<Rightarrow> or_default ''438'' (first_word (check_response (check_msgid_only L msgid msgid_map))) @ '' '' @ msgid @ CRLF)"

definition split_command :: "bytes \<Rightarrow> bytes \<times> bytes" where
  "split_command cmd_str =
     (case split_once (CHR '' '') cmd_str of
        None \<Rightarrow> (to_ascii_uppercase cmd_str, [])
      | Some (verb, arg) \<Rightarrow> (to_ascii_uppercase verb, str_trim arg))"

definition session_command ::
  "('c, 'cid, 'ip, 'sk) session_env \<Rightarrow> bytes \<Rightarrow> 'ip tick \<Rightarrow> (nat \<Rightarrow> bool) \<Rightarrow> peering_mode \<Rightarrow> ('c, 'ip, 'sk) peering_shared
    \<Rightarrow> bytes list \<Rightarrow> bytes \<Rightarrow> line_read list \<Rightarrow> ('c, 'ip, 'sk) step_result" where
  "session_command E peer_ip tk can_write mode sh out cmd_str reads =
     (let (verb, arg) = split_command cmd_str
      in if verb = ''CAPABILITIES'' then reply can_write mode sh out capabilities_response reads
         else if verb = ''MODE'' \<and> eq_ignore_ascii_case arg ''STREAM'' then
           (let (resp, new_mode) = handle_mode_stream mode in reply can_write new_mode sh out resp reads)
         else if verb = ''QUIT'' then
           (Close, sh, if can_write (length out) then out @ [''205 Closing connection'' @ CRLF] else out, reads)
         else if verb = ''CHECK'' then reply can_write mode sh out (check_command (en_lib E) mode (sh_msgid_map sh) arg) reads
         else if verb = ''TAKETHIS'' then takethis_command E peer_ip tk can_write mode sh out arg reads
         else if verb = ''IHAVE'' then ihave_command E peer_ip tk can_write mode sh out arg reads
         else if verb = ''XCID'' then reply can_write mode sh out (''502 Command unavailable'' @ CRLF) reads
         else reply can_write mode sh out (''500 Unknown command: '' @ verb @ CRLF) reads)"

section \<open>The session\<close>

lemma read_dot_stuffed_loop_shorter: "length (snd (read_dot_stuffed_loop buf big reads)) \<le> length reads"
  by (induction buf big reads rule: read_dot_stuffed_loop.induct) (auto simp: Let_def intro: le_SucI)

lemma read_dot_stuffed_shorter: "read_dot_stuffed reads = (r, rest) \<Longrightarrow> length rest \<le> length reads"
  using read_dot_stuffed_loop_shorter [of "[]" False reads] by (simp add: read_dot_stuffed_def)

lemma session_command_shorter:
  "session_command E peer_ip tk can_write mode sh out cmd reads = (fl, sh', out', rest) \<Longrightarrow> length rest \<le> length reads"
  by (auto simp: session_command_def takethis_command_def ihave_command_def reply_def Let_def
      split: prod.splits if_splits option.splits ingest_result.splits dot_stuffed_result.splits outcome.splits
      dest: read_dot_stuffed_shorter)

text \<open>Whether the task panicked, the shared state, and the lines written.\<close>

function session_loop ::
  "('c, 'cid, 'ip, 'sk) session_env \<Rightarrow> bytes \<Rightarrow> (nat \<Rightarrow> 'ip tick) \<Rightarrow> (nat \<Rightarrow> bool) \<Rightarrow> peering_mode \<Rightarrow> ('c, 'ip, 'sk) peering_shared
    \<Rightarrow> bytes list \<Rightarrow> line_read list \<Rightarrow> bool \<times> ('c, 'ip, 'sk) peering_shared \<times> bytes list" where
  "session_loop E peer_ip world can_write mode sh out [] = (False, sh, out)"
| "session_loop E peer_ip world can_write mode sh out (ReadError k # reads) = (False, sh, out)"
| "session_loop E peer_ip world can_write mode sh out (Line l # reads) =
     (if l = [] then (False, sh, out)
      else let cmd_str = trim_line_end l
      in if cmd_str = [] then session_loop E peer_ip world can_write mode sh out reads
         else case session_command E peer_ip (world (length reads)) can_write mode sh out cmd_str reads of
            (Go mode, sh, out, rest) \<Rightarrow> session_loop E peer_ip world can_write mode sh out rest
          | (Close, sh, out, rest) \<Rightarrow> (False, sh, out)
          | (Crash, sh, out, rest) \<Rightarrow> (True, sh, out))"
  by pat_completeness auto
termination
  by (relation "measure (\<lambda>(_, _, _, _, _, _, _, reads). length reads)") (auto simp: less_Suc_eq_le dest: session_command_shorter [OF sym])

text \<open>\<^verbatim>\<open>nonce\<close> is the random nonce of the handshake, \<^verbatim>\<open>elapsed\<close> whether it timed out, \<^verbatim>\<open>rl\<close> the buffered reader.\<close>

definition run_peering_session ::
  "('c, 'cid, 'ip, 'sk) session_env \<Rightarrow> (bytes \<Rightarrow> line_read list) \<Rightarrow> bytes \<Rightarrow> bool \<Rightarrow> (nat \<Rightarrow> 'ip tick) \<Rightarrow> (nat \<Rightarrow> bool) \<Rightarrow> int
    \<Rightarrow> bytes \<Rightarrow> bytes \<Rightarrow> ('c, 'ip, 'sk) peering_shared \<Rightarrow> bytes \<Rightarrow> bool \<times> ('c, 'ip, 'sk) peering_shared \<times> bytes list" where
  "run_peering_session E rl nonce elapsed world can_write now_ms peer_addr peer_ip sh input =
     (let sh = sh\<lparr>sh_peers := ensure_registered (sh_peers sh) peer_ip peer_addr now_ms\<rparr>
      in if is_blacklisted (sh_peers sh) peer_ip now_ms then (False, sh, [])
         else
           let (auth_failed, input) =
             (if sh_trusted_keys sh = [] then (False, input)
              else case run_auth_handshake elapsed (en_ed25519 E) (sh_signing_key sh) (sh_trusted_keys sh) nonce input of
                 (Inr _, _, rest) \<Rightarrow> (False, rest)
               | (Inl _, _, rest) \<Rightarrow> (True, rest))
           in if auth_failed then (False, sh, [])
              else if \<not> can_write 0 then (False, sh, [])
              else session_loop E peer_ip world can_write Ihave sh [''200 stoa-transit NNTP service ready'' @ CRLF] (rl input))"

section \<open>Where articles go\<close>

text \<open>
  The interface a session relies on: a place that takes an article or refuses it. \<^verbatim>\<open>held\<close> is what it
  holds, \<^verbatim>\<open>ready t\<close> what must be true of a place and an article before an attempt with the clock reading
  and random name \<^verbatim>\<open>t\<close>, \<^verbatim>\<open>apart\<close> that two attempts use different names.
\<close>

locale article_sink =
  fixes put :: "'t \<Rightarrow> 's \<Rightarrow> bytes \<Rightarrow> bytes \<Rightarrow> bool \<times> 's" and held :: "'s \<Rightarrow> (bytes \<times> bytes) list"
    and ready :: "'t \<Rightarrow> 's \<Rightarrow> bool" and apart :: "'t \<Rightarrow> 't \<Rightarrow> bool" and fits :: "bytes \<Rightarrow> bool"
  assumes taken: "ready t s \<Longrightarrow> fits b \<Longrightarrow> put t s m b = (True, s') \<Longrightarrow> held s' = held s @ [(m, b)]"
    and refused: "ready t s \<Longrightarrow> fits b \<Longrightarrow> put t s m b = (False, s') \<Longrightarrow> held s' = held s"
    and still_ready: "ready t s \<Longrightarrow> fits b \<Longrightarrow> put t s m b = (r, s') \<Longrightarrow> apart t t' \<Longrightarrow> ready t' s \<Longrightarrow> ready t' s'"
begin

lemma put_held:
  assumes "ready t s" "fits b" "put t s m b = (r, s')"
  shows "held s' = held s @ (if r then [(m, b)] else [])"
  using assms taken refused by (cases r) auto

end

definition staged_articles :: "staging \<Rightarrow> (bytes \<times> bytes) list" where
  "staged_articles st = map (\<lambda>r. (st_message_id r, case map_of (sg_files st) (st_file_path r) of Some b \<Rightarrow> b | None \<Rightarrow> [])) (sg_rows st)"

definition stage_put :: "sqlx \<Rightarrow> staging_config \<Rightarrow> bytes \<times> int \<Rightarrow> staging \<Rightarrow> bytes \<Rightarrow> bytes \<Rightarrow> bool \<times> staging" where
  "stage_put q config t st m b = (case try_stage q config st (fst t) (snd t) m b of (r, st') \<Rightarrow> (r = Inr True, st'))"

definition stage_ready :: "staging_config \<Rightarrow> bytes \<times> int \<Rightarrow> staging \<Rightarrow> bool" where
  "stage_ready config t st \<longleftrightarrow> staging_ok config st \<and> fst t \<notin> set (map st_id (sg_rows st)) \<and> CHR ''/'' \<notin> set (fst t)
     \<and> uint (sc_max_bytes config) + int MAX_ARTICLE_BYTES < 2 ^ 64"

definition article_fits :: "bytes \<Rightarrow> bool" where
  "article_fits b \<longleftrightarrow> length b \<le> MAX_ARTICLE_BYTES"

lemma stage_put_facts:
  assumes "stage_ready config t st" "article_fits b" "stage_put q config t st m b = (r, st')"
  shows "staging_ok config st'" "staged_articles st' = staged_articles st @ (if r then [(m, b)] else [])"
    "set (map st_id (sg_rows st')) \<subseteq> insert (fst t) (set (map st_id (sg_rows st)))"
proof -
  obtain r0 where ts: "try_stage q config st (fst t) (snd t) m b = (r0, st')" and r: "r = (r0 = Inr True)"
    using assms(3) by (auto simp: stage_put_def split: prod.splits)
  have ok: "staging_ok config st" "fst t \<notin> set (map st_id (sg_rows st))" "CHR ''/'' \<notin> set (fst t)"
    and lim: "uint (sc_max_bytes config) + int (length b) < 2 ^ 64"
    using assms(1,2) by (auto simp: stage_ready_def article_fits_def)
  note f = try_stage_ok [OF ok lim ts]
  show "staging_ok config st'" by (rule f(1))
  show "set (map st_id (sg_rows st')) \<subseteq> insert (fst t) (set (map st_id (sg_rows st)))" using f(3) by auto
  have old: "map_of (sg_files st') (st_file_path x) = map_of (sg_files st) (st_file_path x)" if "x \<in> set (sg_rows st)" for x
  proof -
    have "st_id x \<noteq> fst t" "st_file_path x = path_join (sc_path config) (st_id x)"
      using ok(1,2) that by (auto simp: staging_ok_def staged_ok_def intro: rev_image_eqI)
    with f(4) show ?thesis by simp
  qed
  have new: "r \<Longrightarrow> \<exists>x. sg_rows st' = sg_rows st @ [x] \<and> st_message_id x = m \<and> map_of (sg_files st') (st_file_path x) = Some b"
    using ts by (auto simp: r try_stage_def Let_def split: if_splits)
  show "staged_articles st' = staged_articles st @ (if r then [(m, b)] else [])"
    using new f(2) old by (auto simp: r staged_articles_def)
qed

interpretation staging_sink: article_sink "stage_put q config" staged_articles "stage_ready config" "\<lambda>t t'. fst t \<noteq> fst t'" article_fits
  for q config
proof
  fix t s b m s'
  assume r: "stage_ready config t s" "article_fits b"
  show "stage_put q config t s m b = (True, s') \<Longrightarrow> staged_articles s' = staged_articles s @ [(m, b)]"
    using stage_put_facts(2) [OF r] by simp
  show "stage_put q config t s m b = (False, s') \<Longrightarrow> staged_articles s' = staged_articles s"
    using stage_put_facts(2) [OF r] by simp
  fix t' ok
  assume "stage_put q config t s m b = (ok, s')" "fst t \<noteq> fst t'" "stage_ready config t' s"
  then show "stage_ready config t' s'" using stage_put_facts(1,3) [OF r, of q m ok s'] by (auto simp: stage_ready_def)
qed

definition queue_put :: "'c mpsc \<Rightarrow> unit \<Rightarrow> 'c ingest_queue \<Rightarrow> bytes \<Rightarrow> bytes \<Rightarrow> bool \<times> 'c ingest_queue" where
  "queue_put C t q m b = (case try_enqueue C q \<lparr>qa_bytes = b, qa_message_id = m\<rparr> of (r, q') \<Rightarrow> (r = Inr (), q'))"

definition queued_articles :: "'c mpsc \<Rightarrow> 'c ingest_queue \<Rightarrow> (bytes \<times> bytes) list" where
  "queued_articles C q = map (\<lambda>a. (qa_message_id a, qa_bytes a)) (mpsc_items C (iq_chan q))"

lemma try_send_items:
  assumes "bounded_fifo C" "mpsc_try_send C c a = (r, c')"
  shows "mpsc_items C c' = mpsc_items C c @ (if r = SendOk then [a] else [])"
proof -
  have "case mpsc_try_send C c a of (r, c') \<Rightarrow>
      mpsc_capacity C c' = mpsc_capacity C c \<and> (mpsc_closed C c' \<longleftrightarrow> mpsc_closed C c)
      \<and> r = (if mpsc_closed C c then SendClosed else if length (mpsc_items C c) < mpsc_capacity C c then SendOk else SendFull)
      \<and> mpsc_items C c' = mpsc_items C c @ (if r = SendOk then [a] else [])"
    by (rule assms(1) [unfolded bounded_fifo_def, THEN conjunct2, THEN conjunct1, THEN spec, THEN spec])
  with assms(2) show ?thesis by simp
qed

lemma queue_put_items:
  assumes "bounded_fifo C" "queue_put C t q m b = (r, q')"
  shows "queued_articles C q' = queued_articles C q @ (if r then [(m, b)] else [])"
proof -
  obtain s c where ts: "mpsc_try_send C (iq_chan q) \<lparr>qa_bytes = b, qa_message_id = m\<rparr> = (s, c)" by fastforce
  from try_send_items [OF assms(1) ts] assms(2) ts show ?thesis
    by (auto simp: queue_put_def try_enqueue_def queued_articles_def Let_def queue_ops split: if_splits send_result.splits)
qed

interpretation queue_sink: article_sink "queue_put C" "queued_articles C" "\<lambda>t q. bounded_fifo C" "\<lambda>t t'. True" article_fits
  for C
  by unfold_locales (auto dest: queue_put_items)

definition shared_put ::
  "('c, 'cid, 'ip, 'sk) session_env \<Rightarrow> 'ip tick \<Rightarrow> ('c, 'ip, 'sk) peering_shared \<Rightarrow> bytes \<Rightarrow> bytes \<Rightarrow> bool \<times> ('c, 'ip, 'sk) peering_shared" where
  "shared_put E tk sh m b = (case enqueue_article E sh tk m b of (r, sh') \<Rightarrow> (r = Inr (), sh'))"

definition shared_held :: "('c, 'cid, 'ip, 'sk) session_env \<Rightarrow> ('c, 'ip, 'sk) peering_shared \<Rightarrow> (bytes \<times> bytes) list" where
  "shared_held E sh = (case sh_staging sh of Some (config, st) \<Rightarrow> staged_articles st | None \<Rightarrow> queued_articles (en_mpsc E) (sh_queue sh))"

definition shared_ready :: "('c, 'cid, 'ip, 'sk) session_env \<Rightarrow> 'ip tick \<Rightarrow> ('c, 'ip, 'sk) peering_shared \<Rightarrow> bool" where
  "shared_ready E tk sh = (case sh_staging sh of Some (config, st) \<Rightarrow> stage_ready config (tk_new_id tk, tk_now_secs tk) st
     | None \<Rightarrow> bounded_fifo (en_mpsc E))"

lemma shared_put_cases:
  "shared_put E tk sh m b = (case sh_staging sh of
     Some (config, st) \<Rightarrow> (case stage_put (en_sqlx E) config (tk_new_id tk, tk_now_secs tk) st m b of
        (r, st') \<Rightarrow> (r, sh\<lparr>sh_staging := Some (config, st')\<rparr>))
   | None \<Rightarrow> (case queue_put (en_mpsc E) () (sh_queue sh) m b of (r, q) \<Rightarrow> (r, sh\<lparr>sh_queue := q\<rparr>)))"
  by (auto simp: shared_put_def enqueue_article_def stage_put_def queue_put_def split: option.split prod.split sum.split bool.split)

interpretation shared_sink: article_sink "shared_put E" "shared_held E" "shared_ready E" "\<lambda>t t'. tk_new_id t \<noteq> tk_new_id t'" article_fits
  for E :: "('c, 'cid, 'ip, 'sk) session_env"
proof
  fix t and s :: "('c, 'ip, 'sk) peering_shared" and b m s'
  assume r: "shared_ready E t s" "article_fits b"
  have held: "shared_held E s' = shared_held E s @ (if k then [(m, b)] else [])" if "shared_put E t s m b = (k, s')" for k
    using that r staging_sink.put_held [where q = "en_sqlx E"] queue_sink.put_held [where C = "en_mpsc E" and t = "()"]
    by (auto simp: shared_put_cases shared_ready_def shared_held_def split: option.splits prod.splits)
  then show "shared_put E t s m b = (True, s') \<Longrightarrow> shared_held E s' = shared_held E s @ [(m, b)]"
    "shared_put E t s m b = (False, s') \<Longrightarrow> shared_held E s' = shared_held E s" by fastforce+
  fix t' k
  assume p: "shared_put E t s m b = (k, s')" "tk_new_id t \<noteq> tk_new_id t'" "shared_ready E t' s"
  show "shared_ready E t' s'"
  proof (cases "sh_staging s")
    case None
    with p show ?thesis by (auto simp: shared_put_cases shared_ready_def split: prod.splits)
  next
    case (Some cs)
    obtain config st where cs: "cs = (config, st)" by fastforce
    obtain st' where sp: "stage_put (en_sqlx E) config (tk_new_id t, tk_now_secs t) st m b = (k, st')" "s' = s\<lparr>sh_staging := Some (config, st')\<rparr>"
      using p(1) Some cs by (auto simp: shared_put_cases split: prod.splits)
    have "stage_ready config (tk_new_id t', tk_now_secs t') st'"
      by (rule staging_sink.still_ready [OF _ r(2) sp(1)]) (use p(2,3) r(1) Some cs in \<open>simp_all add: shared_ready_def\<close>)
    then show ?thesis by (simp add: sp(2) shared_ready_def)
  qed
qed

section \<open>What a session acknowledges\<close>

text \<open>A line that tells the peer its article was taken.\<close>

definition positive :: "bytes \<Rightarrow> bool" where
  "positive resp \<longleftrightarrow> take 3 resp = ''235'' \<or> take 3 resp = ''239''"

definition positives :: "bytes list \<Rightarrow> nat" where
  "positives out = length (filter positive out)"

definition checked :: "('c, 'cid, 'ip, 'sk) session_env \<Rightarrow> msgid_rows \<Rightarrow> bytes \<times> bytes \<Rightarrow> bool" where
  "checked E msgid_map a \<longleftrightarrow> check_ingest (en_lib E) (fst a) (snd a) msgid_map = Return Accepted"

text \<open>What a step may do: append checked articles, and at most that many positive answers.\<close>

definition acknowledged ::
  "('c, 'cid, 'ip, 'sk) session_env \<Rightarrow> bool \<Rightarrow> ('c, 'ip, 'sk) peering_shared \<Rightarrow> bytes list \<Rightarrow> ('c, 'ip, 'sk) peering_shared \<Rightarrow> bytes list \<Rightarrow> bool" where
  "acknowledged E all_written sh out sh' out' \<longleftrightarrow>
     (\<exists>new. shared_held E sh' = shared_held E sh @ new \<and> (\<forall>a \<in> set new. checked E (sh_msgid_map sh) a)
        \<and> positives out' \<le> positives out + length new \<and> (all_written \<longrightarrow> positives out' = positives out + length new))
     \<and> sh_msgid_map sh' = sh_msgid_map sh"

lemma acknowledged_refl: "acknowledged E w sh out sh out"
  by (auto simp: acknowledged_def)

lemma acknowledged_trans:
  assumes "acknowledged E w s o1 s' o2" "acknowledged E w s' o2 s'' o3"
  shows "acknowledged E w s o1 s'' o3"
proof -
  obtain n1 where n1: "shared_held E s' = shared_held E s @ n1" "\<forall>a \<in> set n1. checked E (sh_msgid_map s) a"
    "positives o2 \<le> positives o1 + length n1" "w \<longrightarrow> positives o2 = positives o1 + length n1" "sh_msgid_map s' = sh_msgid_map s"
    using assms(1) unfolding acknowledged_def by blast
  obtain n2 where n2: "shared_held E s'' = shared_held E s' @ n2" "\<forall>a \<in> set n2. checked E (sh_msgid_map s') a"
    "positives o3 \<le> positives o2 + length n2" "w \<longrightarrow> positives o3 = positives o2 + length n2" "sh_msgid_map s'' = sh_msgid_map s'"
    using assms(2) unfolding acknowledged_def by blast
  show ?thesis unfolding acknowledged_def
    by (intro conjI exI [of _ "n1 @ n2"]) (use n1 n2 in auto)
qed

lemma shared_frame [simp]:
  "shared_held E (sh\<lparr>sh_limiter := l\<rparr>) = shared_held E sh" "shared_held E (sh\<lparr>sh_peers := ps\<rparr>) = shared_held E sh"
  "shared_ready E tk (sh\<lparr>sh_limiter := l\<rparr>) = shared_ready E tk sh" "shared_ready E tk (sh\<lparr>sh_peers := ps\<rparr>) = shared_ready E tk sh"
  by (simp_all add: shared_held_def shared_ready_def cong: option.case_cong)

lemma session_record_frame [simp]:
  "shared_held E (session_record_accepted sh ip now) = shared_held E sh" "shared_held E (session_record_rejected sh ip now) = shared_held E sh"
  "shared_ready E tk (session_record_accepted sh ip now) = shared_ready E tk sh" "shared_ready E tk (session_record_rejected sh ip now) = shared_ready E tk sh"
  "sh_msgid_map (session_record_accepted sh ip now) = sh_msgid_map sh" "sh_msgid_map (session_record_rejected sh ip now) = sh_msgid_map sh"
  by (simp_all add: session_record_accepted_def session_record_rejected_def)

lemma first_words_of:
  "first_word (''239 Article transferred OK'' @ CRLF) = Some ''239''" "first_word (''438 Already have it'' @ CRLF) = Some ''438''"
  "first_word (''439 Article not wanted'' @ CRLF) = Some ''439''" "first_word (''431 Try sending it again later'' @ CRLF) = Some ''431''"
  "first_word (''436 Transfer not possible; try again later'') = Some ''436''" "first_word (''238 Send it'' @ CRLF) = Some ''238''"
  "first_word (''438 Article not wanted'' @ CRLF) = Some ''438''"
  by code_simp+

lemmas first_words = first_words_of [unfolded append.simps]

lemma check_ingest_fits:
  assumes "check_ingest L m b rows = Return Accepted"
  shows "article_fits b"
proof (rule ccontr)
  assume "\<not> article_fits b"
  then have "check_ingest L m b rows \<noteq> Return Accepted" by (auto simp: check_ingest_def article_fits_def split: sum.splits)
  with assms show False by simp
qed

lemma enqueue_map: "enqueue_article E sh tk m b = (r, sh') \<Longrightarrow> sh_msgid_map sh' = sh_msgid_map sh"
  by (auto simp: enqueue_article_def split: option.splits prod.splits sum.splits bool.splits)

text \<open>What one received article does to the shared state.\<close>

definition took ::
  "('c, 'cid, 'ip, 'sk) session_env \<Rightarrow> 'ip tick \<Rightarrow> ('c, 'ip, 'sk) peering_shared \<Rightarrow> bytes \<Rightarrow> bytes \<Rightarrow> bool \<Rightarrow> ('c, 'ip, 'sk) peering_shared \<Rightarrow> bool" where
  "took E tk sh m b taken sh' \<longleftrightarrow> shared_held E sh' = shared_held E sh @ (if taken then [(m, b)] else [])
     \<and> (taken \<longrightarrow> checked E (sh_msgid_map sh) (m, b)) \<and> sh_msgid_map sh' = sh_msgid_map sh
     \<and> (\<forall>tk'. tk_new_id tk \<noteq> tk_new_id tk' \<longrightarrow> shared_ready E tk' sh \<longrightarrow> shared_ready E tk' sh')"

lemma enqueue_took:
  assumes "shared_ready E tk sh" "check_ingest (en_lib E) m b (sh_msgid_map sh) = Return Accepted" "enqueue_article E sh tk m b = (r, sh')"
  shows "took E tk sh m b (r = Inr ()) sh'"
proof -
  have p: "shared_put E tk sh m b = (r = Inr (), sh')" by (simp add: shared_put_def assms(3))
  note fits = check_ingest_fits [OF assms(2)]
  show ?thesis
    using shared_sink.put_held [OF assms(1) fits p] shared_sink.still_ready [OF assms(1) fits p] enqueue_map [OF assms(3)] assms(2)
    by (auto simp: took_def checked_def)
qed

lemma took_frame:
  "took E tk (sh\<lparr>sh_limiter := l\<rparr>) m b taken sh' = took E tk sh m b taken sh'"
  "took E tk sh m b taken (session_record_accepted sh' ip now) = took E tk sh m b taken sh'"
  "took E tk sh m b taken (session_record_rejected sh' ip now) = took E tk sh m b taken sh'"
  "took E tk sh m b taken (sh'\<lparr>sh_limiter := l\<rparr>) = took E tk sh m b taken sh'"
  by (simp_all add: took_def)

lemma took_nothing: "took E tk sh m b False sh"
  by (simp add: took_def)

lemma takethis_article_took:
  assumes "shared_ready E tk sh" "takethis_article E sh tk ip m b = Return (resp, sh')"
  shows "took E tk sh m b (positive resp) sh'"
proof -
  obtain result where c: "check_ingest (en_lib E) m b (sh_msgid_map sh) = Return result"
    using assms(2) by (auto simp: takethis_article_def split: outcome.splits)
  show ?thesis
  proof (cases "result = Accepted")
    case False
    then show ?thesis using assms(2) c
      by (cases result) (auto simp: takethis_article_def first_words or_default_def positive_def took_frame took_nothing)
  next
    case True
    obtain lr l where l: "limiter_check (en_parse_addr E) (sh_limiter sh) ip (tk_limiter tk) = (lr, l)" by fastforce
    obtain r sh1 where e: "enqueue_article E (sh\<lparr>sh_limiter := l\<rparr>) tk m b = (r, sh1)" by fastforce
    have "took E tk sh m b (r = Inr ()) sh1"
      using enqueue_took [OF _ _ e] assms(1) c True by (simp add: took_frame)
    then show ?thesis using assms(2) c True l e
      by (cases lr; cases r) (auto simp: takethis_article_def first_words or_default_def positive_def took_frame took_nothing)
  qed
qed

lemma ihave_article_took:
  assumes "shared_ready E tk sh" "ihave_article E sh tk ip m b = Return (resp, sh')"
  shows "took E tk sh m b (positive resp) sh'"
proof -
  obtain result where c: "check_ingest (en_lib E) m b (sh_msgid_map sh) = Return result"
    using assms(2) by (auto simp: ihave_article_def split: outcome.splits)
  show ?thesis
  proof (cases "result = Accepted")
    case False
    then show ?thesis using assms(2) c
      by (cases result) (auto simp: ihave_article_def positive_def took_frame took_nothing)
  next
    case True
    obtain lr l where l: "limiter_check (en_parse_addr E) (sh_limiter sh) ip (tk_limiter tk) = (lr, l)" by fastforce
    obtain r sh1 where e: "enqueue_article E (sh\<lparr>sh_limiter := l\<rparr>) tk m b = (r, sh1)" by fastforce
    have "took E tk sh m b (r = Inr ()) sh1"
      using enqueue_took [OF _ _ e] assms(1) c True by (simp add: took_frame)
    then show ?thesis using assms(2) c True l e
      by (cases lr; cases r) (auto simp: ihave_article_def positive_def took_frame took_nothing)
  qed
qed

lemma positives_append: "positives (out @ [r]) = positives out + (if positive r then 1 else 0)"
  by (simp add: positives_def)

text \<open>What a command leaves behind.\<close>

definition step_ok ::
  "('c, 'cid, 'ip, 'sk) session_env \<Rightarrow> (nat \<Rightarrow> bool) \<Rightarrow> 'ip tick \<Rightarrow> ('c, 'ip, 'sk) peering_shared \<Rightarrow> bytes list
    \<Rightarrow> ('c, 'ip, 'sk) step_result \<Rightarrow> bool" where
  "step_ok E can_write tk sh out res = (case res of (fl, sh', out', rest) \<Rightarrow>
     acknowledged E (\<forall>n. can_write n) sh out sh' out'
     \<and> (\<forall>tk'. tk_new_id tk \<noteq> tk_new_id tk' \<longrightarrow> shared_ready E tk' sh \<longrightarrow> shared_ready E tk' sh'))"

lemma reply_took:
  "took E tk sh m b (positive resp) sh' \<Longrightarrow> step_ok E can_write tk sh out (reply can_write mode sh' out resp rest)"
  by (auto simp: step_ok_def reply_def acknowledged_def took_def positives_append)

lemma reply_plain: "\<not> positive resp \<Longrightarrow> step_ok E can_write tk sh out (reply can_write mode sh out resp rest)"
  by (auto simp: step_ok_def reply_def acknowledged_def positives_append)

lemma stop_plain: "step_ok E can_write tk sh out (fl, sh, out, rest)"
  by (simp add: step_ok_def acknowledged_refl)

lemma step_ok_after_plain:
  "\<not> positive resp \<Longrightarrow> step_ok E can_write tk sh (out @ [resp]) res \<Longrightarrow> step_ok E can_write tk sh out res"
  by (auto simp: step_ok_def acknowledged_def positives_append)

lemma takethis_command_ok:
  assumes "shared_ready E tk sh"
  shows "step_ok E can_write tk sh out (takethis_command E ip tk can_write mode sh out m reads)"
proof (cases mode)
  case Ihave
  then show ?thesis by (simp add: takethis_command_def reply_plain positive_def)
next
  case Streaming
  obtain d rest where d: "read_dot_stuffed reads = (d, rest)" by fastforce
  show ?thesis
  proof (cases d)
    case (Data b)
    show ?thesis
    proof (cases "takethis_article E sh tk ip m b")
      case (Return x)
      obtain resp sh' where x: "x = (resp, sh')" by fastforce
      have "took E tk sh m b (positive resp) sh'" using takethis_article_took [OF assms] Return x by simp
      with Streaming d Data Return x show ?thesis by (simp add: takethis_command_def reply_took)
    qed (use Streaming d Data in \<open>simp add: takethis_command_def stop_plain\<close>)
  qed (use Streaming d in \<open>simp_all add: takethis_command_def stop_plain reply_plain positive_def\<close>)
qed

lemma ihave_command_ok:
  assumes "shared_ready E tk sh"
  shows "step_ok E can_write tk sh out (ihave_command E ip tk can_write mode sh out m reads)"
proof (cases "check_msgid_only (en_lib E) m (sh_msgid_map sh) = Accepted \<and> can_write (length out)")
  case True
  let ?send = "''335 Send it'' @ CRLF"
  obtain d rest where d: "read_dot_stuffed reads = (d, rest)" by fastforce
  have "\<not> positive ?send" by (simp add: positive_def)
  moreover have "step_ok E can_write tk sh (out @ [?send]) (ihave_command E ip tk can_write mode sh out m reads)"
  proof (cases d)
    case (Data b)
    show ?thesis
    proof (cases "ihave_article E sh tk ip m b")
      case (Return x)
      obtain resp sh' where x: "x = (resp, sh')" by fastforce
      have "took E tk sh m b (positive resp) sh'" using ihave_article_took [OF assms] Return x by simp
      then have "step_ok E can_write tk sh (out @ [?send]) (reply can_write mode sh' (out @ [?send]) resp rest)" by (rule reply_took)
      with True d Data Return x show ?thesis by (simp add: ihave_command_def)
    qed (use True d Data stop_plain [of E can_write tk sh "out @ [?send]"] in \<open>simp add: ihave_command_def\<close>)
  next
    case TooLarge
    have "step_ok E can_write tk sh (out @ [?send]) (reply can_write mode sh (out @ [?send]) (''437 Article too large'' @ CRLF) rest)"
      by (rule reply_plain) (simp add: positive_def)
    with True d TooLarge show ?thesis by (simp add: ihave_command_def)
  next
    case Eof
    with True d stop_plain [of E can_write tk sh "out @ [?send]"] show ?thesis by (simp add: ihave_command_def)
  qed
  ultimately show ?thesis by (rule step_ok_after_plain)
next
  case False
  then show ?thesis
    by (cases "check_msgid_only (en_lib E) m (sh_msgid_map sh)") (auto simp: ihave_command_def stop_plain reply_plain positive_def)
qed

lemma step_ok_if:
  "(P \<Longrightarrow> step_ok E can_write tk sh out a) \<Longrightarrow> (\<not> P \<Longrightarrow> step_ok E can_write tk sh out b) \<Longrightarrow> step_ok E can_write tk sh out (if P then a else b)"
  by simp

lemma check_command_plain: "\<not> positive (check_command L mode rows m)"
  by (cases mode; cases "check_msgid_only L m rows") (simp_all add: check_command_def positive_def or_default_def first_words)

lemma session_command_ok:
  assumes "shared_ready E tk sh"
  shows "step_ok E can_write tk sh out (session_command E ip tk can_write mode sh out cmd reads)"
proof -
  obtain verb arg where va: "split_command cmd = (verb, arg)" by fastforce
  note kinds = takethis_command_ok [OF assms, of can_write out ip mode arg reads] ihave_command_ok [OF assms, of can_write out ip mode arg reads]
    reply_plain [OF check_command_plain, of E can_write tk sh out mode "en_lib E" mode "sh_msgid_map sh" arg reads]
  have quit: "step_ok E can_write tk sh out
      (Close, sh, if can_write (length out) then out @ [''205 Closing connection'' @ CRLF] else out, reads)"
    by (auto simp: step_ok_def acknowledged_def positive_def positives_append)
  have caps: "\<not> positive capabilities_response" by (simp add: positive_def capabilities_response_def)
  show ?thesis unfolding session_command_def va Let_def prod.case handle_mode_stream_def
    by (intro step_ok_if kinds quit reply_plain caps; simp add: positive_def)
qed

lemma session_loop_ok:
  assumes "\<forall>i j. i \<noteq> j \<longrightarrow> tk_new_id (world i) \<noteq> tk_new_id (world j)" "\<forall>n < length reads. shared_ready E (world n) sh"
    "session_loop E ip world can_write mode sh out reads = (crashed, sh', out')"
  shows "acknowledged E (\<forall>n. can_write n) sh out sh' out'"
  using assms
proof (induction E ip world can_write mode sh out reads rule: session_loop.induct)
  case (3 E ip world can_write mode sh out l reads)
  show ?case
  proof (cases "l = [] \<or> trim_line_end l = []")
    case True
    then show ?thesis using 3(1) [OF _ refl] 3(3-5) by (cases "l = []") (simp_all add: acknowledged_refl Let_def)
  next
    case False
    obtain fl s1 o1 rest where c: "session_command E ip (world (length reads)) can_write mode sh out (trim_line_end l) reads = (fl, s1, o1, rest)"
      using prod_cases4 by blast
    have st: "step_ok E can_write (world (length reads)) sh out (fl, s1, o1, rest)"
      using session_command_ok [of E "world (length reads)" sh can_write out ip mode "trim_line_end l" reads] 3(4) c by simp
    show ?thesis
    proof (cases fl)
      case (Go mode')
      have "\<forall>n < length rest. shared_ready E (world n) s1"
      proof (intro allI impI)
        fix n
        assume "n < length rest"
        then have "n < length reads" using session_command_shorter [OF c] by simp
        then show "shared_ready E (world n) s1" using st 3(3,4) by (auto simp: step_ok_def)
      qed
      then have "acknowledged E (\<forall>n. can_write n) s1 o1 sh' out'"
        using 3(2) [OF _ refl _ c [symmetric] Go refl refl] 3(3,5) False c Go by (simp add: Let_def)
      with st show ?thesis by (auto simp: step_ok_def intro: acknowledged_trans)
    qed (use 3(5) False c st in \<open>auto simp: Let_def step_ok_def\<close>)
  qed
qed (auto simp: acknowledged_refl)

text \<open>
  C29. No acknowledged article is lost and nothing unchecked is stored: during a connection the staging
  area (or the queue) only grows, by articles that passed the ingestion checks under the Message-ID
  they were offered with, and there are at least as many of them as lines that told the peer its
  article was taken; exactly as many if no write fails. Blacklisted peers, failed handshakes, panics
  and every error path included.
\<close>

theorem session_acknowledges:
  assumes "\<forall>i j. i \<noteq> j \<longrightarrow> tk_new_id (world i) \<noteq> tk_new_id (world j)" "\<forall>n. shared_ready E (world n) sh"
    "run_peering_session E rl nonce elapsed world can_write now_ms peer_addr peer_ip sh input = (crashed, sh', out)"
  shows "\<exists>new. shared_held E sh' = shared_held E sh @ new \<and> (\<forall>a \<in> set new. checked E (sh_msgid_map sh) a)
    \<and> positives out \<le> length new \<and> ((\<forall>n. can_write n) \<longrightarrow> positives out = length new)"
proof -
  let ?sh = "sh\<lparr>sh_peers := ensure_registered (sh_peers sh) peer_ip peer_addr now_ms\<rparr>"
  let ?hello = "''200 stoa-transit NNTP service ready'' @ CRLF"
  have "(sh' = ?sh \<and> out = []) \<or> (\<exists>reads. session_loop E peer_ip world can_write Ihave ?sh [?hello] reads = (crashed, sh', out))"
    using assms(3) by (auto simp: run_peering_session_def Let_def split: if_splits prod.splits)
  then have "acknowledged E (\<forall>n. can_write n) ?sh [] sh' out"
  proof
    assume "sh' = ?sh \<and> out = []"
    then show ?thesis by (simp add: acknowledged_refl)
  next
    assume "\<exists>reads. session_loop E peer_ip world can_write Ihave ?sh [?hello] reads = (crashed, sh', out)"
    then obtain reads where l: "session_loop E peer_ip world can_write Ihave ?sh [?hello] reads = (crashed, sh', out)" by blast
    have "\<forall>n < length reads. shared_ready E (world n) ?sh" using assms(2) by simp
    from session_loop_ok [OF assms(1) this l] show ?thesis
      by (simp add: acknowledged_def positives_def positive_def)
  qed
  then show ?thesis by (simp add: acknowledged_def positives_def)
qed

lemma reads_command:
  assumes "reads_lines rl" "clean_line l" "valid_utf8 l"
  shows "rl (l @ CRLF @ s) = Line (l @ CRLF) # rl s"
proof -
  have "LF \<notin> set (l @ [CR])" using assms(2) by (simp add: clean_line_def)
  moreover have "valid_utf8 ((l @ [CR]) @ [LF])" using valid_utf8_append [OF assms(3) utf8_marks(2)] by (simp add: CRLF_def)
  ultimately have "rl ((l @ [CR]) @ LF # s) = Line ((l @ [CR]) @ [LF]) # rl s" 
    using assms(1) [unfolded reads_lines_def, rule_format, of "l @ [CR]" s] by simp
  then show ?thesis by (simp add: CRLF_def)
qed

lemma session_loop_command:
  assumes "reads_lines rl" "clean_line l" "valid_utf8 l" "l \<noteq> []"
    "session_command E ip (world (length (rl s))) can_write mode sh out l (rl s) = (Go mode', sh', out', rest)"
  shows "session_loop E ip world can_write mode sh out (rl (l @ CRLF @ s)) = session_loop E ip world can_write mode' sh' out' rest"
proof -
  have "trim_line_end (l @ CRLF) = l" using trim_line_end_clean [OF assms(2)] by simp
  with assms(4,5) show ?thesis by (simp add: reads_command [OF assms(1-3)] Let_def)
qed

lemma takethis_line:
  assumes "clean_line m" "valid_utf8 m"
  shows "clean_line (''TAKETHIS '' @ m)" "valid_utf8 (''TAKETHIS '' @ m)"
proof -
  show "clean_line (''TAKETHIS '' @ m)" using assms(1) by (simp add: clean_line_def CR_def LF_def byte_eval)
  have "valid_utf8 (''TAKETHIS '')" by (rule ascii_valid_utf8) (simp add: is_ascii_def)
  then show "valid_utf8 (''TAKETHIS '' @ m)" using assms(2) by (rule valid_utf8_append)
qed

lemma split_takethis: "str_trim m = m \<Longrightarrow> split_command (''TAKETHIS '' @ m) = (''TAKETHIS'', m)"
  by (simp add: split_command_def) (simp add: ascii_eval)


text \<open>
  Before MODE STREAM the article that follows TAKETHIS is not read: its lines are executed as commands.
\<close>

lemma takethis_before_streaming:
  assumes "reads_lines rl" "clean_line m" "valid_utf8 m" "str_trim m = m" "can_write (length out)"
  shows "session_loop E ip world can_write Ihave sh out (rl (''TAKETHIS '' @ m @ CRLF @ article))
    = session_loop E ip world can_write Ihave sh (out @ [''500 Command not available in current mode'' @ CRLF]) (rl article)"
proof -
  let ?cmd = "''TAKETHIS '' @ m"
  have cmd: "clean_line ?cmd" "valid_utf8 ?cmd" by (rule takethis_line [OF assms(2,3)])+
  have step: "session_command E ip tk can_write Ihave sh out ?cmd (rl article)
      = (Go Ihave, sh, out @ [''500 Command not available in current mode'' @ CRLF], rl article)" for tk
    unfolding session_command_def split_takethis [OF assms(4)] Let_def prod.case
    by (simp add: takethis_command_def reply_def assms(5))
  have "session_loop E ip world can_write Ihave sh out (rl (?cmd @ CRLF @ article))
    = session_loop E ip world can_write Ihave sh (out @ [''500 Command not available in current mode'' @ CRLF]) (rl article)"
    by (rule session_loop_command [OF assms(1) cmd]) (simp, simp only: step)
  then show ?thesis by (simp only: append_assoc)
qed

section \<open>Example\<close>

definition demo_env :: "(nat \<times> queued_article list, bytes, nat, nat) session_env" where
  "demo_env = \<lparr>en_lib = demo_lib, en_mpsc = demo_mpsc, en_sqlx = demo_sqlx, en_parse_addr = demo_parse_addr, en_ed25519 = demo_ed25519\<rparr>"

definition demo_shared :: "(nat \<times> queued_article list, nat, nat) peering_shared" where
  "demo_shared = \<lparr>sh_msgid_map = [], sh_signing_key = 1, sh_queue = ingestion_queue demo_mpsc 2 5000,
     sh_limiter = limiter_new (10 ^ 9) 1 Respond431, sh_peers = [], sh_blacklist_config = blacklist_default, sh_staging = None,
     sh_trusted_keys = []\<rparr>"

definition demo_tick :: "nat \<Rightarrow> nat tick" where
  "demo_tick n = \<lparr>tk_limiter = at_instant 5, tk_now_ms = 0, tk_new_id = replicate n CHR ''a'', tk_now_secs = 0\<rparr>"

definition demo_lines :: "bytes list" where
  "demo_lines = [''From: a@b'', ''Date: today'', ''Message-ID: <x@y>'', ''Newsgroups: misc.test'', ''Subject: s'', [], ''..'', ''text'']"

lemma demo_ready: "shared_ready demo_env tk demo_shared"
  by (simp add: shared_ready_def demo_shared_def demo_env_def demo_bounded_fifo)

lemma demo_lines_sendable: "sendable demo_lines"
  unfolding sendable_def
proof
  fix l
  assume "l \<in> set demo_lines"
  then have "is_ascii l \<and> clean_line l" by (auto simp: demo_lines_def is_ascii_def clean_line_def CR_def LF_def byte_eval)
  then show "clean_line l \<and> valid_utf8 l" by (simp add: ascii_valid_utf8)
qed

lemma demo_check: "check_ingest demo_lib ''<x@y>'' (crlf_article demo_lines) [] = Return Accepted"
proof (rule check_ingest_Accepted)
  show "validate_message_id ''<x@y>'' = Inr ()" by code_simp
  show "length (crlf_article demo_lines) \<le> MAX_ARTICLE_BYTES" by (simp add: demo_lines_def MAX_ARTICLE_BYTES_def)
  show "\<forall>n \<in> set MANDATORY. has_header (crlf_article demo_lines) n" by code_simp
  show "extract_body_msgid (crlf_article demo_lines) = Return (Some ''<x@y>'')" by code_simp
  show "lookup_by_msgid demo_lib [] ''<x@y>'' = Inr None" by code_simp
qed

definition demo_input :: bytes where
  "demo_input = ''MODE STREAM'' @ CRLF @ ''TAKETHIS <x@y>'' @ CRLF @ nntp_dot_stuff (crlf_article demo_lines) @ ''.'' @ CRLF @ ''QUIT'' @ CRLF"

theorem session_acknowledges_witness:
  "\<exists>new. shared_held demo_env (fst (snd (run_peering_session demo_env demo_reads [] False demo_tick (\<lambda>_. True) 0 ''p'' ''p'' demo_shared demo_input)))
      = shared_held demo_env demo_shared @ new
    \<and> positives (snd (snd (run_peering_session demo_env demo_reads [] False demo_tick (\<lambda>_. True) 0 ''p'' ''p'' demo_shared demo_input))) = length new"
proof -
  have "\<forall>i j. i \<noteq> j \<longrightarrow> tk_new_id (demo_tick i) \<noteq> tk_new_id (demo_tick j)" by (simp add: demo_tick_def)
  then show ?thesis
    using session_acknowledges [of demo_tick demo_env demo_shared demo_reads "[]" False "\<lambda>_. True" 0 "''p''" "''p''" demo_input] demo_ready
    by (metis prod.collapse)
qed


end
