(* ===== verification/BlockStore.thy ===== *)
theory BlockStore
  imports Staging
begin

text \<open>
  Block stores of the transit daemon: the trait \<^verbatim>\<open>IpfsStore\<close> and its in-memory implementation
  (\<^verbatim>\<open>crates/transit/src/peering/pipeline.rs\<close>), the SQLite and filesystem stores (\<^verbatim>\<open>sqlite_store.rs\<close>,
  \<^verbatim>\<open>fs_store.rs\<close>) and the cache that wraps a store (\<^verbatim>\<open>crates/transit/src/block_cache.rs\<close>). The trait is a
  record of operations, its contract the locale \<^verbatim>\<open>block_store\<close>; the cache is shown to meet the contract
  whenever the store it wraps does. Clock readings are arguments. Failures of the disk and the
  database engine are left out, and byte counts are natural numbers: sums of sizes of stored blocks do
  not reach 64 bits.
\<close>

section \<open>The trait\<close>

datatype ipfs_error = WriteFailed bytes | ReadFailed bytes

datatype deletion_outcome = Immediate | Deferred "u64 option"

record ('b, 'cid) ipfs_store =
  put_raw :: "'b \<Rightarrow> bytes \<Rightarrow> (ipfs_error + 'cid) \<times> 'b"
  get_raw :: "'b \<Rightarrow> 'cid \<Rightarrow> (ipfs_error + bytes option) \<times> 'b"
  store_delete :: "'b \<Rightarrow> 'cid \<Rightarrow> (ipfs_error + deletion_outcome) \<times> 'b"

text \<open>The body the trait gives to stores that do not define \<^verbatim>\<open>delete\<close>.\<close>

definition default_delete :: "'b \<Rightarrow> 'cid \<Rightarrow> (ipfs_error + deletion_outcome) \<times> 'b" where
  "default_delete b cid = (Inr (Deferred None), b)"

text \<open>\<^verbatim>\<open>Cid::new_v1(0x55, Code::Sha2_256.digest(data))\<close>.\<close>

definition raw_cid :: "'cid lib \<Rightarrow> bytes \<Rightarrow> 'cid" where
  "raw_cid L data = cid_new_v1 L 0x55 0x12 (sha256 L data)"

text \<open>What the CID crate documents of its text form: different CIDs print differently.\<close>

definition cid_prints :: "'cid lib \<Rightarrow> bool" where
  "cid_prints L \<longleftrightarrow> inj (cid_to_string L)"

section \<open>In memory\<close>

type_synonym mem_blocks = "bytes \<rightharpoonup> bytes"

definition mem_put_raw :: "'cid lib \<Rightarrow> mem_blocks \<Rightarrow> bytes \<Rightarrow> (ipfs_error + 'cid) \<times> mem_blocks" where
  "mem_put_raw L blocks data = (let cid = raw_cid L data in (Inr cid, blocks(cid_to_string L cid \<mapsto> data)))"

definition mem_get_raw :: "'cid lib \<Rightarrow> mem_blocks \<Rightarrow> 'cid \<Rightarrow> (ipfs_error + bytes option) \<times> mem_blocks" where
  "mem_get_raw L blocks cid = (Inr (blocks (cid_to_string L cid)), blocks)"

definition mem_store :: "'cid lib \<Rightarrow> (mem_blocks, 'cid) ipfs_store" where
  "mem_store L = \<lparr>put_raw = mem_put_raw L, get_raw = mem_get_raw L, store_delete = default_delete\<rparr>"

section \<open>In a table\<close>

record block_row =
  br_cid :: bytes
  br_codec :: u64
  br_data :: bytes
  br_byte_size :: nat
  br_stored_at :: int

definition block_find :: "block_row list \<Rightarrow> bytes \<Rightarrow> block_row option" where
  "block_find rows cid_str = find (\<lambda>r. br_cid r = cid_str) rows"

definition sqlite_put_raw :: "'cid lib \<Rightarrow> int \<Rightarrow> block_row list \<Rightarrow> bytes \<Rightarrow> (ipfs_error + 'cid) \<times> block_row list" where
  "sqlite_put_raw L now rows data =
     (let cid = raw_cid L data;
          row = \<lparr>br_cid = cid_to_string L cid, br_codec = cid_codec L cid, br_data = data, br_byte_size = length data, br_stored_at = now\<rparr>
      in (Inr cid, if block_find rows (br_cid row) = None then rows @ [row] else rows))"

definition sqlite_get_raw :: "'cid lib \<Rightarrow> block_row list \<Rightarrow> 'cid \<Rightarrow> (ipfs_error + bytes option) \<times> block_row list" where
  "sqlite_get_raw L rows cid = (Inr (map_option br_data (block_find rows (cid_to_string L cid))), rows)"

definition sqlite_delete :: "'cid lib \<Rightarrow> block_row list \<Rightarrow> 'cid \<Rightarrow> (ipfs_error + deletion_outcome) \<times> block_row list" where
  "sqlite_delete L rows cid = (Inr Immediate, filter (\<lambda>r. br_cid r \<noteq> cid_to_string L cid) rows)"

definition sqlite_store :: "'cid lib \<Rightarrow> int \<Rightarrow> (block_row list, 'cid) ipfs_store" where
  "sqlite_store L now = \<lparr>put_raw = sqlite_put_raw L now, get_raw = sqlite_get_raw L, store_delete = sqlite_delete L\<rparr>"

section \<open>In a directory\<close>

text \<open>File names are relative to the directory of the store; \<^verbatim>\<open>fd_seq\<close> is the counter \<^verbatim>\<open>WRITE_SEQ\<close>.\<close>

record fs_dir =
  fd_max_bytes :: "u64 option"
  fd_files :: "(bytes \<times> bytes) list"
  fd_seq :: u64

definition block_name :: "bytes \<Rightarrow> bytes" where
  "block_name filename = filename @ ''.block''"

definition dir_bytes_used :: "(bytes \<times> bytes) list \<Rightarrow> nat" where
  "dir_bytes_used files = sum_list (map (length \<circ> snd) (filter (\<lambda>f. strip_suffix ''.block'' (fst f) \<noteq> None) files))"

definition fs_put_raw :: "'cid lib \<Rightarrow> fs_dir \<Rightarrow> bytes \<Rightarrow> (ipfs_error + 'cid) \<times> fs_dir" where
  "fs_put_raw L d data =
     (let cid = raw_cid L data;
          filename = cid_to_string L cid;
          block_path = block_name filename;
          used = dir_bytes_used (fd_files d)
      in if map_of (fd_files d) block_path \<noteq> None then (Inr cid, d)
         else if (case fd_max_bytes d of None \<Rightarrow> False | Some cap \<Rightarrow> used + length data > unat cap)
         then (Inl (WriteFailed (''filesystem store soft cap exceeded: '' @ show_nat used @ '' + '' @ show_nat (length data)
                 @ '' bytes > '' @ show_nat (unat (the (fd_max_bytes d))) @ '' byte limit'')), d)
         else let tmp_path = filename @ ''.'' @ show_nat (unat (fd_seq d)) @ ''.block.tmp'';
                  files = fs_write tmp_path data (fd_files d)
              in (Inr cid, d\<lparr>fd_files := fs_write block_path data (fs_remove tmp_path files), fd_seq := fd_seq d + 1\<rparr>))"

definition fs_get_raw :: "'cid lib \<Rightarrow> fs_dir \<Rightarrow> 'cid \<Rightarrow> (ipfs_error + bytes option) \<times> fs_dir" where
  "fs_get_raw L d cid = (Inr (map_of (fd_files d) (block_name (cid_to_string L cid))), d)"

definition fs_delete :: "'cid lib \<Rightarrow> fs_dir \<Rightarrow> 'cid \<Rightarrow> (ipfs_error + deletion_outcome) \<times> fs_dir" where
  "fs_delete L d cid = (Inr Immediate, d\<lparr>fd_files := fs_remove (block_name (cid_to_string L cid)) (fd_files d)\<rparr>)"

definition fs_store :: "'cid lib \<Rightarrow> (fs_dir, 'cid) ipfs_store" where
  "fs_store L = \<lparr>put_raw = fs_put_raw L, get_raw = fs_get_raw L, store_delete = fs_delete L\<rparr>"

section \<open>The cache\<close>

record cache_config =
  cc_path :: bytes
  cc_max_bytes :: u64
  cc_max_entries :: u64

definition cache_default_max_bytes :: u64 where
  "cache_default_max_bytes = 10 * 1024 * 1024 * 1024"

definition cache_default_max_entries :: u64 where
  "cache_default_max_entries = 1000000"

record cache_row =
  cr_cid :: bytes
  cr_file_path :: bytes
  cr_byte_size :: nat
  cr_last_access :: int

record 'b block_cache =
  bc_config :: cache_config
  bc_rows :: "cache_row list"
  bc_files :: "(bytes \<times> bytes) list"
  bc_inner :: 'b

definition cache_find :: "cache_row list \<Rightarrow> bytes \<Rightarrow> cache_row option" where
  "cache_find rows cid_str = find (\<lambda>r. cr_cid r = cid_str) rows"

definition cache_get :: "'cid lib \<Rightarrow> int \<Rightarrow> 'b block_cache \<Rightarrow> 'cid \<Rightarrow> bytes option \<times> 'b block_cache" where
  "cache_get L now s cid =
     (let cid_str = cid_to_string L cid
      in case cache_find (bc_rows s) cid_str of
           None \<Rightarrow> (None, s)
         | Some row \<Rightarrow>
             (case map_of (bc_files s) (cr_file_path row) of
                None \<Rightarrow> (None, s)
              | Some bs \<Rightarrow> (Some bs, s\<lparr>bc_rows :=
                  map (\<lambda>r. if cr_cid r = cid_str then r\<lparr>cr_last_access := now\<rparr> else r) (bc_rows s)\<rparr>)))"

definition div_ceil :: "nat \<Rightarrow> nat \<Rightarrow> nat" where
  "div_ceil a b = (a + b - 1) div b"

fun pick_victims :: "cache_config \<Rightarrow> nat \<Rightarrow> nat \<Rightarrow> nat \<Rightarrow> cache_row list \<Rightarrow> cache_row list" where
  "pick_victims config incoming_bytes entry_count total_bytes [] = []"
| "pick_victims config incoming_bytes entry_count total_bytes (r # candidates) =
     (if entry_count + 1 > unat (cc_max_entries config) \<or> total_bytes + incoming_bytes > unat (cc_max_bytes config)
      then r # pick_victims config incoming_bytes (entry_count - 1) (total_bytes - cr_byte_size r) candidates
      else [])"

definition evict_victims :: "sqlx \<Rightarrow> 'b block_cache \<Rightarrow> nat \<Rightarrow> cache_row list" where
  "evict_victims q s incoming_bytes =
     (let config = bc_config s; rows = bc_rows s;
          max_entries = unat (cc_max_entries config); max_bytes = unat (cc_max_bytes config);
          entry_count = length rows; total_bytes = sum_list (map cr_byte_size rows)
      in if entry_count < max_entries \<and> total_bytes + incoming_bytes \<le> max_bytes then []
         else let entries_excess = entry_count + 1 - max_entries;
                  bytes_to_free = total_bytes + incoming_bytes - max_bytes;
                  avg_entry_bytes = (if entry_count > 0 then div_ceil total_bytes entry_count else 1);
                  entries_for_bytes = div_ceil bytes_to_free (max avg_entry_bytes 1);
                  limit = min (max ((entries_excess + entries_for_bytes) * 2) 1) entry_count;
                  candidates = take limit (sort_key cr_last_access
                    (List.map_filter (cache_find rows) (scan_rows q (map cr_cid rows))))
              in pick_victims config incoming_bytes entry_count total_bytes candidates)"

definition evict_for :: "sqlx \<Rightarrow> 'b block_cache \<Rightarrow> nat \<Rightarrow> 'b block_cache" where
  "evict_for q s incoming_bytes =
     (let victims = evict_victims q s incoming_bytes
      in if victims = [] then s
         else s\<lparr>bc_files := fold (fs_remove \<circ> cr_file_path) victims (bc_files s),
                bc_rows := filter (\<lambda>r. cr_cid r \<notin> set (map cr_cid victims)) (bc_rows s)\<rparr>)"

definition do_cache_put :: "'cid lib \<Rightarrow> sqlx \<Rightarrow> int \<Rightarrow> 'b block_cache \<Rightarrow> 'cid \<Rightarrow> bytes \<Rightarrow> 'b block_cache" where
  "do_cache_put L q now s cid bs =
     (let cid_str = cid_to_string L cid
      in if cache_find (bc_rows s) cid_str \<noteq> None then s
         else let s = evict_for q s (length bs);
                  file_path = path_join (cc_path (bc_config s)) cid_str;
                  row = \<lparr>cr_cid = cid_str, cr_file_path = file_path, cr_byte_size = length bs, cr_last_access = now\<rparr>
              in s\<lparr>bc_files := fs_write file_path bs (bc_files s), bc_rows := bc_rows s @ [row]\<rparr>)"

definition cache_put_raw ::
  "'cid lib \<Rightarrow> sqlx \<Rightarrow> (int \<Rightarrow> ('b, 'cid) ipfs_store) \<Rightarrow> int \<Rightarrow> 'b block_cache \<Rightarrow> bytes \<Rightarrow> (ipfs_error + 'cid) \<times> 'b block_cache" where
  "cache_put_raw L q I now s data =
     (case put_raw (I now) (bc_inner s) data of
        (Inl e, b) \<Rightarrow> (Inl e, s\<lparr>bc_inner := b\<rparr>)
      | (Inr cid, b) \<Rightarrow> (Inr cid, do_cache_put L q now (s\<lparr>bc_inner := b\<rparr>) cid data))"

definition cache_get_raw ::
  "'cid lib \<Rightarrow> sqlx \<Rightarrow> (int \<Rightarrow> ('b, 'cid) ipfs_store) \<Rightarrow> int \<Rightarrow> 'b block_cache \<Rightarrow> 'cid \<Rightarrow> (ipfs_error + bytes option) \<times> 'b block_cache" where
  "cache_get_raw L q I now s cid =
     (case cache_get L now s cid of
        (Some bs, s) \<Rightarrow> (Inr (Some bs), s)
      | (None, s) \<Rightarrow>
          (case get_raw (I now) (bc_inner s) cid of
             (Inl e, b) \<Rightarrow> (Inl e, s\<lparr>bc_inner := b\<rparr>)
           | (Inr None, b) \<Rightarrow> (Inr None, s\<lparr>bc_inner := b\<rparr>)
           | (Inr (Some bs), b) \<Rightarrow> (Inr (Some bs), do_cache_put L q now (s\<lparr>bc_inner := b\<rparr>) cid bs)))"

text \<open>The cache does not define \<^verbatim>\<open>delete\<close>.\<close>

definition cache_store :: "'cid lib \<Rightarrow> sqlx \<Rightarrow> (int \<Rightarrow> ('b, 'cid) ipfs_store) \<Rightarrow> int \<Rightarrow> ('b block_cache, 'cid) ipfs_store" where
  "cache_store L q I now = \<lparr>put_raw = cache_put_raw L q I now, get_raw = cache_get_raw L q I now, store_delete = default_delete\<rparr>"

section \<open>The contract\<close>

text \<open>A sequence of calls, each with the reading of the clock, and its answers.\<close>

datatype 'cid store_call = Put bytes | Get 'cid

datatype 'cid store_answer = Stored "ipfs_error + 'cid" | Fetched "ipfs_error + bytes option"

fun store_run :: "(int \<Rightarrow> ('b, 'cid) ipfs_store) \<Rightarrow> 'b \<Rightarrow> (int \<times> 'cid store_call) list \<Rightarrow> 'cid store_answer list \<times> 'b" where
  "store_run I b [] = ([], b)"
| "store_run I b ((now, Put d) # calls) =
     (let (r, b) = put_raw (I now) b d; (answers, b) = store_run I b calls in (Stored r # answers, b))"
| "store_run I b ((now, Get c) # calls) =
     (let (r, b) = get_raw (I now) b c; (answers, b) = store_run I b calls in (Fetched r # answers, b))"

text \<open>The answers are those of a map from CIDs to bytes in which some puts may have failed.\<close>

fun explained :: "'cid lib \<Rightarrow> ('cid \<rightharpoonup> bytes) \<Rightarrow> (int \<times> 'cid store_call) list \<Rightarrow> 'cid store_answer list \<Rightarrow> bool" where
  "explained L m [] [] = True"
| "explained L m ((now, Put d) # calls) (Stored (Inr c) # answers) = (c = raw_cid L d \<and> explained L (m(c \<mapsto> d)) calls answers)"
| "explained L m ((now, Put d) # calls) (Stored (Inl e) # answers) = explained L m calls answers"
| "explained L m ((now, Get c) # calls) (Fetched r # answers) = (r = Inr (m c) \<and> explained L m calls answers)"
| "explained L m calls answers = False"

text \<open>No two different blocks among those stored and those put have the same CID.\<close>

definition no_collision :: "'cid lib \<Rightarrow> ('cid \<rightharpoonup> bytes) \<Rightarrow> (int \<times> 'cid store_call) list \<Rightarrow> bool" where
  "no_collision L m calls \<longleftrightarrow> (\<forall>d. Put d \<in> snd ` set calls \<longrightarrow> m (raw_cid L d) \<in> {None, Some d})
     \<and> (\<forall>d d'. Put d \<in> snd ` set calls \<longrightarrow> Put d' \<in> snd ` set calls \<longrightarrow> raw_cid L d = raw_cid L d' \<longrightarrow> d = d')"

lemma print_eq: "cid_prints L \<Longrightarrow> cid_to_string L c = cid_to_string L d \<longleftrightarrow> c = d"
  by (simp add: cid_prints_def inj_eq)

lemma cache_find_Some: "cache_find rows k = Some r \<Longrightarrow> r \<in> set rows \<and> cr_cid r = k"
  unfolding cache_find_def by (auto simp: find_Some_iff)

lemma files_left: "map_of (fold (fs_remove \<circ> f) vs files) p = Some d \<Longrightarrow> map_of files p = Some d"
proof (induction vs arbitrary: files)
  case (Cons v vs)
  have "map_of (fs_remove (f v) files) p = Some d" by (rule Cons.IH) (use Cons.prems in simp)
  then show ?case by (simp split: if_splits)
qed simp

lemma evict_for_frame:
  "bc_inner (evict_for q s n) = bc_inner s" "bc_config (evict_for q s n) = bc_config s"
  "set (bc_rows (evict_for q s n)) \<subseteq> set (bc_rows s)"
  "map_of (bc_files (evict_for q s n)) p = Some d \<Longrightarrow> map_of (bc_files s) p = Some d"
  by (auto simp: evict_for_def Let_def simp del: o_apply fold_simps split: if_splits elim: files_left)

text \<open>
  \<^verbatim>\<open>content\<close> is what a store holds, \<^verbatim>\<open>ok\<close> its own invariant. A stored block is read back until it is
  deleted, under the CID of its bytes. Nothing is promised when different bytes have that CID.
\<close>

locale block_store =
  fixes L :: "'cid lib" and I :: "int \<Rightarrow> ('b, 'cid) ipfs_store" and content :: "'b \<Rightarrow> 'cid \<Rightarrow> bytes option" and ok :: "'b \<Rightarrow> bool"
  assumes put_ok: "ok b \<Longrightarrow> put_raw (I now) b d = (Inr c, b') \<Longrightarrow> content b (raw_cid L d) \<in> {None, Some d} \<Longrightarrow>
      c = raw_cid L d \<and> ok b' \<and> content b' = (content b)(c \<mapsto> d)"
    and put_failed: "ok b \<Longrightarrow> put_raw (I now) b d = (Inl e, b') \<Longrightarrow> ok b' \<and> content b' = content b"
    and get: "ok b \<Longrightarrow> get_raw (I now) b c = (r, b') \<Longrightarrow> r = Inr (content b c) \<and> ok b' \<and> content b' = content b"
    and deletes: "ok b \<Longrightarrow> store_delete (I now) b c = (Inr Immediate, b') \<Longrightarrow> ok b' \<and> content b' = (content b)(c := None)"
    and defers: "ok b \<Longrightarrow> store_delete (I now) b c = (Inr (Deferred t), b') \<Longrightarrow> ok b' \<and> content b' = content b"
begin

lemma run_explained:
  assumes "ok b" "no_collision L (content b) calls" "store_run I b calls = (answers, b')"
  shows "explained L (content b) calls answers \<and> ok b'"
  using assms
proof (induction calls arbitrary: b answers)
  case (Cons call calls)
  obtain now op where call: "call = (now, op)" by fastforce
  show ?case
  proof (cases op)
    case (Put d)
    obtain r b1 where put: "put_raw (I now) b d = (r, b1)" by fastforce
    obtain as where rest: "store_run I b1 calls = (as, b')" "answers = Stored r # as"
      using Cons.prems(3) by (auto simp: call Put put split: prod.splits)
    have m: "content b (raw_cid L d) \<in> {None, Some d}" using Cons.prems(2) by (auto simp: no_collision_def call Put)
    show ?thesis
    proof (cases r)
      case (Inl e)
      note b1 = put_failed [OF Cons.prems(1), of now d e b1]
      have "no_collision L (content b1) calls" using Cons.prems(2) b1 put by (auto simp: no_collision_def Inl)
      then show ?thesis using Cons.IH [OF _ _ rest(1)] b1 put by (simp add: call Put rest(2) Inl)
    next
      case (Inr c)
      have b1: "c = raw_cid L d" "ok b1" "content b1 = (content b)(c \<mapsto> d)"
        using put_ok [OF Cons.prems(1) _ m] put by (auto simp: Inr)
      have "no_collision L (content b1) calls" using Cons.prems(2) by (auto simp: no_collision_def b1(1,3) call Put)
      then have "explained L (content b1) calls as \<and> ok b'" by (rule Cons.IH [OF b1(2) _ rest(1)])
      then show ?thesis by (simp only: call Put rest(2) Inr explained.simps b1(1,3) simp_thms)
    qed
  next
    case (Get c)
    obtain r b1 where get1: "get_raw (I now) b c = (r, b1)" by fastforce
    obtain as where rest: "store_run I b1 calls = (as, b')" "answers = Fetched r # as"
      using Cons.prems(3) by (auto simp: call Get get1 split: prod.splits)
    note b1 = get [OF Cons.prems(1) get1]
    have "no_collision L (content b1) calls" using Cons.prems(2) b1 by (auto simp: no_collision_def)
    then show ?thesis using Cons.IH [OF _ _ rest(1)] b1 by (simp add: call Get rest(2))
  qed
qed simp

text \<open>What the cache holds is what the store behind it holds.\<close>

definition cache_ok :: "'b block_cache \<Rightarrow> bool" where
  "cache_ok s \<longleftrightarrow> cid_prints L \<and> ok (bc_inner s)
     \<and> (\<forall>r \<in> set (bc_rows s). cr_file_path r = path_join (cc_path (bc_config s)) (cr_cid r))
     \<and> (\<forall>r \<in> set (bc_rows s). \<forall>c d. cr_cid r = cid_to_string L c \<longrightarrow> map_of (bc_files s) (cr_file_path r) = Some d
          \<longrightarrow> content (bc_inner s) c = Some d)"

lemma cache_okD:
  assumes "cache_ok s" "r \<in> set (bc_rows s)" "cr_cid r = cid_to_string L c" "map_of (bc_files s) (cr_file_path r) = Some d"
  shows "content (bc_inner s) c = Some d"
  using assms by (auto simp: cache_ok_def)

lemma evict_for_ok: "cache_ok s \<Longrightarrow> cache_ok (evict_for q s n)"
  using evict_for_frame(3) [of q s n] evict_for_frame(4) [of q s n]
  by (auto simp: cache_ok_def evict_for_frame(1,2))

lemma do_cache_put_ok:
  assumes "cache_ok s" "content (bc_inner s) c = Some d"
  shows "cache_ok (do_cache_put L q now s c d) \<and> bc_inner (do_cache_put L q now s c d) = bc_inner s"
proof -
  let ?s = "evict_for q s (length d)"
  have ok: "cache_ok ?s" by (rule evict_for_ok [OF assms(1)])
  have print: "cid_prints L" using assms(1) by (simp add: cache_ok_def)
  have "cache_ok (?s\<lparr>bc_files := fs_write (path_join (cc_path (bc_config ?s)) (cid_to_string L c)) d (bc_files ?s),
      bc_rows := bc_rows ?s @ [\<lparr>cr_cid = cid_to_string L c, cr_file_path = path_join (cc_path (bc_config ?s)) (cid_to_string L c),
        cr_byte_size = length d, cr_last_access = now\<rparr>]\<rparr>)"
    using ok assms(2) by (auto simp: cache_ok_def print_eq [OF print] evict_for_frame(1,2) split: if_splits)
  then show ?thesis using assms(1) by (simp add: do_cache_put_def Let_def evict_for_frame(1))
qed

lemma cache_get_ok:
  assumes "cache_ok s" "cache_get L now s c = (r, s')"
  shows "cache_ok s' \<and> bc_inner s' = bc_inner s \<and> (\<forall>d. r = Some d \<longrightarrow> content (bc_inner s) c = Some d)"
proof -
  have "content (bc_inner s) c = Some d"
    if "cache_find (bc_rows s) (cid_to_string L c) = Some row" "map_of (bc_files s) (cr_file_path row) = Some d" for row d
    using cache_find_Some [OF that(1)] that(2) by (intro cache_okD [OF assms(1)]) auto
  moreover have "cache_ok (s\<lparr>bc_rows := map (\<lambda>r. if cr_cid r = k then r\<lparr>cr_last_access := now\<rparr> else r) (bc_rows s)\<rparr>)" for k
    using assms(1) by (auto simp: cache_ok_def)
  ultimately show ?thesis using assms by (auto simp: cache_get_def Let_def split: option.splits)
qed

text \<open>The cache in front of a store that meets the contract meets it with the same content.\<close>

lemma cached: "block_store L (cache_store L q I) (\<lambda>s. content (bc_inner s)) cache_ok"
proof
  fix s s' :: "'b block_cache" and now d c e r t
  assume ok: "cache_ok s"
  then have inner: "ok (bc_inner s)" by (simp add: cache_ok_def)
  have moved: "cache_ok (s\<lparr>bc_inner := b\<rparr>)" if "ok b" "\<forall>c d. content (bc_inner s) c = Some d \<longrightarrow> content b c = Some d" for b
    using ok that by (auto simp: cache_ok_def)
  show "c = raw_cid L d \<and> cache_ok s' \<and> content (bc_inner s') = (content (bc_inner s))(c \<mapsto> d)"
    if "put_raw (cache_store L q I now) s d = (Inr c, s')" "content (bc_inner s) (raw_cid L d) \<in> {None, Some d}"
  proof -
    obtain v b where v: "put_raw (I now) (bc_inner s) d = (v, b)" by fastforce
    then have b: "put_raw (I now) (bc_inner s) d = (Inr c, b)" "s' = do_cache_put L q now (s\<lparr>bc_inner := b\<rparr>) c d"
      using that(1) by (auto simp: cache_store_def cache_put_raw_def split: sum.splits)
    note put = put_ok [OF inner b(1) that(2)]
    have "cache_ok (s\<lparr>bc_inner := b\<rparr>)" by (rule moved) (use put that(2) in auto)
    then show ?thesis using do_cache_put_ok [of "s\<lparr>bc_inner := b\<rparr>" c d q now] put by (simp add: b(2))
  qed
  show "cache_ok s' \<and> content (bc_inner s') = content (bc_inner s)"
    if "put_raw (cache_store L q I now) s d = (Inl e, s')"
    using that put_failed [OF inner] moved by (auto simp: cache_store_def cache_put_raw_def split: prod.splits sum.splits)
  show "r = Inr (content (bc_inner s) c) \<and> cache_ok s' \<and> content (bc_inner s') = content (bc_inner s)"
    if run: "get_raw (cache_store L q I now) s c = (r, s')"
  proof -
    obtain hit s1 where s1: "cache_get L now s c = (hit, s1)" by fastforce
    note hit = cache_get_ok [OF ok s1]
    show ?thesis
    proof (cases hit)
      case None
      obtain v b where b: "get_raw (I now) (bc_inner s1) c = (v, b)" by fastforce
      have g: "v = Inr (content (bc_inner s) c)" "ok b" "content b = content (bc_inner s)"
        using get [OF _ b] inner hit by auto
      have "cache_ok (s1\<lparr>bc_inner := b\<rparr>)" using hit g by (auto simp: cache_ok_def)
      then show ?thesis using run do_cache_put_ok [of "s1\<lparr>bc_inner := b\<rparr>" c _ q now] g
        by (auto simp: cache_store_def cache_get_raw_def s1 None b split: option.splits)
    qed (use run s1 hit in \<open>simp add: cache_store_def cache_get_raw_def\<close>)
  qed
  show "cache_ok s' \<and> content (bc_inner s') = (content (bc_inner s))(c := None)"
    if "store_delete (cache_store L q I now) s c = (Inr Immediate, s')"
    using that by (simp add: cache_store_def default_delete_def)
  show "cache_ok s' \<and> content (bc_inner s') = content (bc_inner s)"
    if "store_delete (cache_store L q I now) s c = (Inr (Deferred t), s')"
    using that ok by (simp add: cache_store_def default_delete_def)
qed

end

section \<open>The stores meet it\<close>

interpretation mem_blocks: block_store L "\<lambda>_. mem_store L" "\<lambda>b c. b (cid_to_string L c)" "\<lambda>_. cid_prints L" for L
  by unfold_locales (auto simp: mem_store_def mem_put_raw_def mem_get_raw_def default_delete_def Let_def print_eq intro!: ext)

lemma block_find_append: "block_find (rows @ [r]) k = (case block_find rows k of None \<Rightarrow> if br_cid r = k then Some r else None | x \<Rightarrow> x)"
  by (induction rows) (auto simp: block_find_def)

lemma block_find_filter: "block_find (filter (\<lambda>r. br_cid r \<noteq> k) rows) k' = (if k' = k then None else block_find rows k')"
  by (induction rows) (auto simp: block_find_def)

interpretation sqlite_blocks: block_store L "sqlite_store L" "\<lambda>rows c. map_option br_data (block_find rows (cid_to_string L c))"
    "\<lambda>_. cid_prints L" for L
  by unfold_locales
    (auto simp: sqlite_store_def sqlite_put_raw_def sqlite_get_raw_def sqlite_delete_def Let_def print_eq block_find_append
      block_find_filter intro!: ext split: option.splits if_splits)

lemma block_name_eq: "block_name a = block_name b \<longleftrightarrow> a = b"
  by (simp add: block_name_def)

lemma block_name_not_tmp: "block_name a \<noteq> b @ ''.'' @ n @ ''.block.tmp''"
proof
  assume "block_name a = b @ ''.'' @ n @ ''.block.tmp''"
  then have "last (block_name a) = last (b @ ''.'' @ n @ ''.block.tmp'')" by (rule arg_cong)
  then show False by (simp add: block_name_def)
qed

interpretation fs_blocks: block_store L "\<lambda>_. fs_store L" "\<lambda>d c. map_of (fd_files d) (block_name (cid_to_string L c))"
    "\<lambda>_. cid_prints L" for L
  by unfold_locales
    (auto simp: fs_store_def fs_put_raw_def fs_get_raw_def fs_delete_def Let_def print_eq block_name_eq
      block_name_not_tmp [simplified] intro!: ext split: option.splits if_splits)

abbreviation table_content :: "'cid lib \<Rightarrow> block_row list \<Rightarrow> 'cid \<Rightarrow> bytes option" where
  "table_content L rows c \<equiv> map_option br_data (block_find rows (cid_to_string L c))"

abbreviation table_cache_ok :: "'cid lib \<Rightarrow> block_row list block_cache \<Rightarrow> bool" where
  "table_cache_ok L \<equiv> block_store.cache_ok L (table_content L) (\<lambda>_. cid_prints L)"

interpretation cached_table: block_store L "cache_store L q (sqlite_store L)" "\<lambda>s. table_content L (bc_inner s)" "table_cache_ok L" for L q
  by (rule sqlite_blocks.cached)

section \<open>The cache does not show\<close>

lemma cached_table_step:
  assumes "table_cache_ok L s"
  shows "fst (put_raw (cache_store L q (sqlite_store L) now) s d) = fst (put_raw (sqlite_store L now) (bc_inner s) d)"
    "bc_inner (snd (put_raw (cache_store L q (sqlite_store L) now) s d)) = snd (put_raw (sqlite_store L now) (bc_inner s) d)"
    "fst (get_raw (cache_store L q (sqlite_store L) now) s c) = fst (get_raw (sqlite_store L now) (bc_inner s) c)"
    "bc_inner (snd (get_raw (cache_store L q (sqlite_store L) now) s c)) = snd (get_raw (sqlite_store L now) (bc_inner s) c)"
proof -
  have inner: "bc_inner (do_cache_put L q now t k v) = bc_inner t" for t :: "block_row list block_cache" and k v
    by (simp add: do_cache_put_def Let_def evict_for_frame(1))
  then show "fst (put_raw (cache_store L q (sqlite_store L) now) s d) = fst (put_raw (sqlite_store L now) (bc_inner s) d)"
    "bc_inner (snd (put_raw (cache_store L q (sqlite_store L) now) s d)) = snd (put_raw (sqlite_store L now) (bc_inner s) d)"
    by (simp_all add: cache_store_def cache_put_raw_def sqlite_store_def sqlite_put_raw_def Let_def)
  obtain r s' where run: "get_raw (cache_store L q (sqlite_store L) now) s c = (r, s')" by fastforce
  have "r = Inr (table_content L (bc_inner s) c)" using cached_table.get [OF assms run] by simp
  then show "fst (get_raw (cache_store L q (sqlite_store L) now) s c) = fst (get_raw (sqlite_store L now) (bc_inner s) c)"
    by (simp add: run sqlite_store_def sqlite_get_raw_def)
  obtain hit s1 where s1: "cache_get L now s c = (hit, s1)" by fastforce
  have "bc_inner s1 = bc_inner s" using sqlite_blocks.cache_get_ok [OF assms s1] by simp
  then show "bc_inner (snd (get_raw (cache_store L q (sqlite_store L) now) s c)) = snd (get_raw (sqlite_store L now) (bc_inner s) c)"
    by (auto simp: cache_store_def cache_get_raw_def s1 sqlite_store_def sqlite_get_raw_def inner split: option.splits)
qed

lemma cached_table_run:
  assumes "table_cache_ok L s" "no_collision L (table_content L (bc_inner s)) calls"
  shows "fst (store_run (cache_store L q (sqlite_store L)) s calls) = fst (store_run (sqlite_store L) (bc_inner s) calls)"
  using assms
proof (induction calls arbitrary: s)
  case (Cons call calls)
  obtain now op where call: "call = (now, op)" by fastforce
  show ?case
  proof (cases op)
    case (Put d)
    obtain r s' where run: "put_raw (cache_store L q (sqlite_store L) now) s d = (r, s')" by fastforce
    have bare: "put_raw (sqlite_store L now) (bc_inner s) d = (r, bc_inner s')"
      using cached_table_step(1,2) [OF Cons.prems(1), of q now d] by (simp add: run prod_eq_iff)
    obtain c where r: "r = Inr c" using bare by (auto simp: sqlite_store_def sqlite_put_raw_def Let_def)
    have m: "table_content L (bc_inner s) (raw_cid L d) \<in> {None, Some d}" using Cons.prems(2) by (auto simp: no_collision_def call Put)
    note put = cached_table.put_ok [OF Cons.prems(1) run [unfolded r] m]
    have "no_collision L (table_content L (bc_inner s')) calls"
      using Cons.prems(2) put by (auto simp: no_collision_def call Put)
    then show ?thesis using Cons.IH [of s'] put by (simp add: call Put run bare case_prod_beta)
  next
    case (Get c)
    obtain r s' where run: "get_raw (cache_store L q (sqlite_store L) now) s c = (r, s')" by fastforce
    have bare: "get_raw (sqlite_store L now) (bc_inner s) c = (r, bc_inner s')"
      using cached_table_step(3,4) [OF Cons.prems(1), of q now c] by (simp add: run prod_eq_iff)
    note got = cached_table.get [OF Cons.prems(1) run]
    have "no_collision L (table_content L (bc_inner s')) calls" using Cons.prems(2) got by (auto simp: no_collision_def)
    then show ?thesis using Cons.IH [of s'] got by (simp add: call Get run bare case_prod_beta)
  qed
qed simp

text \<open>
  C38. The block cache does not show. Whatever blocks are put and fetched, in whatever order, however
  small the cache and whatever it evicts, every answer is the one the SQLite store alone would have
  given, and it is the answer of a map from CIDs to bytes: what was put is what is fetched. Different
  blocks with the same CID are excluded.
\<close>

theorem cached_store_transparent:
  assumes "cid_prints L" "no_collision L (table_content L rows) calls"
    "fst (store_run (cache_store L q (sqlite_store L)) \<lparr>bc_config = config, bc_rows = [], bc_files = files, bc_inner = rows\<rparr> calls) = answers"
  shows "answers = fst (store_run (sqlite_store L) rows calls) \<and> explained L (table_content L rows) calls answers"
proof -
  let ?s = "\<lparr>bc_config = config, bc_rows = [], bc_files = files, bc_inner = rows\<rparr>"
  have ok: "table_cache_ok L ?s" unfolding sqlite_blocks.cache_ok_def using assms(1) by simp
  have nc: "no_collision L (table_content L (bc_inner ?s)) calls" using assms(2) by simp
  obtain as s' where run: "store_run (cache_store L q (sqlite_store L)) ?s calls = (as, s')" by fastforce
  show ?thesis using cached_table_run [OF ok nc, of q] cached_table.run_explained [OF ok nc run] assms(3) by (simp add: run)
qed

definition demo_calls :: "(int \<times> bytes store_call) list" where
  "demo_calls = [(1, Put ''aa''), (2, Put ''bb''), (3, Get (raw_cid demo_lib ''aa'')), (4, Get (raw_cid demo_lib ''bb''))]"

abbreviation demo_cache :: "block_row list block_cache" where
  "demo_cache \<equiv> \<lparr>bc_config = \<lparr>cc_path = ''/c'', cc_max_bytes = 3, cc_max_entries = 9\<rparr>, bc_rows = [], bc_files = [], bc_inner = []\<rparr>"

theorem cached_store_transparent_witness:
  "fst (store_run (cache_store demo_lib demo_sqlx (sqlite_store demo_lib)) demo_cache demo_calls)
    = fst (store_run (sqlite_store demo_lib) [] demo_calls)
   \<and> explained demo_lib (table_content demo_lib []) demo_calls
       (fst (store_run (cache_store demo_lib demo_sqlx (sqlite_store demo_lib)) demo_cache demo_calls))"
proof (rule cached_store_transparent [OF _ _ refl])
  show "cid_prints demo_lib" by (simp add: cid_prints_def demo_lib_def)
  show "no_collision demo_lib (table_content demo_lib []) demo_calls"
    by (auto simp: no_collision_def demo_calls_def block_find_def raw_cid_def demo_lib_def)
qed

text \<open>A deletion through the cache reaches no store: it is reported as deferred and changes nothing.\<close>

lemma cached_delete_lost: "store_delete (cache_store L q I now) s c = (Inr (Deferred None), s)"
  by (simp add: cache_store_def default_delete_def)

text \<open>
  The number of candidates for eviction is estimated from the average size, so that a few small blocks
  that were used long ago make the cache exceed its limit.
\<close>

definition demo_full :: "nat list \<Rightarrow> unit block_cache" where
  "demo_full sizes = \<lparr>bc_config = \<lparr>cc_path = ''/c'', cc_max_bytes = 20, cc_max_entries = 100\<rparr>,
     bc_rows = map (\<lambda>(i, n). \<lparr>cr_cid = [byte i], cr_file_path = [byte i], cr_byte_size = n, cr_last_access = int i\<rparr>) (enumerate 0 sizes),
     bc_files = [], bc_inner = ()\<rparr>"

lemma eviction_falls_short:
  "sum_list (map cr_byte_size (bc_rows (do_cache_put demo_lib demo_sqlx 9 (demo_full [1, 1, 1, 1, 1, 15]) ''x'' ''12345''))) = 21"
  by code_simp

end
