(* ===== verification/Pipeline.thy ===== *)
theory Pipeline
  imports GroupLogProps Ingest PeerAuth BlockStore RateLimit
begin

text \<open>
  The store-and-forward pipeline (\<^verbatim>\<open>run_pipeline\<close> in \<^verbatim>\<open>crates/transit/src/peering/pipeline.rs\<close>) and what the
  drain tasks do around it (\<^verbatim>\<open>run_pipeline_and_notify\<close> in \<^verbatim>\<open>crates/transit/src/main.rs\<close>): the Path header, the
  block store, the Message-ID map, the group logs, the table of articles, IPNS events and pin jobs. It
  is stated over any block store and any log storage. The texts of errors are kept as the values they
  are formatted from. The recording of article signatures, which never stops the pipeline, metrics and
  log lines are left out.
\<close>

section \<open>State\<close>

datatype pipeline_cause =
    IpfsWrite ipfs_error
  | NoMessageId
  | MsgidInsert storage_error
  | SelfCheck bytes verify_error

datatype pipeline_error = Permanent pipeline_cause | Transient pipeline_cause

record article_row =
  ar_cid :: bytes
  ar_group_name :: bytes
  ar_ingested_at_ms :: int
  ar_byte_count :: int

record ('b, 's) pipeline_state =
  ps_blocks :: 'b
  ps_msgids :: msgid_rows
  ps_log :: 's
  ps_articles :: "article_row list"

record 'sk pipeline_ctx =
  cx_timestamp :: hlc_timestamp
  cx_signing_key :: 'sk
  cx_local_hostname :: bytes
  cx_group_filter :: group_policy

record 'cid pipeline_result =
  pl_cid :: 'cid
  pl_groups :: "bytes list"

section \<open>The group logs\<close>

text \<open>The entry for an article on the given tips.\<close>

definition operator_entry :: "'cid lib \<Rightarrow> 'sk ed25519 \<Rightarrow> 'sk pipeline_ctx \<Rightarrow> 'cid \<Rightarrow> log_entry_id list \<Rightarrow> 'cid log_entry" where
  "operator_entry L E ctx cid tip_ids =
     (let parents = map (to_cid L) tip_ids;
          canonical = log_entry_canonical_bytes L (wall_ms (cx_timestamp ctx)) cid parents
      in \<lparr>le_hlc_timestamp = cx_timestamp ctx, article_cid = cid,
          operator_signature = ed_sign E (cx_signing_key ctx) canonical, parent_cids = parents\<rparr>)"

definition filter_accepts :: "group_policy \<Rightarrow> bytes \<Rightarrow> bool" where
  "filter_accepts policy name = (case policy of None \<Rightarrow> True | Some f \<Rightarrow> group_filter_accepts f name)"

fun append_group_loop ::
  "'cid lib \<Rightarrow> 'sk ed25519 \<Rightarrow> ('s, 'cid) log_storage_ops \<Rightarrow> 'sk pipeline_ctx \<Rightarrow> 'cid \<Rightarrow> (bytes \<times> log_entry_id) list \<Rightarrow> 's \<Rightarrow> bytes list
    \<Rightarrow> (pipeline_error + (bytes \<times> log_entry_id) list) \<times> 's" where
  "append_group_loop L E S ctx cid appended_groups s [] = (Inr appended_groups, s)"
| "append_group_loop L E S ctx cid appended_groups s (group_name_str # strs) =
     (case group_name_new group_name_str of
        Inl _ \<Rightarrow> append_group_loop L E S ctx cid appended_groups s strs
      | Inr grp \<Rightarrow>
          if \<not> filter_accepts (cx_group_filter ctx) group_name_str then append_group_loop L E S ctx cid appended_groups s strs
          else case list_tips S s grp of
            Inl _ \<Rightarrow> append_group_loop L E S ctx cid appended_groups s strs
          | Inr tip_ids \<Rightarrow>
              (case verify_signature L (operator_entry L E ctx cid tip_ids) (ed_public E (cx_signing_key ctx)) of
                 Inl e \<Rightarrow> (Inl (Permanent (SelfCheck group_name_str e)), s)
               | Inr verified \<Rightarrow>
                   (case log_append L S s grp verified of
                      (Inl _, s) \<Rightarrow> append_group_loop L E S ctx cid appended_groups s strs
                    | (Inr entry_id, s) \<Rightarrow> append_group_loop L E S ctx cid (appended_groups @ [(group_name_str, entry_id)]) s strs)))"

section \<open>The pipeline\<close>

text \<open>\<^verbatim>\<open>INSERT INTO articles ... ON CONFLICT (cid) DO UPDATE SET group_name\<close>.\<close>

definition record_article :: "article_row list \<Rightarrow> article_row \<Rightarrow> article_row list" where
  "record_article rows row =
     (if \<exists>r \<in> set rows. ar_cid r = ar_cid row
      then map (\<lambda>r. if ar_cid r = ar_cid row then r\<lparr>ar_group_name := ar_group_name row\<rparr> else r) rows
      else rows @ [row])"

text \<open>\<^verbatim>\<open>now\<close> is the time of the calls of the block store, \<^verbatim>\<open>ingested_at_ms\<close> that of the row in the table of articles.\<close>

definition run_pipeline ::
  "'cid lib \<Rightarrow> 'sk ed25519 \<Rightarrow> (int \<Rightarrow> ('b, 'cid) ipfs_store) \<Rightarrow> ('s, 'cid) log_storage_ops \<Rightarrow> 'sk pipeline_ctx \<Rightarrow> int \<Rightarrow> int
    \<Rightarrow> ('b, 's) pipeline_state \<Rightarrow> bytes \<Rightarrow> (pipeline_error + 'cid pipeline_result) outcome \<times> ('b, 's) pipeline_state" where
  "run_pipeline L E I S ctx now ingested_at_ms st original_bytes =
     (let article_bytes = prepend_path_header original_bytes (cx_local_hostname ctx)
      in case put_raw (I now) (ps_blocks st) article_bytes of
           (Inl e, b) \<Rightarrow> (Return (Inl (Transient (IpfsWrite e))), st\<lparr>ps_blocks := b\<rparr>)
         | (Inr cid, b) \<Rightarrow>
             let st = st\<lparr>ps_blocks := b\<rparr>
             in case parse_message_id_and_newsgroups article_bytes of
                  Panic \<Rightarrow> (Panic, st)
                | Return None \<Rightarrow> (Return (Inl (Permanent NoMessageId)), st)
                | Return (Some (message_id, group_name_strs)) \<Rightarrow>
                    (case msgid_insert L (ps_msgids st) message_id cid of
                       (Inl e, m) \<Rightarrow>
                         (Return (Inl (Transient (MsgidInsert e))),
                          st\<lparr>ps_msgids := m, ps_blocks := snd (store_delete (I now) (ps_blocks st) cid)\<rparr>)
                     | (Inr _, m) \<Rightarrow>
                         let st = st\<lparr>ps_msgids := m\<rparr>
                         in case append_group_loop L E S ctx cid [] (ps_log st) group_name_strs of
                              (Inl e, s) \<Rightarrow> (Return (Inl e), st\<lparr>ps_log := s\<rparr>)
                            | (Inr appended_groups, s) \<Rightarrow>
                                let row = \<lparr>ar_cid = cid_to_string L cid, ar_group_name = join '','' group_name_strs,
                                      ar_ingested_at_ms = ingested_at_ms, ar_byte_count = int (length article_bytes)\<rparr>
                                in (Return (Inr \<lparr>pl_cid = cid, pl_groups = map fst appended_groups\<rparr>),
                                    st\<lparr>ps_log := s, ps_articles := record_article (ps_articles st) row\<rparr>)))"

section \<open>What follows a run\<close>

text \<open>\<^verbatim>\<open>try_send\<close> is the IPNS channel after an attempt to send, whether there was room or not.\<close>

definition publish_ipns_tip :: "('q \<Rightarrow> bytes \<times> 'cid \<Rightarrow> 'q) \<Rightarrow> 'cid pipeline_result \<Rightarrow> 'q option \<Rightarrow> 'q option" where
  "publish_ipns_tip try_send result ipns_tx =
     map_option (fold (\<lambda>grp tx. try_send tx (grp, pl_cid result)) (pl_groups result)) ipns_tx"

definition enqueue_pin_jobs ::
  "'cid lib \<Rightarrow> 'cid pipeline_result \<Rightarrow> (bytes \<times> group_policy) list \<Rightarrow> (bytes \<times> bytes) list \<Rightarrow> (bytes \<times> bytes) list" where
  "enqueue_pin_jobs L result pin_service_filters jobs =
     fold (\<lambda>(svc_name, filter) jobs.
       if (case filter of None \<Rightarrow> True | Some f \<Rightarrow> list_ex (group_filter_accepts f) (pl_groups result))
       then insert_row (cid_to_string L (pl_cid result), svc_name) jobs else jobs) pin_service_filters jobs"

record ('b, 's, 'q) drain_state =
  dn_clock :: hlc_clock
  dn_state :: "('b, 's) pipeline_state"
  dn_monitor :: latency_monitor
  dn_ipns :: "'q option"
  dn_pin_jobs :: "(bytes \<times> bytes) list"

record 'sk pipeline_args =
  pa_signing_key :: 'sk
  pa_local_hostname :: bytes
  pa_group_filter :: group_policy
  pa_pin_service_filters :: "(bytes \<times> group_policy) list"

text \<open>The readings of the clock during one run, and how long the write to the block store took.\<close>

record run_times =
  rt_now_ms :: u64
  rt_store :: int
  rt_ingested_at_ms :: int
  rt_write_ms :: u64

definition run_pipeline_and_notify ::
  "'cid lib \<Rightarrow> 'sk ed25519 \<Rightarrow> (int \<Rightarrow> ('b, 'cid) ipfs_store) \<Rightarrow> ('s, 'cid) log_storage_ops \<Rightarrow> ('q \<Rightarrow> bytes \<times> 'cid \<Rightarrow> 'q)
    \<Rightarrow> 'sk pipeline_args \<Rightarrow> run_times \<Rightarrow> ('b, 's, 'q) drain_state \<Rightarrow> bytes \<Rightarrow> pipeline_outcome outcome \<times> ('b, 's, 'q) drain_state" where
  "run_pipeline_and_notify L E I S try_send args t d bs =
     (let (clock, timestamp) = hlc_send (dn_clock d) (rt_now_ms t);
          ctx = \<lparr>cx_timestamp = timestamp, cx_signing_key = pa_signing_key args, cx_local_hostname = pa_local_hostname args,
                 cx_group_filter = pa_group_filter args\<rparr>;
          (r, st) = run_pipeline L E I S ctx (rt_store t) (rt_ingested_at_ms t) (dn_state d) bs;
          d = d\<lparr>dn_clock := clock, dn_state := st\<rparr>
      in case r of
           Panic \<Rightarrow> (Panic, d)
         | Return (Inr result) \<Rightarrow>
             (Return Success, d\<lparr>dn_monitor := record_latency_ms (dn_monitor d) (f64 (of_nat (unat (rt_write_ms t)))),
                dn_ipns := publish_ipns_tip try_send result (dn_ipns d),
                dn_pin_jobs := enqueue_pin_jobs L result (pa_pin_service_filters args) (dn_pin_jobs d)\<rparr>)
         | Return (Inl (Permanent _)) \<Rightarrow> (Return PermanentFailure, d)
         | Return (Inl (Transient _)) \<Rightarrow> (Return TransientFailure, d))"

section \<open>Appending to the groups of an article\<close>

text \<open>What the Ed25519 crates document: a signature of the operator verifies under the operator's key.\<close>

definition signs :: "'cid lib \<Rightarrow> 'sk ed25519 \<Rightarrow> 'sk \<Rightarrow> bool" where
  "signs L E key \<longleftrightarrow> (\<forall>m. length (ed_sign E key m) = 64 \<and> ed25519_verify L (ed_public E key) m (ed_sign E key m))"

definition wanted :: "'sk pipeline_ctx \<Rightarrow> bytes \<Rightarrow> bool" where
  "wanted ctx g \<longleftrightarrow> is_valid_group_name g \<and> filter_accepts (cx_group_filter ctx) g"

lemma operator_entry_fields [simp]:
  "le_hlc_timestamp (operator_entry L E ctx cid tips) = cx_timestamp ctx"
  "article_cid (operator_entry L E ctx cid tips) = cid"
  "parent_cids (operator_entry L E ctx cid tips) = map (to_cid L) tips"
  by (simp_all add: operator_entry_def Let_def)

lemma self_check_passes:
  assumes "signs L E (cx_signing_key ctx)"
  shows "verify_signature L (operator_entry L E ctx cid tips) (ed_public E (cx_signing_key ctx)) = Inr (operator_entry L E ctx cid tips)"
proof -
  have "signed_by L (ed_public E (cx_signing_key ctx)) (operator_entry L E ctx cid tips)"
    using assms by (simp add: signed_by_def signs_def operator_entry_def Let_def)
  then have "check_signature L (operator_entry L E ctx cid tips) (ed_public E (cx_signing_key ctx)) = Inr ()"
    using check_signature_iff by blast
  then show ?thesis by (simp add: verify_signature_def and_then_simps)
qed

lemma tip_digest: "cid_wraps_digest L \<Longrightarrow> length t = 32 \<Longrightarrow> digest32 L (to_cid L t) = Some t"
  by (simp add: digest32_def to_cid_def cid_wraps_digest_def)

lemma operator_entry_parents:
  assumes "cid_wraps_digest L" "\<forall>t \<in> set tips. length t = 32"
  shows "parents_of L (operator_entry L E ctx cid tips) = set tips"
    "parents_stored L M (operator_entry L E ctx cid tips) \<longleftrightarrow> set tips \<subseteq> dom M"
  using assms by (auto simp: parents_of_def parents_stored_def tip_digest)

context log_storage
begin

text \<open>One group: the entry becomes its only tip, unless the same entry is already stored.\<close>

lemma append_operator_entry:
  assumes lib: "sha256_32 L" "cid_wraps_digest L" and s: "ok s" "log_ok L (ents s) (tipset s)"
    and T: "\<forall>t \<in> tipset s g. length t = 32" and tl: "list_tips S s g = Inr tips"
    and "storable (operator_entry L E ctx cid tips)"
    and run: "log_append L S s g (operator_entry L E ctx cid tips) = (r, s')"
  defines "i \<equiv> compute_entry_id L (operator_entry L E ctx cid tips)"
  shows "r = Inr i" "ok s'" "log_ok L (ents s') (tipset s')" "dom (ents s') = insert i (dom (ents s))"
    "\<And>h j. in_log L (ents s) (tipset s) h j \<Longrightarrow> in_log L (ents s') (tipset s') h j"
    "ents s i = None \<Longrightarrow> tipset s' = (tipset s)(g := {i})" "ents s i \<noteq> None \<Longrightarrow> s' = s"
proof -
  have set: "set tips = tipset s g" using tips [OF s(1), of g] tl by auto
  have 32: "\<forall>t \<in> set tips. length t = 32" using T set by simp
  have "tipset s g \<subseteq> dom (ents s)" using s(2) by (simp add: log_ok_def)
  then have st: "parents_stored L (ents s) (operator_entry L E ctx cid tips)"
    by (simp add: operator_entry_parents(2) [OF lib(2) 32] set)
  note keeps = append_keeps [OF lib(1) s(1) assms(7) s(2) run]
  show "r = Inr i" "ok s'" "log_ok L (ents s') (tipset s')" "ents s i \<noteq> None \<Longrightarrow> s' = s"
    "\<And>h j. in_log L (ents s) (tipset s) h j \<Longrightarrow> in_log L (ents s') (tipset s') h j"
    using keeps st unfolding i_def by (blast intro: domI)+
  show "ents s i = None \<Longrightarrow> tipset s' = (tipset s)(g := {i})"
    using keeps(6) st unfolding i_def by (auto simp: operator_entry_parents(1) [OF lib(2) 32] set)
  show "dom (ents s') = insert i (dom (ents s))"
    using keeps(6,7) st unfolding i_def by (cases "compute_entry_id L (operator_entry L E ctx cid tips) \<in> dom (ents s)") (auto simp: insert_absorb)
qed

lemma loop_skips: "\<not> wanted ctx g \<Longrightarrow> append_group_loop L E S ctx cid app s (g # strs) = append_group_loop L E S ctx cid app s strs"
  by (auto simp: wanted_def group_name_new_def)

lemma loop_appends:
  assumes "wanted ctx g" "ok s" "signs L E (cx_signing_key ctx)"
  obtains tips where "list_tips S s g = Inr tips" "set tips = tipset s g"
    "append_group_loop L E S ctx cid app s (g # strs) = (case log_append L S s g (operator_entry L E ctx cid tips) of
        (Inl _, s) \<Rightarrow> append_group_loop L E S ctx cid app s strs
      | (Inr entry_id, s) \<Rightarrow> append_group_loop L E S ctx cid (app @ [(g, entry_id)]) s strs)"
proof -
  obtain tips where t: "list_tips S s g = Inr tips" "set tips = tipset s g" using tips [OF assms(2), of g] by blast
  show thesis
    by (rule that [OF t]) (use assms(1) in \<open>simp add: wanted_def group_name_new_def t(1) self_check_passes [OF assms(3)]\<close>)
qed

lemma loop_keeps:
  assumes lib: "sha256_32 L" "cid_wraps_digest L" "signs L E (cx_signing_key ctx)"
    and T: "\<And>s g. ok s \<Longrightarrow> \<forall>t \<in> tipset s g. length t = 32"
    and st: "\<And>e. le_hlc_timestamp e = cx_timestamp ctx \<Longrightarrow> storable e"
    and "ok s" "log_ok L (ents s) (tipset s)" "append_group_loop L E S ctx cid app s strs = (r, s')"
  shows "\<exists>new. r = Inr (app @ new) \<and> map fst new = filter (wanted ctx) strs \<and> ok s' \<and> log_ok L (ents s') (tipset s')
    \<and> dom (ents s') = dom (ents s) \<union> snd ` set new
    \<and> (\<forall>h j. in_log L (ents s) (tipset s) h j \<longrightarrow> in_log L (ents s') (tipset s') h j)"
  using assms(6-8)
proof (induction strs arbitrary: app s)
  case (Cons g strs)
  show ?case
  proof (cases "wanted ctx g")
    case False
    then show ?thesis using Cons.IH [OF Cons.prems(1,2), of app] Cons.prems(3) by (simp only: loop_skips [OF False]) simp
  next
    case True
    obtain tips where tl: "list_tips S s g = Inr tips" and loop: "append_group_loop L E S ctx cid app s (g # strs) =
        (case log_append L S s g (operator_entry L E ctx cid tips) of
          (Inl _, s) \<Rightarrow> append_group_loop L E S ctx cid app s strs
        | (Inr entry_id, s) \<Rightarrow> append_group_loop L E S ctx cid (app @ [(g, entry_id)]) s strs)"
      by (rule loop_appends [OF True Cons.prems(1) lib(3), where cid = cid and app = app and strs = strs])
    obtain v s1 where v: "log_append L S s g (operator_entry L E ctx cid tips) = (v, s1)" by fastforce
    have "storable (operator_entry L E ctx cid tips)" by (rule st) simp
    note one = append_operator_entry [OF lib(1,2) Cons.prems(1,2) T [OF Cons.prems(1)] tl this v]
    let ?i = "compute_entry_id L (operator_entry L E ctx cid tips)"
    have "append_group_loop L E S ctx cid (app @ [(g, ?i)]) s1 strs = (r, s')"
      using Cons.prems(3) unfolding loop v one(1) by simp
    from Cons.IH [OF one(2,3) this] obtain new where new: "r = Inr (app @ [(g, ?i)] @ new)" "map fst new = filter (wanted ctx) strs"
      "ok s'" "log_ok L (ents s') (tipset s')" "dom (ents s') = dom (ents s1) \<union> snd ` set new"
      "\<forall>h j. in_log L (ents s1) (tipset s1) h j \<longrightarrow> in_log L (ents s') (tipset s') h j" by auto
    show ?thesis
      by (rule exI [of _ "(g, ?i) # new"]) (use new one(4,5) True in auto)
  qed
qed simp

text \<open>The first group gets the entry.\<close>

lemma loop_first:
  assumes lib: "sha256_32 L" "cid_wraps_digest L" "signs L E (cx_signing_key ctx)"
    and T: "\<And>s g. ok s \<Longrightarrow> \<forall>t \<in> tipset s g. length t = 32"
    and st: "\<And>e. le_hlc_timestamp e = cx_timestamp ctx \<Longrightarrow> storable e"
    and "ok s" "log_ok L (ents s) (tipset s)" "append_group_loop L E S ctx cid app s strs = (r, s')"
    and "filter (wanted ctx) strs = g # rest" "list_tips S s g = Inr tips"
    and "ents s (compute_entry_id L (operator_entry L E ctx cid tips)) = None"
  shows "in_log L (ents s') (tipset s') g (compute_entry_id L (operator_entry L E ctx cid tips))"
  using assms(8,9)
proof (induction strs)
  case (Cons h strs)
  show ?case
  proof (cases "wanted ctx h")
    case False
    then show ?thesis using Cons.IH Cons.prems by (simp only: loop_skips [OF False]) simp
  next
    case True
    then have h: "h = g" using Cons.prems(2) by simp
    obtain tl where tl: "list_tips S s g = Inr tl" and loop: "append_group_loop L E S ctx cid app s (g # strs) =
        (case log_append L S s g (operator_entry L E ctx cid tl) of
          (Inl _, s) \<Rightarrow> append_group_loop L E S ctx cid app s strs
        | (Inr entry_id, s) \<Rightarrow> append_group_loop L E S ctx cid (app @ [(g, entry_id)]) s strs)"
      by (rule loop_appends [OF True [unfolded h] assms(6) lib(3), where cid = cid and app = app and strs = strs])
    have tips: "tl = tips" using tl assms(10) by simp
    obtain v s1 where v: "log_append L S s g (operator_entry L E ctx cid tips) = (v, s1)" by fastforce
    have "storable (operator_entry L E ctx cid tips)" by (rule st) simp
    note one = append_operator_entry [OF lib(1,2) assms(6,7) T [OF assms(6)] assms(10) this v]
    let ?i = "compute_entry_id L (operator_entry L E ctx cid tips)"
    have "append_group_loop L E S ctx cid (app @ [(g, ?i)]) s1 strs = (r, s')"
      using Cons.prems(1) unfolding h loop tips v one(1) by simp
    from loop_keeps [OF lib T st one(2,3) this] have keep: "in_log L (ents s1) (tipset s1) g ?i \<Longrightarrow> in_log L (ents s') (tipset s') g ?i" by blast
    have "tipset s1 g = {} \<union> {?i}" using one(6) assms(11) by simp
    then show ?thesis by (intro keep in_log_new)
  qed
qed simp

text \<open>A second group without tips does not, when the first had none either.\<close>

lemma loop_second_lost:
  assumes lib: "sha256_32 L" "cid_wraps_digest L" "signs L E (cx_signing_key ctx)"
    and T: "\<And>s g. ok s \<Longrightarrow> \<forall>t \<in> tipset s g. length t = 32"
    and st: "\<And>e. le_hlc_timestamp e = cx_timestamp ctx \<Longrightarrow> storable e"
    and s: "ok s" "log_ok L (ents s) (tipset s)"
    and g: "wanted ctx g" "wanted ctx h" "g \<noteq> h" "tipset s g = {}" "tipset s h = {}"
    and run: "append_group_loop L E S ctx cid [] s [g, h] = (r, s')"
  shows "(\<exists>i. r = Inr [(g, i), (h, i)]) \<and> tipset s' h = {}"
proof -
  let ?e = "operator_entry L E ctx cid []" and ?i = "compute_entry_id L (operator_entry L E ctx cid [])"
  have sto: "storable ?e" by (rule st) simp
  obtain tl where tl: "list_tips S s g = Inr tl" "set tl = tipset s g" and loop: "append_group_loop L E S ctx cid [] s [g, h] =
      (case log_append L S s g (operator_entry L E ctx cid tl) of
        (Inl _, s) \<Rightarrow> append_group_loop L E S ctx cid [] s [h]
      | (Inr entry_id, s) \<Rightarrow> append_group_loop L E S ctx cid ([] @ [(g, entry_id)]) s [h])"
    by (rule loop_appends [OF g(1) s(1) lib(3), where cid = cid and app = "[]" and strs = "[h]"])
  obtain v s1 where v: "log_append L S s g ?e = (v, s1)" by fastforce
  have nil: "tl = []" using tl(2) g(4) by simp
  note one = append_operator_entry [OF lib(1,2) s T [OF s(1)] tl(1) [unfolded nil] sto v]
  have h1: "tipset s1 h = {}"
  proof (cases "ents s ?i")
    case None
    then show ?thesis using one(6) g(3,5) by simp
  next
    case (Some e)
    then show ?thesis using one(7) g(5) by simp
  qed
  obtain tl2 where tl2: "list_tips S s1 h = Inr tl2" "set tl2 = tipset s1 h" and loop2: "append_group_loop L E S ctx cid [(g, ?i)] s1 [h] =
      (case log_append L S s1 h (operator_entry L E ctx cid tl2) of
        (Inl _, s) \<Rightarrow> append_group_loop L E S ctx cid [(g, ?i)] s []
      | (Inr entry_id, s) \<Rightarrow> append_group_loop L E S ctx cid ([(g, ?i)] @ [(h, entry_id)]) s [])"
    by (rule loop_appends [OF g(2) one(2) lib(3), where cid = cid and app = "[(g, ?i)]" and strs = "[]"])
  obtain w s2 where w: "log_append L S s1 h ?e = (w, s2)" by fastforce
  have nil2: "tl2 = []" using tl2(2) h1 by simp
  note two = append_operator_entry [OF lib(1,2) one(2,3) T [OF one(2)] tl2(1) [unfolded nil2] sto w]
  have "ents s1 ?i \<noteq> None" using one(4) by auto
  then have "s2 = s1" by (rule two(7))
  moreover have "append_group_loop L E S ctx cid [(g, ?i)] s1 [h] = (Inr [(g, ?i), (h, ?i)], s2)"
    unfolding loop2 nil2 w two(1) by simp
  then have "(r, s') = (Inr [(g, ?i), (h, ?i)], s2)"
    using run unfolding loop nil v one(1) by (simp del: append_group_loop.simps(2))
  ultimately show ?thesis using h1 by auto
qed

end

section \<open>Over the persistent log\<close>

definition pipeline_ready :: "'cid lib \<Rightarrow> 'sk ed25519 \<Rightarrow> sqlx \<Rightarrow> 'sk pipeline_ctx \<Rightarrow> sqlite_db \<Rightarrow> bool" where
  "pipeline_ready L E q ctx db \<longleftrightarrow> cid_parses L \<and> scan_permutes q \<and> sha256_32 L \<and> cid_wraps_digest L
     \<and> signs L E (cx_signing_key ctx) \<and> uint (wall_ms (cx_timestamp ctx)) \<le> i64_max
     \<and> sqlite_ok L db \<and> log_ok L (sqlite_ents L q db) (sqlite_tipset db)"

lemma sqlite_tips_32: "sqlite_ok L db \<Longrightarrow> \<forall>t \<in> sqlite_tipset db g. length t = 32"
  by (auto simp: sqlite_ok_def sqlite_tipset_def)

lemma storable_at: "uint (wall_ms ts) \<le> i64_max \<Longrightarrow> le_hlc_timestamp e = ts \<Longrightarrow> sqlite_storable e"
  by (simp add: sqlite_storable_def)

lemma sqlite_loop_keeps:
  assumes "pipeline_ready L E q ctx db" "append_group_loop L E (sqlite_ops L q) ctx cid app db strs = (r, db')"
  shows "\<exists>new. r = Inr (app @ new) \<and> map fst new = filter (wanted ctx) strs \<and> sqlite_ok L db'
    \<and> log_ok L (sqlite_ents L q db') (sqlite_tipset db') \<and> dom (sqlite_ents L q db') = dom (sqlite_ents L q db) \<union> snd ` set new
    \<and> (\<forall>h j. in_log L (sqlite_ents L q db) (sqlite_tipset db) h j \<longrightarrow> in_log L (sqlite_ents L q db') (sqlite_tipset db') h j)"
  using assms(1) unfolding pipeline_ready_def
  by (elim conjE, intro log_storage.loop_keeps [OF sqlite_log_storage _ _ _ sqlite_tips_32 storable_at _ _ assms(2)])

lemma sqlite_loop_first:
  assumes "pipeline_ready L E q ctx db" "append_group_loop L E (sqlite_ops L q) ctx cid app db strs = (r, db')"
    "filter (wanted ctx) strs = g # rest" "list_tips (sqlite_ops L q) db g = Inr tips"
    "sqlite_ents L q db (compute_entry_id L (operator_entry L E ctx cid tips)) = None"
  shows "in_log L (sqlite_ents L q db') (sqlite_tipset db') g (compute_entry_id L (operator_entry L E ctx cid tips))"
  using assms(1) unfolding pipeline_ready_def
  by (elim conjE, intro log_storage.loop_first [OF sqlite_log_storage _ _ _ sqlite_tips_32 storable_at _ _ assms(2-5)])

lemma sqlite_loop_second_lost:
  assumes "pipeline_ready L E q ctx db" "wanted ctx g" "wanted ctx h" "g \<noteq> h" "sqlite_tipset db g = {}" "sqlite_tipset db h = {}"
    "append_group_loop L E (sqlite_ops L q) ctx cid [] db [g, h] = (r, db')"
  shows "(\<exists>i. r = Inr [(g, i), (h, i)]) \<and> sqlite_tipset db' h = {}"
  using assms(1) unfolding pipeline_ready_def
  by (elim conjE, intro log_storage.loop_second_lost [OF sqlite_log_storage _ _ _ sqlite_tips_32 storable_at _ _ assms(2-7)])

lemma record_article_row: "\<exists>r \<in> set (record_article rows row). ar_cid r = ar_cid row \<and> ar_group_name r = ar_group_name row"
proof (cases "\<exists>r \<in> set rows. ar_cid r = ar_cid row")
  case True
  then obtain r where "r \<in> set rows" "ar_cid r = ar_cid row" by blast
  then have "r\<lparr>ar_group_name := ar_group_name row\<rparr> \<in> set (record_article rows row)" by (force simp: record_article_def)
  then show ?thesis by (rule rev_bexI) (simp add: \<open>ar_cid r = ar_cid row\<close>)
qed (simp add: record_article_def)

lemma msgid_insert_ok:
  assumes "cid_parses L" "msgid_insert L rows m c = (Inr u, rows')"
  shows "lookup_by_msgid L rows' m = Inr (Some c)"
  using assms by (auto simp: msgid_insert_def lookup_by_msgid_def Let_def cid_parses_def map_add_def split: option.splits if_splits)


text \<open>
  C37. A cross-posted article is lost from all but one of its groups when they have the same tips. For
  two groups that are still empty, the run succeeds and reports both groups, but the entry of the second
  is the one already stored for the first: it never becomes a tip, and no entry at all is in the second
  group's log.
\<close>

theorem crosspost_lost:
  assumes "pipeline_ready L E q ctx (ps_log st)" "wanted ctx g" "wanted ctx h" "g \<noteq> h"
    "sqlite_tipset (ps_log st) g = {}" "sqlite_tipset (ps_log st) h = {}"
    "parse_message_id_and_newsgroups (prepend_path_header bs (cx_local_hostname ctx)) = Return (Some (m, [g, h]))"
    "run_pipeline L E I (sqlite_ops L q) ctx now ingested_at_ms st bs = (Return (Inr res), st')"
  shows "pl_groups res = [g, h] \<and> (\<forall>i. \<not> in_log L (sqlite_ents L q (ps_log st')) (sqlite_tipset (ps_log st')) h i)"
proof -
  obtain cid x where x: "append_group_loop L E (sqlite_ops L q) ctx cid [] (ps_log st) [g, h] = (Inr x, ps_log st')" "pl_groups res = map fst x"
    using assms(8) by (auto simp: run_pipeline_def Let_def assms(7) simp del: append_group_loop.simps split: prod.splits sum.splits)
  then show ?thesis using sqlite_loop_second_lost [OF assms(1-6) x(1)] by (auto simp: in_log_def)
qed

section \<open>Examples\<close>

definition demo_ctx :: "nat pipeline_ctx" where
  "demo_ctx = \<lparr>cx_timestamp = HlcTimestamp 1 0 [], cx_signing_key = 1, cx_local_hostname = ''h'', cx_group_filter = None\<rparr>"

definition demo_pipeline_state :: "(mem_blocks, sqlite_db) pipeline_state" where
  "demo_pipeline_state = \<lparr>ps_blocks = Map.empty, ps_msgids = [], ps_log = sqlite_empty, ps_articles = []\<rparr>"

definition demo_crosspost :: bytes where
  "demo_crosspost = ''Message-ID: <x@y>'' @ CRLF @ ''Newsgroups: a.b,a.c'' @ CRLF @ CRLF @ ''text'' @ CRLF"

lemma demo_crosspost_parsed:
  "parse_message_id_and_newsgroups (prepend_path_header demo_crosspost (cx_local_hostname demo_ctx)) = Return (Some (''<x@y>'', [''a.b'', ''a.c'']))"
  by code_simp

lemma demo_signs: "signs demo_lib demo_ed25519 k"
  by (auto simp: signs_def demo_lib_def demo_ed25519_def min_def)

lemma demo_pipeline_ready: "pipeline_ready demo_lib demo_ed25519 demo_sqlx demo_ctx (ps_log demo_pipeline_state)"
  by (simp add: pipeline_ready_def demo_cid_parses demo_scan demo_sha256_32 demo_wraps_digest demo_signs demo_ctx_def demo_pipeline_state_def
      i64_max_def sqlite_ok_empty sqlite_empty_ents sqlite_empty_tipset log_ok_empty)

lemma demo_wanted: "wanted demo_ctx ''a.b''" "wanted demo_ctx ''a.c''"
  by code_simp+

abbreviation demo_run :: "(pipeline_error + bytes pipeline_result) outcome \<times> (mem_blocks, sqlite_db) pipeline_state" where
  "demo_run \<equiv> run_pipeline demo_lib demo_ed25519 (\<lambda>_. mem_store demo_lib) (sqlite_ops demo_lib demo_sqlx) demo_ctx 0 0 demo_pipeline_state demo_crosspost"

lemma demo_run_binds: "ps_msgids (snd demo_run) \<noteq> []"
  by (simp add: run_pipeline_def Let_def mem_store_def mem_put_raw_def demo_crosspost_parsed msgid_insert_def demo_pipeline_state_def
      del: append_group_loop.simps split: prod.splits sum.splits)


theorem crosspost_lost_witness:
  "\<exists>res. fst demo_run = Return (Inr res) \<and> pl_groups res = [''a.b'', ''a.c'']
     \<and> (\<forall>i. \<not> in_log demo_lib (sqlite_ents demo_lib demo_sqlx (ps_log (snd demo_run))) (sqlite_tipset (ps_log (snd demo_run))) ''a.c'' i)"
proof -
  obtain r st' where run: "demo_run = (r, st')" by fastforce
  obtain x s where x: "append_group_loop demo_lib demo_ed25519 (sqlite_ops demo_lib demo_sqlx) demo_ctx
      (raw_cid demo_lib (prepend_path_header demo_crosspost (cx_local_hostname demo_ctx))) [] sqlite_empty [''a.b'', ''a.c''] = (Inr x, s)"
    using sqlite_loop_keeps [OF demo_pipeline_ready, of _ "[]"] by (metis demo_pipeline_state_def pipeline_state.select_convs(3) prod.collapse)
  then obtain res where r: "r = Return (Inr res)"
    using run by (auto simp: run_pipeline_def Let_def mem_store_def mem_put_raw_def demo_crosspost_parsed msgid_insert_def demo_pipeline_state_def
        simp del: append_group_loop.simps)
  have "sqlite_tipset (ps_log demo_pipeline_state) g = {}" for g by (simp add: demo_pipeline_state_def sqlite_empty_tipset)
  with crosspost_lost [OF demo_pipeline_ready demo_wanted _ _ _ demo_crosspost_parsed run [unfolded r]]
  show ?thesis by (simp add: run r)
qed

end
