(* ===== verification/Retention.thy ===== *)
theory Retention
  imports Pipeline PeerSession
begin

text \<open>
  What the transit daemon keeps (\<^verbatim>\<open>crates/transit/src/retention/\<close>): the pinning policy (\<^verbatim>\<open>policy.rs\<close>), the
  choice of candidates for collection (\<^verbatim>\<open>gc_candidates.rs\<close>), the executor with its audit log
  (\<^verbatim>\<open>gc_executor.rs\<close>, \<^verbatim>\<open>audit_log.rs\<close>), and the operator's commands on pins (\<^verbatim>\<open>crates/transit/src/cli/ops.rs\<close>). The
  pin service is a record of operations, the parser of CID strings a parameter. Log lines and failures
  of the database engine are left out.
\<close>

declare valid_utf8.simps(2) [simp del]

section \<open>The policy\<close>

record article_meta =
  am_group :: bytes
  am_size_bytes :: nat
  am_age_days :: nat

datatype pin_action = Pin | Skip

record pin_rule =
  ru_groups :: bytes
  ru_max_age_days :: "nat option"
  ru_max_article_bytes :: "nat option"
  ru_action :: pin_action

definition matches_group_glob :: "bytes \<Rightarrow> bytes \<Rightarrow> bool" where
  "matches_group_glob pattern grp =
     (if pattern = ''all'' then True
      else case strip_suffix ''.**'' pattern of
        Some pre \<Rightarrow> strip_prefix (pre @ ''.'') grp \<noteq> None
      | None \<Rightarrow>
          (case strip_suffix ''.*'' pattern of
             Some pre \<Rightarrow> strip_prefix (pre @ ''.'') grp \<noteq> None
           | None \<Rightarrow> pattern = grp))"

definition matches_rule :: "pin_rule \<Rightarrow> article_meta \<Rightarrow> bool" where
  "matches_rule rule meta =
     (if \<not> matches_group_glob (ru_groups rule) (am_group meta) then False
      else if (case ru_max_age_days rule of Some max_age \<Rightarrow> am_age_days meta > max_age | None \<Rightarrow> False) then False
      else if (case ru_max_article_bytes rule of Some max_bytes \<Rightarrow> am_size_bytes meta > max_bytes | None \<Rightarrow> False) then False
      else True)"

fun rules_pin :: "pin_rule list \<Rightarrow> article_meta \<Rightarrow> bool" where
  "rules_pin [] meta = False"
| "rules_pin (rule # rules) meta = (if matches_rule rule meta then ru_action rule = Pin else rules_pin rules meta)"

fun groups_pin :: "pin_rule list \<Rightarrow> article_meta \<Rightarrow> bytes list \<Rightarrow> bool" where
  "groups_pin rules meta [] = False"
| "groups_pin rules meta (grp # groups) =
     (if rules_pin rules (meta\<lparr>am_group := grp\<rparr>) then True else groups_pin rules meta groups)"

definition should_pin :: "pin_rule list \<Rightarrow> article_meta \<Rightarrow> bool" where
  "should_pin rules meta =
     groups_pin rules meta (filter (\<lambda>s. s \<noteq> []) (map str_trim (split_on (CHR '','') (am_group meta))))"

datatype policy_validation_error = EmptyPolicy | InvalidGroupPattern bytes | UselessRule nat

fun valid_component :: "bytes \<Rightarrow> bool" where
  "valid_component [] = False"
| "valid_component (c # cs) = (is_ascii_alphabetic c \<and> list_all is_ascii_alphanumeric cs)"

definition is_valid_dotted_name :: "bytes \<Rightarrow> bool" where
  "is_valid_dotted_name s = (s \<noteq> [] \<and> list_all valid_component (split_on (CHR ''.'') s))"

definition is_valid_group_pattern :: "bytes \<Rightarrow> bool" where
  "is_valid_group_pattern pattern =
     (if pattern = ''all'' then True
      else is_valid_dotted_name
        (case strip_suffix ''.**'' pattern of
           Some p \<Rightarrow> p
         | None \<Rightarrow> (case strip_suffix ''.*'' pattern of Some p \<Rightarrow> p | None \<Rightarrow> pattern)))"

fun validate_rules :: "nat \<Rightarrow> pin_rule list \<Rightarrow> policy_validation_error + unit" where
  "validate_rules i [] = Inr ()"
| "validate_rules i (rule # rules) =
     (if \<not> is_valid_group_pattern (ru_groups rule) then Inl (InvalidGroupPattern (ru_groups rule))
      else if ru_max_age_days rule = Some 0 \<and> ru_groups rule = ''all'' then Inl (UselessRule i)
      else validate_rules (Suc i) rules)"

definition policy_validate :: "pin_rule list \<Rightarrow> policy_validation_error + unit" where
  "policy_validate rules = (if rules = [] then Inl EmptyPolicy else validate_rules 0 rules)"

section \<open>Candidates\<close>

record 'cid gc_article_record =
  gr_cid :: 'cid
  gr_group :: bytes
  gr_ingested_at_ms :: u64
  gr_byte_count :: nat

definition saturating_sub :: "u64 \<Rightarrow> u64 \<Rightarrow> u64" where
  "saturating_sub a b = (if b \<le> a then a - b else 0)"

definition row_find :: "article_row list \<Rightarrow> bytes \<Rightarrow> article_row option" where
  "row_find rows cid_str = find (\<lambda>r. ar_cid r = cid_str) rows"

text \<open>The group and the metadata of a row.\<close>

definition row_group :: "article_row \<Rightarrow> bytes" where
  "row_group row = (if ar_group_name row = [] then ''unknown'' else ar_group_name row)"

definition row_meta :: "u64 \<Rightarrow> article_row \<Rightarrow> article_meta" where
  "row_meta now_ms row = \<lparr>am_group = row_group row, am_size_bytes = unat (word_of_int (ar_byte_count row) :: u64),
     am_age_days = unat (saturating_sub now_ms (word_of_int (ar_ingested_at_ms row)) div 86400000)\<rparr>"

fun judge_rows :: "(bytes \<Rightarrow> bytes + 'cid) \<Rightarrow> pin_rule list \<Rightarrow> u64 \<Rightarrow> article_row list \<Rightarrow> storage_error + 'cid gc_article_record list" where
  "judge_rows parse_cid rules now_ms [] = Inr []"
| "judge_rows parse_cid rules now_ms (row # rows) =
     (case parse_cid (ar_cid row) of
        Inl e \<Rightarrow> Inl (Database (''invalid CID in database: '' @ e))
      | Inr cid \<Rightarrow>
          (case judge_rows parse_cid rules now_ms rows of
             Inl e \<Rightarrow> Inl e
           | Inr candidates \<Rightarrow>
               Inr (if \<not> should_pin rules (row_meta now_ms row)
                 then \<lparr>gr_cid = cid, gr_group = row_group row, gr_ingested_at_ms = word_of_int (ar_ingested_at_ms row),
                       gr_byte_count = unat (word_of_int (ar_byte_count row) :: u64)\<rparr> # candidates
                 else candidates)))"

definition select_gc_candidates ::
  "(bytes \<Rightarrow> bytes + 'cid) \<Rightarrow> sqlx \<Rightarrow> article_row list \<Rightarrow> (bytes \<times> int) list \<Rightarrow> pin_rule list \<Rightarrow> u64 \<Rightarrow> u64
    \<Rightarrow> storage_error + 'cid gc_article_record list" where
  "select_gc_candidates parse_cid q articles pinned_cids rules now_ms grace_period_ms =
     (let cutoff_ms = sint (saturating_sub now_ms grace_period_ms);
          selected = filter (\<lambda>r. ar_ingested_at_ms r < cutoff_ms \<and> ar_cid r \<notin> set (map fst pinned_cids)) articles
      in judge_rows parse_cid rules now_ms (List.map_filter (row_find selected) (scan_rows q (map ar_cid selected))))"

section \<open>The executor\<close>

datatype pin_error = Unreachable bytes | PinFailed bytes

record ('p, 'cid) pin_client =
  pin :: "'p \<Rightarrow> 'cid \<Rightarrow> (pin_error + unit) \<times> 'p"
  unpin :: "'p \<Rightarrow> 'cid \<Rightarrow> (pin_error + unit) \<times> 'p"
  is_pinned :: "'p \<Rightarrow> 'cid \<Rightarrow> pin_error + bool"

record audit_record =
  au_cid :: bytes
  au_group_name :: bytes
  au_ingested_at_ms :: u64
  au_gc_at_ms :: u64
  au_reason :: bytes

record gc_db =
  gd_articles :: "article_row list"
  gd_pinned :: "(bytes \<times> int) list"
  gd_audit :: "audit_record list"
  gd_msgids :: msgid_rows

record gc_result =
  gx_unpinned :: nat
  gx_failed :: nat
  gx_bytes_reclaimed :: nat
  gx_errors :: "(bytes \<times> pin_error) list"

definition gc_result_default :: gc_result where
  "gc_result_default = \<lparr>gx_unpinned = 0, gx_failed = 0, gx_bytes_reclaimed = 0, gx_errors = []\<rparr>"

text \<open>\<^verbatim>\<open>tp\<close> and \<^verbatim>\<open>cp\<close>: whether there is a transit database and a core database.\<close>

fun gc_executor_loop ::
  "'cid lib \<Rightarrow> ('p, 'cid) pin_client \<Rightarrow> bool \<Rightarrow> bool \<Rightarrow> u64 \<Rightarrow> gc_result \<Rightarrow> 'p \<Rightarrow> gc_db \<Rightarrow> 'cid gc_article_record list \<Rightarrow> gc_result \<times> 'p \<times> gc_db" where
  "gc_executor_loop L P tp cp now_ms result p db [] = (result, p, db)"
| "gc_executor_loop L P tp cp now_ms result p db (candidate # candidates) =
     (case unpin P p (gr_cid candidate) of
        (Inr _, p) \<Rightarrow>
          let cid_str = cid_to_string L (gr_cid candidate);
              db = (if \<not> tp then db
                    else let db = db\<lparr>gd_articles := filter (\<lambda>r. ar_cid r \<noteq> cid_str) (gd_articles db)\<rparr>;
                             db = (if cp then db\<lparr>gd_msgids := snd (delete_by_cid L (gd_msgids db) (gr_cid candidate))\<rparr> else db)
                         in db\<lparr>gd_audit := gd_audit db @ [\<lparr>au_cid = cid_str, au_group_name = gr_group candidate,
                              au_ingested_at_ms = gr_ingested_at_ms candidate, au_gc_at_ms = now_ms, au_reason = ''no_matching_rule''\<rparr>]\<rparr>)
          in gc_executor_loop L P tp cp now_ms (result\<lparr>gx_unpinned := gx_unpinned result + 1,
               gx_bytes_reclaimed := gx_bytes_reclaimed result + gr_byte_count candidate\<rparr>) p db candidates
      | (Inl e, p) \<Rightarrow>
          gc_executor_loop L P tp cp now_ms (result\<lparr>gx_failed := gx_failed result + 1,
            gx_errors := gx_errors result @ [(cid_to_string L (gr_cid candidate), e)]\<rparr>) p db candidates)"

definition run_gc_executor ::
  "'cid lib \<Rightarrow> ('p, 'cid) pin_client \<Rightarrow> bool \<Rightarrow> bool \<Rightarrow> u64 \<Rightarrow> 'p \<Rightarrow> gc_db \<Rightarrow> 'cid gc_article_record list \<Rightarrow> gc_result \<times> 'p \<times> gc_db" where
  "run_gc_executor L P tp cp now_ms p db candidates = gc_executor_loop L P tp cp now_ms gc_result_default p db candidates"

text \<open>One round of the scheduler: no candidates when their selection fails.\<close>

definition gc_round ::
  "'cid lib \<Rightarrow> (bytes \<Rightarrow> bytes + 'cid) \<Rightarrow> sqlx \<Rightarrow> ('p, 'cid) pin_client \<Rightarrow> pin_rule list \<Rightarrow> u64 \<Rightarrow> u64 \<Rightarrow> u64 \<Rightarrow> 'p \<Rightarrow> gc_db \<Rightarrow> gc_result \<times> 'p \<times> gc_db" where
  "gc_round L parse_cid q P rules select_ms grace_ms now_ms p db =
     run_gc_executor L P True True now_ms p db
       (case select_gc_candidates parse_cid q (gd_articles db) (gd_pinned db) rules select_ms grace_ms of Inl _ \<Rightarrow> [] | Inr cs \<Rightarrow> cs)"

section \<open>Pins in memory\<close>

record mem_pins =
  mp_pinned :: "bytes set"
  mp_force_error :: "bytes option"
  mp_pin_call_count :: nat

definition mem_pin :: "'cid lib \<Rightarrow> mem_pins \<Rightarrow> 'cid \<Rightarrow> (pin_error + unit) \<times> mem_pins" where
  "mem_pin L p cid =
     (let p = p\<lparr>mp_pin_call_count := mp_pin_call_count p + 1\<rparr>
      in case mp_force_error p of
           Some e \<Rightarrow> (Inl (Unreachable e), p)
         | None \<Rightarrow> (Inr (), p\<lparr>mp_pinned := insert (cid_to_string L cid) (mp_pinned p)\<rparr>))"

definition mem_unpin :: "'cid lib \<Rightarrow> mem_pins \<Rightarrow> 'cid \<Rightarrow> (pin_error + unit) \<times> mem_pins" where
  "mem_unpin L p cid =
     (case mp_force_error p of
        Some e \<Rightarrow> (Inl (Unreachable e), p)
      | None \<Rightarrow> (Inr (), p\<lparr>mp_pinned := mp_pinned p - {cid_to_string L cid}\<rparr>))"

definition mem_is_pinned :: "'cid lib \<Rightarrow> mem_pins \<Rightarrow> 'cid \<Rightarrow> pin_error + bool" where
  "mem_is_pinned L p cid =
     (case mp_force_error p of
        Some e \<Rightarrow> Inl (Unreachable e)
      | None \<Rightarrow> Inr (cid_to_string L cid \<in> mp_pinned p))"

definition mem_pin_client :: "'cid lib \<Rightarrow> (mem_pins, 'cid) pin_client" where
  "mem_pin_client L = \<lparr>pin = mem_pin L, unpin = mem_unpin L, is_pinned = mem_is_pinned L\<rparr>"

section \<open>The operator's commands\<close>

definition cmd_pin :: "(bytes \<Rightarrow> bytes + 'cid) \<Rightarrow> int \<Rightarrow> (bytes \<times> int) list \<Rightarrow> bytes \<Rightarrow> (storage_error + bytes) \<times> (bytes \<times> int) list" where
  "cmd_pin parse_cid now_ms pinned cid_str =
     (case parse_cid cid_str of
        Inl e \<Rightarrow> (Inl (Database (''invalid CID '' @ [CHR 0x27] @ cid_str @ [CHR 0x27] @ '': '' @ e)), pinned)
      | Inr _ \<Rightarrow> (Inr (''pinned: '' @ cid_str @ [LF]),
          if map_of pinned cid_str = None then pinned @ [(cid_str, now_ms)] else pinned))"

definition cmd_unpin :: "(bytes \<times> int) list \<Rightarrow> bytes \<Rightarrow> bytes \<times> (bytes \<times> int) list" where
  "cmd_unpin pinned cid_str =
     (if map_of pinned cid_str = None then (''not pinned: '' @ cid_str @ [LF], pinned)
      else (''unpinned: '' @ cid_str @ [LF], filter (\<lambda>r. fst r \<noteq> cid_str) pinned))"

text \<open>Signed 64-bit subtraction that saturates, and division towards zero.\<close>

definition sat_sub_i64 :: "int \<Rightarrow> int \<Rightarrow> int" where
  "sat_sub_i64 a b = max (- (2 ^ 63)) (min (2 ^ 63 - 1) (a - b))"

definition trunc_div :: "int \<Rightarrow> int \<Rightarrow> int" where
  "trunc_div a b = (if 0 \<le> a then a div b else - ((- a) div b))"

definition pinned_meta :: "int \<Rightarrow> article_row option \<Rightarrow> article_meta" where
  "pinned_meta now_ms joined =
     (case joined of
        Some row \<Rightarrow> \<lparr>am_group = ar_group_name row, am_size_bytes = unat (word_of_int (ar_byte_count row) :: u64),
          am_age_days = unat (word_of_int (trunc_div (sat_sub_i64 now_ms (ar_ingested_at_ms row)) 86400000) :: u64)\<rparr>
      | None \<Rightarrow> \<lparr>am_group = ''unknown'', am_size_bytes = 0, am_age_days = 0\<rparr>)"

fun gc_run_loop ::
  "(bytes \<Rightarrow> bytes + 'cid) \<Rightarrow> ('p, 'cid) pin_client \<Rightarrow> pin_rule list \<Rightarrow> int \<Rightarrow> nat \<Rightarrow> 'p \<Rightarrow> gc_db \<Rightarrow> (bytes \<times> article_row option) list \<Rightarrow> nat \<times> 'p \<times> gc_db" where
  "gc_run_loop parse_cid P rules now_ms unpinned p db [] = (unpinned, p, db)"
| "gc_run_loop parse_cid P rules now_ms unpinned p db ((cid_str, joined) # rows) =
     (if should_pin rules (pinned_meta now_ms joined) then gc_run_loop parse_cid P rules now_ms unpinned p db rows
      else case parse_cid cid_str of
        Inl _ \<Rightarrow> gc_run_loop parse_cid P rules now_ms unpinned p db rows
      | Inr cid \<Rightarrow>
          (case unpin P p cid of
             (Inl _, p) \<Rightarrow> gc_run_loop parse_cid P rules now_ms unpinned p db rows
           | (Inr _, p) \<Rightarrow>
               gc_run_loop parse_cid P rules now_ms (unpinned + 1) p
                 (db\<lparr>gd_articles := filter (\<lambda>r. ar_cid r \<noteq> cid_str) (gd_articles db),
                     gd_pinned := filter (\<lambda>r. fst r \<noteq> cid_str) (gd_pinned db)\<rparr>) rows))"

definition cmd_gc_run ::
  "(bytes \<Rightarrow> bytes + 'cid) \<Rightarrow> sqlx \<Rightarrow> ('p, 'cid) pin_client \<Rightarrow> pin_rule list \<Rightarrow> int \<Rightarrow> 'p \<Rightarrow> gc_db \<Rightarrow> bytes \<times> 'p \<times> gc_db" where
  "cmd_gc_run parse_cid q P rules now_ms p db =
     (let rows = map (\<lambda>cid_str. (cid_str, row_find (gd_articles db) cid_str)) (scan_rows q (map fst (gd_pinned db)));
          (unpinned, p, db) = gc_run_loop parse_cid P rules now_ms 0 p db rows
      in (''gc-run: '' @ show_nat (length rows) @ '' scanned, '' @ show_nat unpinned @ '' unpinned'' @ [LF], p, db))"

section \<open>What is collected\<close>

definition cid_reads :: "'cid lib \<Rightarrow> (bytes \<Rightarrow> bytes + 'cid) \<Rightarrow> bool" where
  "cid_reads L parse_cid \<longleftrightarrow> (\<forall>c. parse_cid (cid_to_string L c) = Inr c)"

definition articles_ok :: "'cid lib \<Rightarrow> article_row list \<Rightarrow> bool" where
  "articles_ok L rows \<longleftrightarrow> distinct (map ar_cid rows) \<and> (\<forall>r \<in> set rows. \<exists>c. ar_cid r = cid_to_string L c)"

text \<open>An article is spared while it is young, while the operator pins it, and while a rule pins it.\<close>

definition spared :: "pin_rule list \<Rightarrow> u64 \<Rightarrow> u64 \<Rightarrow> (bytes \<times> int) list \<Rightarrow> article_row \<Rightarrow> bool" where
  "spared rules now_ms grace_ms pinned row \<longleftrightarrow> sint (saturating_sub now_ms grace_ms) \<le> ar_ingested_at_ms row
     \<or> ar_cid row \<in> fst ` set pinned \<or> should_pin rules (row_meta now_ms row)"

lemma map_filter_perm: "mset xs = mset ys \<Longrightarrow> mset (List.map_filter f xs) = mset (List.map_filter f ys)"
  by (simp add: List.map_filter_def mset_filter)

lemma mset_map_filter: "mset xs = mset ys \<Longrightarrow> mset (map f (filter P xs)) = mset (map f (filter P ys))"
  by (simp add: mset_filter)

lemma row_find_self: "distinct (map ar_cid rows) \<Longrightarrow> List.map_filter (row_find rows) (map ar_cid rows) = rows"
proof -
  assume d: "distinct (map ar_cid rows)"
  have "row_find rows (ar_cid r) = Some r" if "r \<in> set rows" for r
    using d that by (induction rows) (auto simp: row_find_def)
  then show ?thesis by (auto simp: List.map_filter_def intro!: map_idI)
qed

lemma judge_rows_eq:
  assumes "cid_reads L parse_cid" "\<forall>r \<in> set rows. \<exists>c. ar_cid r = cid_to_string L c"
  shows "\<exists>cs. judge_rows parse_cid rules now_ms rows = Inr cs
    \<and> map (cid_to_string L \<circ> gr_cid) cs = map ar_cid (filter (\<lambda>r. \<not> should_pin rules (row_meta now_ms r)) rows)"
  using assms(2)
proof (induction rows)
  case (Cons r rows)
  obtain c where "ar_cid r = cid_to_string L c" using Cons.prems by auto
  moreover obtain cs where "judge_rows parse_cid rules now_ms rows = Inr cs"
    "map (cid_to_string L \<circ> gr_cid) cs = map ar_cid (filter (\<lambda>r. \<not> should_pin rules (row_meta now_ms r)) rows)"
    using Cons.IH Cons.prems by (metis list.set_intros(2))
  ultimately show ?case using assms(1) by (auto simp: cid_reads_def comp_def)
qed simp

lemma candidates_eq:
  assumes "cid_reads L parse_cid" "scan_permutes q" "articles_ok L articles"
  shows "\<exists>cs. select_gc_candidates parse_cid q articles pinned rules now_ms grace_ms = Inr cs
    \<and> mset (map (cid_to_string L \<circ> gr_cid) cs) = mset (map ar_cid (filter (\<lambda>r. \<not> spared rules now_ms grace_ms pinned r) articles))"
proof -
  let ?sel = "filter (\<lambda>r. ar_ingested_at_ms r < sint (saturating_sub now_ms grace_ms) \<and> ar_cid r \<notin> set (map fst pinned)) articles"
  let ?rows = "List.map_filter (row_find ?sel) (scan_rows q (map ar_cid ?sel))"
  have d: "distinct (map ar_cid ?sel)" using assms(3) by (auto simp: articles_ok_def distinct_map inj_on_def)
  have "mset ?rows = mset (List.map_filter (row_find ?sel) (map ar_cid ?sel))"
    using assms(2) by (intro map_filter_perm) (simp add: scan_permutes_def)
  then have rows: "mset ?rows = mset ?sel" unfolding row_find_self [OF d] .
  then have "\<forall>r \<in> set ?rows. \<exists>c. ar_cid r = cid_to_string L c"
    using assms(3) mset_eq_setD [OF rows] by (simp add: articles_ok_def)
  from judge_rows_eq [OF assms(1) this, of rules now_ms] obtain cs where cs: "judge_rows parse_cid rules now_ms ?rows = Inr cs"
    "map (cid_to_string L \<circ> gr_cid) cs = map ar_cid (filter (\<lambda>r. \<not> should_pin rules (row_meta now_ms r)) ?rows)" by blast
  have "mset (map ar_cid (filter (\<lambda>r. \<not> should_pin rules (row_meta now_ms r)) ?rows))
      = mset (map ar_cid (filter (\<lambda>r. \<not> should_pin rules (row_meta now_ms r)) ?sel))"
    by (rule mset_map_filter [OF rows])
  also have "filter (\<lambda>r. \<not> should_pin rules (row_meta now_ms r)) ?sel = filter (\<lambda>r. \<not> spared rules now_ms grace_ms pinned r) articles"
    by (simp add: spared_def not_le conj_ac)
  finally have "mset (map (cid_to_string L \<circ> gr_cid) cs) = mset (map ar_cid (filter (\<lambda>r. \<not> spared rules now_ms grace_ms pinned r) articles))"
    unfolding cs(2) .
  moreover have "select_gc_candidates parse_cid q articles pinned rules now_ms grace_ms = Inr cs"
    unfolding select_gc_candidates_def Let_def by (rule cs(1))
  ultimately show ?thesis by blast
qed

definition collected :: "'cid lib \<Rightarrow> gc_db \<Rightarrow> 'cid list \<Rightarrow> gc_db \<Rightarrow> bool" where
  "collected L db gone db' \<longleftrightarrow> gd_articles db' = filter (\<lambda>r. ar_cid r \<notin> cid_to_string L ` set gone) (gd_articles db)
     \<and> gd_pinned db' = gd_pinned db
     \<and> map au_cid (gd_audit db') = map au_cid (gd_audit db) @ map (cid_to_string L) gone
     \<and> msgid_abs L (gd_msgids db') = (\<lambda>m. case msgid_abs L (gd_msgids db) m of None \<Rightarrow> None | Some c \<Rightarrow> if c \<in> set gone then None else Some c)"

lemma executor_collects:
  assumes "cid_parses L" "msgid_valid L (gd_msgids db)" "gc_executor_loop L P True True now_ms res p db cs = (res', p', db')"
  shows "\<exists>gone. collected L db gone db' \<and> set gone \<subseteq> gr_cid ` set cs \<and> (distinct (map gr_cid cs) \<longrightarrow> distinct gone)
    \<and> gx_unpinned res' = gx_unpinned res + length gone \<and> gx_unpinned res' + gx_failed res' = gx_unpinned res + gx_failed res + length cs"
  using assms(2,3)
proof (induction cs arbitrary: res p db)
  case Nil
  then show ?case by (intro exI [of _ "[]"]) (auto simp: collected_def fun_eq_iff split: option.splits)
next
  case (Cons c cs)
  obtain r p1 where r: "unpin P p (gr_cid c) = (r, p1)" by fastforce
  show ?case
  proof (cases r)
    case (Inl e)
    then obtain gone where gone: "collected L db gone db'" "set gone \<subseteq> gr_cid ` set cs" "distinct (map gr_cid cs) \<longrightarrow> distinct gone"
      "gx_unpinned res' = gx_unpinned res + length gone" "gx_unpinned res' + gx_failed res' = gx_unpinned res + (gx_failed res + 1) + length cs"
      using Cons.IH [OF Cons.prems(1), of "res\<lparr>gx_failed := gx_failed res + 1, gx_errors := gx_errors res @ [(cid_to_string L (gr_cid c), e)]\<rparr>" p1]
        Cons.prems(2) r by auto
    then show ?thesis by (intro exI [of _ gone]) auto
  next
    case (Inr u)
    define db1 where "db1 = db\<lparr>gd_articles := filter (\<lambda>r. ar_cid r \<noteq> cid_to_string L (gr_cid c)) (gd_articles db),
      gd_msgids := snd (delete_by_cid L (gd_msgids db) (gr_cid c)), gd_audit := gd_audit db @ [\<lparr>au_cid = cid_to_string L (gr_cid c),
        au_group_name = gr_group c, au_ingested_at_ms = gr_ingested_at_ms c, au_gc_at_ms = now_ms, au_reason = ''no_matching_rule''\<rparr>]\<rparr>"
    have v: "msgid_valid L (gd_msgids db1)" using delete_by_cid_valid [OF Cons.prems(1)] by (simp add: db1_def)
    obtain gone where gone: "collected L db1 gone db'" "set gone \<subseteq> gr_cid ` set cs" "distinct (map gr_cid cs) \<longrightarrow> distinct gone"
      "gx_unpinned res' = gx_unpinned res + 1 + length gone" "gx_unpinned res' + gx_failed res' = gx_unpinned res + 1 + gx_failed res + length cs"
      using Cons.IH [OF v, of "res\<lparr>gx_unpinned := gx_unpinned res + 1, gx_bytes_reclaimed := gx_bytes_reclaimed res + gr_byte_count c\<rparr>" p1]
        Cons.prems(2) r Inr by (auto simp: db1_def Let_def)
    have "msgid_abs L (gd_msgids db1) = (\<lambda>m. if msgid_abs L (gd_msgids db) m = Some (gr_cid c) then None else msgid_abs L (gd_msgids db) m)"
      using delete_by_cid_abs [OF assms(1) Cons.prems(1)] by (simp add: db1_def spec_msgid_op_def)
    then have "collected L db (gr_cid c # gone) db'"
      using gone(1) by (auto simp: collected_def db1_def fun_eq_iff split: option.splits intro!: filter_cong)
    then show ?thesis using gone(2-5) by (intro exI [of _ "gr_cid c # gone"]) auto
  qed
qed


definition demo_rules :: "pin_rule list" where
  "demo_rules = [\<lparr>ru_groups = ''comp.*'', ru_max_age_days = None, ru_max_article_bytes = None, ru_action = Pin\<rparr>]"

definition demo_gc_db :: gc_db where
  "demo_gc_db = \<lparr>gd_articles = [\<lparr>ar_cid = ''a'', ar_group_name = ''alt.x,misc.y'', ar_ingested_at_ms = 1, ar_byte_count = 10\<rparr>,
       \<lparr>ar_cid = ''b'', ar_group_name = ''alt.x, comp.z'', ar_ingested_at_ms = 1, ar_byte_count = 10\<rparr>,
       \<lparr>ar_cid = ''c'', ar_group_name = ''alt.x'', ar_ingested_at_ms = 1, ar_byte_count = 10\<rparr>],
     gd_pinned = [(''c'', 5)], gd_audit = [], gd_msgids = [(''<x@y>'', cid_to_bytes demo_lib ''c'')]\<rparr>"

abbreviation demo_pins :: mem_pins where
  "demo_pins \<equiv> \<lparr>mp_pinned = {}, mp_force_error = None, mp_pin_call_count = 0\<rparr>"

lemma demo_gc_ok: "cid_reads demo_lib Inr" "articles_ok demo_lib (gd_articles demo_gc_db)" "msgid_valid demo_lib (gd_msgids demo_gc_db)"
proof -
  show "cid_reads demo_lib Inr" "articles_ok demo_lib (gd_articles demo_gc_db)"
    by (simp_all add: cid_reads_def articles_ok_def demo_gc_db_def demo_lib_def)
  show "msgid_valid demo_lib (gd_msgids demo_gc_db)" by (auto simp: msgid_valid_def msgid_wf_def demo_gc_db_def)
qed

lemmas trim_eval = str_trim_ascii VT_def byte_eval trim_ascii_def trim_ascii_start_def trim_ascii_end_def is_ascii_def is_ascii_whitespace_def

lemma demo_groups:
  "filter (\<lambda>s. s \<noteq> []) (map str_trim (split_on (CHR '','') ''alt.x,misc.y'')) = [''alt.x'', ''misc.y'']"
  "filter (\<lambda>s. s \<noteq> []) (map str_trim (split_on (CHR '','') ''alt.x, comp.z'')) = [''alt.x'', ''comp.z'']"
  "filter (\<lambda>s. s \<noteq> []) (map str_trim (split_on (CHR '','') ''alt.x'')) = [''alt.x'']"
  by (simp_all add: trim_eval)

lemma demo_rules_pin:
  "\<not> rules_pin demo_rules \<lparr>am_group = ''alt.x'', am_size_bytes = n, am_age_days = d\<rparr>"
  "\<not> rules_pin demo_rules \<lparr>am_group = ''misc.y'', am_size_bytes = n, am_age_days = d\<rparr>"
  "rules_pin demo_rules \<lparr>am_group = ''comp.z'', am_size_bytes = n, am_age_days = d\<rparr>"
  by code_simp+

lemma demo_policy:
  "\<not> should_pin demo_rules \<lparr>am_group = ''alt.x,misc.y'', am_size_bytes = n, am_age_days = d\<rparr>"
  "should_pin demo_rules \<lparr>am_group = ''alt.x, comp.z'', am_size_bytes = n, am_age_days = d\<rparr>"
  "\<not> should_pin demo_rules \<lparr>am_group = ''alt.x'', am_size_bytes = n, am_age_days = d\<rparr>"
  by (simp_all only: should_pin_def article_meta.select_convs demo_groups groups_pin.simps article_meta.update_convs demo_rules_pin if_False if_True simp_thms)


section \<open>The operator's collection\<close>

lemma gc_run_loop_shrinks:
  assumes "gc_run_loop parse_cid P rules now_ms n p db rows = (n', p', db')"
  shows "set (gd_pinned db') \<subseteq> set (gd_pinned db) \<and> set (gd_articles db') \<subseteq> set (gd_articles db)
    \<and> gd_msgids db' = gd_msgids db \<and> gd_audit db' = gd_audit db"
  using assms
proof (induction rows arbitrary: n p db)
  case (Cons r rows)
  obtain cid_str joined where r: "r = (cid_str, joined)" by fastforce
  show ?case using Cons.prems
    by (auto simp: r dest!: Cons.IH split: if_splits sum.splits prod.splits)
qed simp

lemma gc_run_loop_drops:
  assumes "\<forall>p c. \<exists>p'. unpin P p c = (Inr (), p')" "parse_cid k = Inr c" "\<not> should_pin rules (pinned_meta now_ms joined)"
    and "(k, joined) \<in> set rows" "gc_run_loop parse_cid P rules now_ms n p db rows = (n', p', db')"
  shows "k \<notin> fst ` set (gd_pinned db') \<and> k \<notin> ar_cid ` set (gd_articles db')"
  using assms(4,5)
proof (induction rows arbitrary: n p db)
  case (Cons r rows)
  show ?case
  proof (cases "(k, joined) \<in> set rows")
    case True
    obtain k' j' where r: "r = (k', j')" by fastforce
    have "\<exists>n p db. gc_run_loop parse_cid P rules now_ms n p db rows = (n', p', db')"
      using Cons.prems(2) by (auto simp: r split: if_splits sum.splits prod.splits)
    then show ?thesis using Cons.IH [OF True] by blast
  next
    case False
    then have r: "r = (k, joined)" using Cons.prems(1) by auto
    obtain p1 where p1: "unpin P p c = (Inr (), p1)" using assms(1) by blast
    have "gc_run_loop parse_cid P rules now_ms (n + 1) p1 (db\<lparr>gd_articles := filter (\<lambda>r. ar_cid r \<noteq> k) (gd_articles db),
        gd_pinned := filter (\<lambda>r. fst r \<noteq> k) (gd_pinned db)\<rparr>) rows = (n', p', db')"
      using Cons.prems(2) assms(2,3) by (simp add: r p1)
    from gc_run_loop_shrinks [OF this] show ?thesis by auto
  qed
qed simp

text \<open>
  C40. The operator's \<^verbatim>\<open>gc-run\<close> looks at nothing but the operator's own pins and undoes them. An article that
  was pinned by hand, and that the collector therefore spares, loses its pin and its row when no rule
  pins it, however young it is and without an audit record. Its Message-ID stays bound to the removed
  block, so that a peer that offers the article again is told it is a duplicate.
\<close>

theorem gc_run_drops_operator_pins:
  assumes "scan_permutes q" "cid_reads L parse_cid" "\<forall>p c. \<exists>p'. unpin P p c = (Inr (), p')"
    "k = cid_to_string L c" "k \<in> fst ` set (gd_pinned db)" "\<not> should_pin rules (pinned_meta now_ms (row_find (gd_articles db) k))"
    "lookup_by_msgid L (gd_msgids db) m = Inr (Some c)" "validate_message_id m = Inr ()"
    "cmd_gc_run parse_cid q P rules now_ms p db = (text, p', db')"
  shows "k \<notin> fst ` set (gd_pinned db') \<and> k \<notin> ar_cid ` set (gd_articles db') \<and> gd_audit db' = gd_audit db
    \<and> check_msgid_only L m (gd_msgids db') = Duplicate"
proof -
  let ?rows = "map (\<lambda>cid_str. (cid_str, row_find (gd_articles db) cid_str)) (scan_rows q (map fst (gd_pinned db)))"
  obtain n where run: "gc_run_loop parse_cid P rules now_ms 0 p db ?rows = (n, p', db')"
    using assms(9) by (auto simp: cmd_gc_run_def Let_def split: prod.splits)
  have "k \<in> set (scan_rows q (map fst (gd_pinned db)))" using assms(5) by (simp add: scan_set [OF assms(1)])
  then have "(k, row_find (gd_articles db) k) \<in> set ?rows" by simp
  moreover have "parse_cid k = Inr c" using assms(2,4) by (simp add: cid_reads_def)
  ultimately show ?thesis
    using gc_run_loop_drops [OF assms(3) _ assms(6) _ run] gc_run_loop_shrinks [OF run] assms(7,8) by (simp add: check_msgid_only_def)
qed

definition demo_pin_service :: "(unit, bytes) pin_client" where
  "demo_pin_service = \<lparr>pin = (\<lambda>p c. (Inr (), p)), unpin = (\<lambda>p c. (Inr (), p)), is_pinned = (\<lambda>p c. Inr False)\<rparr>"

theorem gc_run_drops_operator_pins_witness:
  "case cmd_gc_run Inr demo_sqlx demo_pin_service demo_rules 100 () demo_gc_db of (text, p', db') \<Rightarrow>
     ''c'' \<notin> fst ` set (gd_pinned db') \<and> check_msgid_only demo_lib ''<x@y>'' (gd_msgids db') = Duplicate"
proof -
  obtain t p' db' where run: "cmd_gc_run Inr demo_sqlx demo_pin_service demo_rules 100 () demo_gc_db = (t, p', db')" by (rule prod_cases3)
  have "\<forall>p c. \<exists>p'. unpin demo_pin_service p c = (Inr (), p')" by (simp add: demo_pin_service_def)
  moreover have "''c'' = cid_to_string demo_lib ''c''" by (simp add: demo_lib_def)
  moreover have "''c'' \<in> fst ` set (gd_pinned demo_gc_db)" by (simp add: demo_gc_db_def)
  moreover have "\<not> should_pin demo_rules (pinned_meta 100 (row_find (gd_articles demo_gc_db) ''c''))"
    by (simp add: pinned_meta_def row_find_def demo_gc_db_def demo_policy)
  moreover have "lookup_by_msgid demo_lib (gd_msgids demo_gc_db) ''<x@y>'' = Inr (Some ''c'')"
    using demo_cid_parses by (simp add: lookup_by_msgid_def demo_gc_db_def cid_parses_def)
  moreover have "validate_message_id ''<x@y>'' = Inr ()" by code_simp
  ultimately have "''c'' \<notin> fst ` set (gd_pinned db') \<and> ''c'' \<notin> ar_cid ` set (gd_articles db') \<and> gd_audit db' = gd_audit demo_gc_db
      \<and> check_msgid_only demo_lib ''<x@y>'' (gd_msgids db') = Duplicate"
    by (rule gc_run_drops_operator_pins [OF demo_scan demo_gc_ok(1) _ _ _ _ _ _ run])
  then show ?thesis by (simp add: run)
qed

end
