(* ===== verification/Spec2Isabelle.thy ===== *)
theory Spec2Isabelle
  imports Hlc Wildmat Article Canonical GroupLogProps Reconcile Backfill CircuitBreaker Wire Sieve MsgIdMap PeerSession Retention
begin

text \<open>
  Stoa is a Usenet system over content-addressed storage. A transit daemon takes articles from
  peers, stores them as blocks and appends them to a signed, hash-linked log per newsgroup; a reader
  daemon serves the groups over NNTP and accepts posts; a mail daemon filters incoming mail with
  Sieve scripts. This library models the parts of these programs that decide what is stored, what is
  answered and what is rejected, as HOL functions translated from the Rust sources, and proves what
  makes them correct. It also proves where they do something other than what their comments say.

  \<^bold>\<open>Conventions.\<close> Byte strings, \<^verbatim>\<open>str\<close> and \<^verbatim>\<open>String\<close> are HOL strings whose characters are bytes;
  integers are words where their width matters, otherwise natural numbers or integers. A \<^verbatim>\<open>Result\<close> is
  a sum with the error on the left, a call that may panic returns an \<^verbatim>\<open>outcome\<close>. Stateful code takes and
  returns its state; clock readings are arguments; a task reading lines from a connection is a
  function of what its successive reads return. Third-party code is a record of functions passed as
  an argument: the CID, SHA-256, hex and Ed25519 crates (\<^verbatim>\<open>Canonical\<close>), the row order and error text of the SQL
  engine (\<^verbatim>\<open>SqliteLog\<close>), the regular expressions and Unicode case folding of Sieve (\<^verbatim>\<open>SieveEval\<close>). What is assumed
  of them is a named predicate, and concrete instances (\<^verbatim>\<open>demo_lib\<close>, \<^verbatim>\<open>demo_sqlx\<close>, \<^verbatim>\<open>demo_sieve_lib\<close>, \<^verbatim>\<open>demo_reads\<close>) meet it.

  \<^bold>\<open>Foundations.\<close> \<^verbatim>\<open>Prelude\<close> has results, ASCII and UTF-8 characters and the collections \<^verbatim>\<open>run_simps\<close> and
  \<^verbatim>\<open>inv_intros\<close>. \<^verbatim>\<open>RustStr\<close> has the string library the sources call: splitting, the two trims, UTF-8
  validation and lossy decoding, character boundaries.

  \<^bold>\<open>Core\<close> (\<^verbatim>\<open>crates/core\<close>).
  \<^item> \<^verbatim>\<open>Hlc\<close>: the hybrid logical clock of \<^verbatim>\<open>hlc.rs\<close>. Timestamps issued by one clock increase strictly whatever
    the wall clock does, receiving respects the skew bound, a restart continues behind its checkpoint.
  \<^item> \<^verbatim>\<open>Wildmat\<close>: patterns and group filters of \<^verbatim>\<open>wildmat.rs\<close>, with the table-driven matcher shown
    equal to the recursive meaning of a pattern.
  \<^item> \<^verbatim>\<open>Article\<close>: group names, articles and ingress validation (\<^verbatim>\<open>article.rs\<close>, \<^verbatim>\<open>validation.rs\<close>, \<^verbatim>\<open>error.rs\<close>); both checks
    accept exactly what the rules allow.
  \<^item> \<^verbatim>\<open>Canonical\<close>: the bytes that are signed and hashed (\<^verbatim>\<open>canonical.rs\<close>) determine the article or entry.
  \<^item> \<^verbatim>\<open>GroupLog\<close>, \<^verbatim>\<open>MemLog\<close>, \<^verbatim>\<open>SqliteLog\<close>, \<^verbatim>\<open>GroupLogProps\<close>: the log. The storage trait is the record
    \<^verbatim>\<open>log_storage_ops\<close> with the contract \<^verbatim>\<open>log_storage\<close>; the in-memory maps and the SQL tables are shown to
    meet it, and appending, verification and concurrent appends are verified against the contract once.
  \<^item> \<^verbatim>\<open>Reconcile\<close>, \<^verbatim>\<open>Backfill\<close>: the exchange of tips and the fetch of missing ancestors. Their loops end because
    each round consumes the visit budget of the source (\<^verbatim>\<open>MAX_BFS_VISITS\<close>, \<^verbatim>\<open>MAX_BACKFILL_ENTRIES\<close>) or shortens the queue.
  \<^item> \<^verbatim>\<open>CircuitBreaker\<close>: the breaker of \<^verbatim>\<open>circuit_breaker.rs\<close> follows its documented state machine.
  \<^item> \<^verbatim>\<open>MsgIdMap\<close>: the table of Message-IDs and CIDs implements a map that never changes a binding.

  \<^bold>\<open>Wire and transit.\<close>
  \<^item> \<^verbatim>\<open>Wire\<close>: dot-stuffing and the three readers that undo it; what is sent is what is read.
  \<^item> \<^verbatim>\<open>Ingest\<close>: the checks of an offered article (\<^verbatim>\<open>ingestion.rs\<close>), the Path header, and the header scan
    of the pipeline. The duplicate check and the storage key agree on plain headers; an accepted
    article may still crash the scan.
  \<^item> \<^verbatim>\<open>IngestQueue\<close>: the bounded queue between sessions and pipeline (\<^verbatim>\<open>ingestion_queue.rs\<close>). Its operations
    are cut into their atomic steps; every interleaving implements a first-in first-out queue within
    both limits. The channel of tokio is a parameter (\<^verbatim>\<open>bounded_fifo\<close>, \<^verbatim>\<open>demo_mpsc\<close>).
  \<^item> \<^verbatim>\<open>Staging\<close>: the write-ahead staging area (\<^verbatim>\<open>staging.rs\<close>) with its drain workers (\<^verbatim>\<open>main.rs\<close>), cancelled
    sessions and restarts. No article is lost from view or held twice, and a worker empties the table
    in at most ten rounds per row, the retry limit of the source.
  \<^item> \<^verbatim>\<open>RateLimit\<close>: the token buckets of \<^verbatim>\<open>rate_limit.rs\<close> and the latency monitor of \<^verbatim>\<open>backpressure.rs\<close>, over the
    floating-point numbers of \<^verbatim>\<open>F64\<close> (rationals rounded to 53 bits, half to even). No address gets more than its
    burst and rate allow, a patient one is always served.
  \<^item> \<^verbatim>\<open>Peers\<close>: the registry of peers and the blacklist (\<^verbatim>\<open>peer_registry.rs\<close>, \<^verbatim>\<open>blacklist.rs\<close>). Bans follow a policy
    on the history of a peer as long as the threshold is at most 20; above it there are none.
  \<^item> \<^verbatim>\<open>PeerAuth\<close>: the handshake of \<^verbatim>\<open>auth.rs\<close>, complete between honest nodes and open to relaying.
  \<^item> \<^verbatim>\<open>PeerSession\<close>: a whole peering connection (\<^verbatim>\<open>session.rs\<close>) over all of the above. Staging and queue are two
    instances of the interface \<^verbatim>\<open>article_sink\<close>; no article the peer was told is taken is lost.
  \<^item> \<^verbatim>\<open>BlockStore\<close>: the trait of block stores with three of its implementations (\<^verbatim>\<open>pipeline.rs\<close>, \<^verbatim>\<open>sqlite_store.rs\<close>,
    \<^verbatim>\<open>fs_store.rs\<close>) and the cache in front of a store (\<^verbatim>\<open>block_cache.rs\<close>). The contract is the locale \<^verbatim>\<open>block_store\<close>;
    the cache meets it over any store that does, and its answers are those of the store alone.
  \<^item> \<^verbatim>\<open>Pipeline\<close>: a run of \<^verbatim>\<open>run_pipeline\<close> (\<^verbatim>\<open>pipeline.rs\<close>) and what the drain tasks do around it (\<^verbatim>\<open>main.rs\<close>), over
    the contracts of the block store and the log. What it reports is what it did, except that an article
    posted to several empty groups reaches only the first.
  \<^item> \<^verbatim>\<open>Retention\<close>: the pinning policy, the collector and the operator's commands (\<^verbatim>\<open>retention/\<close>, \<^verbatim>\<open>cli/ops.rs\<close>). A
    round of the collector removes only what nothing protects; the operator's own command does not.

  \<^bold>\<open>Sieve\<close> (\<^verbatim>\<open>crates/sieve-native\<close>). \<^verbatim>\<open>SieveLexer\<close>, \<^verbatim>\<open>SieveForm\<close>, \<^verbatim>\<open>SieveEval\<close> and \<^verbatim>\<open>Sieve\<close> are the tokenizer, the form reader,
  the evaluator and the compile-time checks. Scripts survive being printed and parsed, compilation
  decides a stated condition, and a run has one outcome, the first action reached.

  \<^bold>\<open>Not modelled.\<close> The development covers ingestion, storage and replication of articles. The reader, SMTP,
  mail and IMAP daemons are outside of it except for their reading of articles and the Sieve filter, and so
  are the import and export tools of the transit daemon. Configuration, command lines, start-up and shutdown,
  TLS, HTTP and DNS clients, the stores that wrap a third-party database or service, remote pinning, metrics
  and logging are mostly calls into third-party crates. Failures of the database engine and the disk,
  out-of-memory conditions and the scheduling of tasks other than where an interleaving is stated are left
  out.
\<close>

end
